(* ===== verification/Gannet_Prelude.thy ===== *)
theory Gannet_Prelude
  imports Main "HOL-Library.Word" "HOL-Library.Sublist"
begin

text \<open>
  The vocabulary every component shares: the result type in which each panic and each
  process exit of the Rust code is a value, the checked operations of Rust (indexing,
  slicing, unsigned arithmetic, shifts, in the development profile the Makefile builds,
  where overflow panics), and the lemma collections the component proofs draw on.
\<close>

unbundle bit_operations_syntax

section \<open>Lemma collections\<close>

named_theorems checked_simps \<open>evaluation of the checked operations\<close>
named_theorems octet_simps \<open>octets of addresses\<close>
named_theorems fails_intros \<open>which failures a computation can have\<close>

section \<open>Results\<close>

datatype panic =
    Index_Out_Of_Bounds
  | Slice_Out_Of_Range
  | Arithmetic_Overflow
  | Shift_Overflow
  | Char_Boundary
  | Unwrap_On_Error
  | Process_Exit nat

type_synonym 'a outcome = "panic + 'a"

definition outcome_bind :: "'a outcome \<Rightarrow> ('a \<Rightarrow> 'b outcome) \<Rightarrow> 'b outcome" where
  "outcome_bind m f = (case m of Inl e \<Rightarrow> Inl e | Inr x \<Rightarrow> f x)"

lemma outcome_bind_simps [simp, checked_simps]:
  "outcome_bind (Inl e) f = Inl e"
  "outcome_bind (Inr x) f = f x"
  by (simp_all add: outcome_bind_def)

lemma outcome_bind_Inr_iff:
  "outcome_bind m f = Inr y \<longleftrightarrow> (\<exists>x. m = Inr x \<and> f x = Inr y)"
  by (cases m) auto

lemma outcome_bind_cong [fundef_cong]:
  "m = m' \<Longrightarrow> (\<And>x. m' = Inr x \<Longrightarrow> f x = f' x) \<Longrightarrow> outcome_bind m f = outcome_bind m' f'"
  by (cases m') auto

lemma outcome_bind_assoc:
  "outcome_bind (outcome_bind m f) g = outcome_bind m (\<lambda>x. outcome_bind (f x) g)"
  by (cases m) auto

definition returns :: "'a outcome \<Rightarrow> bool" where
  "returns m \<longleftrightarrow> (case m of Inl _ \<Rightarrow> False | Inr _ \<Rightarrow> True)"

lemma returns_simps [simp]: "returns (Inr x)" "\<not> returns (Inl e)"
  by (simp_all add: returns_def)

lemma returns_iff: "returns m \<longleftrightarrow> (\<exists>x. m = Inr x)"
  by (cases m) auto

lemma returnsE: "returns m \<Longrightarrow> (\<And>x. m = Inr x \<Longrightarrow> P) \<Longrightarrow> P"
  by (auto simp: returns_iff)

lemma returns_bind:
  "returns m \<Longrightarrow> (\<And>x. m = Inr x \<Longrightarrow> returns (f x)) \<Longrightarrow> returns (outcome_bind m f)"
  by (cases m) auto

text \<open>Mapping a fallible function over a list stops at the first failure, as a Rust
  iterator chain that panics does.\<close>

fun map_outcome :: "('a \<Rightarrow> 'b outcome) \<Rightarrow> 'a list \<Rightarrow> 'b list outcome" where
  "map_outcome f [] = Inr []"
| "map_outcome f (x # xs) =
     (case f x of Inl e \<Rightarrow> Inl e
      | Inr y \<Rightarrow> (case map_outcome f xs of Inl e \<Rightarrow> Inl e | Inr ys \<Rightarrow> Inr (y # ys)))"

lemma map_outcome_Inr: "(\<And>x. x \<in> set xs \<Longrightarrow> f x = Inr (g x)) \<Longrightarrow> map_outcome f xs = Inr (map g xs)"
  by (induction xs) auto

text \<open>A computation whose only failures are those of a set.\<close>

definition fails_with :: "panic set \<Rightarrow> 'a outcome \<Rightarrow> bool" where
  "fails_with E m \<longleftrightarrow> (\<forall>e. m = Inl e \<longrightarrow> e \<in> E)"

lemma fails_with_simps [simp]: "fails_with E (Inr x)" "fails_with E (Inl e) \<longleftrightarrow> e \<in> E"
  by (simp_all add: fails_with_def)

lemma fails_with_bind [fails_intros]:
  "fails_with E m \<Longrightarrow> (\<And>x. m = Inr x \<Longrightarrow> fails_with E (f x)) \<Longrightarrow> fails_with E (outcome_bind m f)"
  by (cases m) simp_all

lemma fails_with_map [fails_intros]:
  "(\<And>x. x \<in> set xs \<Longrightarrow> fails_with E (f x)) \<Longrightarrow> fails_with E (map_outcome f xs)"
  by (induction xs) (auto simp: fails_with_def split: sum.splits)

lemma returns_fails_with: "returns m \<Longrightarrow> fails_with E m"
  by (auto simp: returns_iff)

lemma fails_with_mono: "fails_with D m \<Longrightarrow> D \<subseteq> E \<Longrightarrow> fails_with E m"
  by (auto simp: fails_with_def)

section \<open>Checked operations\<close>

definition index_at :: "'a list \<Rightarrow> nat \<Rightarrow> 'a outcome" where
  "index_at xs i = (if i < length xs then Inr (xs ! i) else Inl Index_Out_Of_Bounds)"

definition slice :: "'a list \<Rightarrow> nat \<Rightarrow> nat \<Rightarrow> 'a list outcome" where
  "slice xs i j =
     (if i \<le> j \<and> j \<le> length xs then Inr (take (j - i) (drop i xs)) else Inl Slice_Out_Of_Range)"

definition checked_add :: "'w::len word \<Rightarrow> 'w word \<Rightarrow> 'w word outcome" where
  "checked_add a b =
     (if unat a + unat b < 2 ^ LENGTH('w) then Inr (a + b) else Inl Arithmetic_Overflow)"

definition checked_sub :: "'w::len word \<Rightarrow> 'w word \<Rightarrow> 'w word outcome" where
  "checked_sub a b = (if b \<le> a then Inr (a - b) else Inl Arithmetic_Overflow)"

definition checked_shl :: "'w::len word \<Rightarrow> 'v::len word \<Rightarrow> 'w word outcome" where
  "checked_shl a n =
     (if unat n < LENGTH('w) then Inr (push_bit (unat n) a) else Inl Shift_Overflow)"

lemma index_at_simp [checked_simps]: "i < length xs \<Longrightarrow> index_at xs i = Inr (xs ! i)"
  by (simp add: index_at_def)

lemma slice_simp [checked_simps]:
  "i \<le> j \<Longrightarrow> j \<le> length xs \<Longrightarrow> slice xs i j = Inr (take (j - i) (drop i xs))"
  by (simp add: slice_def)

lemma returns_index_at [simp]: "returns (index_at xs i) \<longleftrightarrow> i < length xs"
  by (simp add: index_at_def)

lemma returns_slice [simp]: "returns (slice xs i j) \<longleftrightarrow> i \<le> j \<and> j \<le> length xs"
  by (simp add: slice_def)

lemma checked_add_Inr:
  "checked_add a b = Inr (c :: 'w::len word) \<Longrightarrow> c = a + b \<and> unat c = unat a + unat b"
  by (auto simp: checked_add_def unat_word_ariths split: if_splits)

lemma checked_sub_Inr:
  "checked_sub a b = Inr c \<Longrightarrow> c = a - b \<and> unat c = unat a - unat b"
  by (auto simp: checked_sub_def unat_sub split: if_splits)

section \<open>Bytes\<close>

type_synonym byte = "8 word"
type_synonym bytes = "byte list"

lemma byte_less_256 [simp]: "unat (b :: byte) < 256"
proof -
  have "unat b < 2 ^ LENGTH(8)" by (rule unsigned_less)
  then show ?thesis by simp
qed

lemma byte_le_255: "unat (b :: byte) \<le> 255"
  using byte_less_256 [of b] by (simp del: byte_less_256)

definition byte_of_char :: "char \<Rightarrow> byte" where
  "byte_of_char c = of_nat (of_char c)"

definition char_of_byte :: "byte \<Rightarrow> char" where
  "char_of_byte b = char_of (unat b)"

lemma char_of_byte_of_char [simp]: "char_of_byte (byte_of_char c) = c"
proof -
  have "of_char c < (256 :: nat)" by (rule nat_of_char_less_256)
  then show ?thesis
    by (simp add: char_of_byte_def byte_of_char_def unat_of_nat)
qed

lemma byte_of_char_of_byte [simp]: "byte_of_char (char_of_byte b) = b"
  by (simp add: char_of_byte_def byte_of_char_def)

definition u16_be :: "byte \<Rightarrow> byte \<Rightarrow> 16 word" where
  "u16_be hi lo = push_bit 8 (ucast hi) OR ucast lo"

definition u16_bytes :: "16 word \<Rightarrow> bytes" where
  "u16_bytes w = [ucast (drop_bit 8 w), ucast w]"

lemma bit_byte_ge [simp]: "8 \<le> n \<Longrightarrow> bit (b :: byte) n \<longleftrightarrow> False"
  using bit_imp_le_length [of b n] by auto

lemma u16_be_bytes: "u16_bytes (u16_be hi lo) = [hi, lo]"
  by (auto simp: u16_bytes_def u16_be_def bit_simps intro!: bit_word_eqI)

lemma length_u16_bytes [simp]: "length (u16_bytes w) = 2"
  by (simp add: u16_bytes_def)

section \<open>Lists\<close>

lemma take_drop_append [simp]: "take (length ys) (drop (length xs) (xs @ ys @ zs)) = ys"
  by simp

lemma find_Some_mem: "List.find P xs = Some x \<Longrightarrow> x \<in> set xs \<and> P x"
  by (auto simp: find_Some_iff)

text \<open>\<open>retain(|x| seen.insert(x.clone()))\<close>: the first occurrence of each element.\<close>

fun retain_new :: "'a list \<Rightarrow> 'a list \<Rightarrow> 'a list" where
  "retain_new seen [] = []"
| "retain_new seen (x # xs) =
     (if x \<in> set seen then retain_new seen xs else x # retain_new (x # seen) xs)"

lemma set_retain_new: "set (retain_new seen xs) = set xs - set seen"
  by (induction xs arbitrary: seen) auto

lemma distinct_retain_new: "distinct (retain_new seen xs)"
  by (induction xs arbitrary: seen) (auto simp: set_retain_new)

text \<open>\<open>Iterator::max_by_key\<close>: the last of the elements with the largest key.\<close>

fun max_by_key :: "('a \<Rightarrow> 'b::linorder) \<Rightarrow> 'a list \<Rightarrow> 'a option" where
  "max_by_key f [] = None"
| "max_by_key f [x] = Some x"
| "max_by_key f (x # xs) =
     (case max_by_key f xs of None \<Rightarrow> Some x
      | Some y \<Rightarrow> if f x \<le> f y then Some y else Some x)"

lemma max_by_key_None [simp]: "max_by_key f xs = None \<longleftrightarrow> xs = []"
  by (induction f xs rule: max_by_key.induct) (auto split: option.splits)

lemma max_by_key_Some:
  "max_by_key f xs = Some y \<Longrightarrow> y \<in> set xs \<and> (\<forall>x \<in> set xs. f x \<le> f y)"
proof (induction f xs arbitrary: y rule: max_by_key.induct)
  case (3 f x x' xs)
  then show ?case by (fastforce split: option.splits if_splits)
qed auto

section \<open>Invariants of stateful components\<close>

text \<open>
  The contract of a component with a state: an initial condition, a step relation and an
  invariant that the first establishes and the second keeps. What the clients get is that
  every state a run reaches satisfies the invariant. The registry, the passive listener, the
  probe-port allocator and the bounded sweep are instances.
\<close>

locale invariant_system =
  fixes init :: "'s \<Rightarrow> bool"
    and step :: "'s \<Rightarrow> 's \<Rightarrow> bool"
    and inv :: "'s \<Rightarrow> bool"
  assumes init_inv: "init s \<Longrightarrow> inv s"
    and step_inv: "inv s \<Longrightarrow> step s t \<Longrightarrow> inv t"
begin

lemma run_inv: "step\<^sup>*\<^sup>* s t \<Longrightarrow> inv s \<Longrightarrow> inv t"
  by (induction rule: rtranclp_induct) (auto intro: step_inv)

lemma reachable_inv: "init s \<Longrightarrow> step\<^sup>*\<^sup>* s t \<Longrightarrow> inv t"
  by (rule run_inv [OF _ init_inv])

end

section \<open>Runs that can be brought to an end\<close>

text \<open>
  The contract of a component that can always finish: from a good state that is not final a step
  leads to a good state with less work left. The client gets a run to a final state and a bound
  on its length.
\<close>

locale finishing_system =
  fixes step :: "'s \<Rightarrow> 's \<Rightarrow> bool"
    and good :: "'s \<Rightarrow> bool"
    and final :: "'s \<Rightarrow> bool"
    and work :: "'s \<Rightarrow> nat"
  assumes progress: "good s \<Longrightarrow> \<not> final s \<Longrightarrow> \<exists>t. step s t \<and> good t \<and> work t < work s"
begin

lemma finishes: "good s \<Longrightarrow> \<exists>t n. n \<le> work s \<and> (step ^^ n) s t \<and> good t \<and> final t"
proof (induction "work s" arbitrary: s rule: less_induct)
  case less
  show ?case
  proof (cases "final s")
    case True
    with less.prems show ?thesis by (intro exI [of _ s] exI [of _ 0]) simp
  next
    case False
    then obtain t where t: "step s t" "good t" "work t < work s" using progress less.prems by blast
    then obtain u n where u: "n \<le> work t" "(step ^^ n) t u" "good u" "final u" using less.hyps by blast
    have "(step ^^ Suc n) s u" using t(1) u(2) by (rule relpowp_Suc_I2)
    with t(3) u show ?thesis by (intro exI [of _ u] exI [of _ "Suc n"]) simp
  qed
qed

end

text \<open>
  The stronger contract of a component that ends by itself: from a good state every step leads to
  a good state with less work left, and only a final state has no step. Then no run is longer than
  the work, whatever the order of the steps, and a run that cannot go on is at its end.
\<close>

locale terminating_system =
  fixes step :: "'s \<Rightarrow> 's \<Rightarrow> bool"
    and good :: "'s \<Rightarrow> bool"
    and final :: "'s \<Rightarrow> bool"
    and work :: "'s \<Rightarrow> nat"
  assumes decreases: "good s \<Longrightarrow> step s t \<Longrightarrow> good t \<and> work t < work s"
    and goes_on: "good s \<Longrightarrow> \<not> final s \<Longrightarrow> \<exists>t. step s t"
begin

lemma run_good: "step\<^sup>*\<^sup>* s t \<Longrightarrow> good s \<Longrightarrow> good t"
  by (induction rule: rtranclp_induct) (auto dest: decreases)

lemma run_bounded: "(step ^^ n) s t \<Longrightarrow> good s \<Longrightarrow> n + work t \<le> work s"
proof (induction n arbitrary: t)
  case (Suc n)
  then obtain u where u: "(step ^^ n) s u" "step u t" by auto
  then have "good u" using Suc.prems(2) run_good relpowp_imp_rtranclp by metis
  with Suc.IH [OF u(1) Suc.prems(2)] decreases [OF _ u(2)] show ?case by fastforce
qed simp

lemma stuck_final: "step\<^sup>*\<^sup>* s t \<Longrightarrow> good s \<Longrightarrow> \<nexists>u. step t u \<Longrightarrow> final t"
  using run_good goes_on by blast

end

sublocale terminating_system \<subseteq> finishing_system step good final work
  by unfold_locales (meson decreases goes_on)

section \<open>Detailed and abstract runs\<close>

text \<open>
  The contract between a detailed machine and an abstract one it implements: each detailed step
  is an abstract step of the abstracted states, or leaves them as they are. The threads and
  channels of the listener are such a detailed machine over its event loop.
\<close>

locale stuttering_simulation =
  fixes abs :: "'c \<Rightarrow> 'a"
    and cstep :: "'c \<Rightarrow> 'c \<Rightarrow> bool"
    and astep :: "'a \<Rightarrow> 'a \<Rightarrow> bool"
  assumes simulates: "cstep s t \<Longrightarrow> astep (abs s) (abs t) \<or> abs t = abs s"
begin

lemma run_simulates: "cstep\<^sup>*\<^sup>* s t \<Longrightarrow> astep\<^sup>*\<^sup>* (abs s) (abs t)"
proof (induction rule: rtranclp_induct)
  case (step t u)
  from simulates [OF step.hyps(2)] step.IH show ?case
    by (auto intro: rtranclp.rtrancl_into_rtrancl)
qed simp

end

end
