(* ===== verification/Rust_Strings.thy ===== *)
theory Rust_Strings
  imports Gannet_Prelude
begin

text \<open>
  The part of Rust's \<open>str\<close> and integer formatting that the program uses. A string is the
  list of its UTF-8 bytes, as in Rust, so \<open>length\<close> is \<open>str::len\<close>. Searching, splitting and
  trimming follow the standard library; \<open>to_lowercase\<close> maps the ASCII letters and the two
  other characters whose lower case contains an ASCII letter, and keeps every other
  non-ASCII character (the program compares lower-cased text with ASCII literals only, and
  no other character's lower case contains an ASCII byte).
\<close>

section \<open>Searching and splitting\<close>

definition starts_with :: "string \<Rightarrow> string \<Rightarrow> bool" where
  "starts_with s p = prefix p s"

definition ends_with :: "string \<Rightarrow> string \<Rightarrow> bool" where
  "ends_with s p = suffix p s"

fun str_contains :: "string \<Rightarrow> string \<Rightarrow> bool" where
  "str_contains [] p = (p = [])"
| "str_contains (c # cs) p = (prefix p (c # cs) \<or> str_contains cs p)"

definition contains_any :: "string list \<Rightarrow> string \<Rightarrow> bool" where
  "contains_any ps s = list_ex (str_contains s) ps"

fun find_str :: "string \<Rightarrow> string \<Rightarrow> nat option" where
  "find_str [] p = (if p = [] then Some 0 else None)"
| "find_str (c # cs) p = (if prefix p (c # cs) then Some 0 else map_option Suc (find_str cs p))"

definition strip_prefix :: "string \<Rightarrow> string \<Rightarrow> string option" where
  "strip_prefix s p = (if prefix p s then Some (drop (length p) s) else None)"

fun split_char :: "char \<Rightarrow> string \<Rightarrow> string list" where
  "split_char d [] = [[]]"
| "split_char d (c # cs) =
     (if c = d then [] # split_char d cs
      else (case split_char d cs of [] \<Rightarrow> [[c]] | w # ws \<Rightarrow> (c # w) # ws))"

fun split_once :: "char \<Rightarrow> string \<Rightarrow> (string \<times> string) option" where
  "split_once d [] = None"
| "split_once d (c # cs) =
     (if c = d then Some ([], cs) else map_option (apfst ((#) c)) (split_once d cs))"

fun join_with :: "string \<Rightarrow> string list \<Rightarrow> string" where
  "join_with sep [] = []"
| "join_with sep [w] = w"
| "join_with sep (w # ws) = w @ sep @ join_with sep ws"

text \<open>\<open>str::lines\<close>: the line feed is dropped, with one carriage return before it; a last
  line without a line feed is kept as it is, an empty one dropped.\<close>

definition strip_cr :: "string \<Rightarrow> string" where
  "strip_cr s = (if s \<noteq> [] \<and> last s = CHR 0x0D then butlast s else s)"

definition str_lines :: "string \<Rightarrow> string list" where
  "str_lines s =
     (let ls = split_char CHR 0x0A s
      in map strip_cr (butlast ls) @ (if last ls = [] then [] else [last ls]))"

section \<open>Whitespace\<close>

text \<open>The characters of Unicode's White\_Space property, in UTF-8.\<close>

definition whitespace_chars :: "string list" where
  "whitespace_chars =
     [[CHR 0x09], [CHR 0x0A], [CHR 0x0B], [CHR 0x0C], [CHR 0x0D], [CHR 0x20],
      [CHR 0xC2, CHR 0x85], [CHR 0xC2, CHR 0xA0], [CHR 0xE1, CHR 0x9A, CHR 0x80]]
     @ map (\<lambda>b. [CHR 0xE2, CHR 0x80, b])
         [CHR 0x80, CHR 0x81, CHR 0x82, CHR 0x83, CHR 0x84, CHR 0x85, CHR 0x86, CHR 0x87,
          CHR 0x88, CHR 0x89, CHR 0x8A, CHR 0xA8, CHR 0xA9, CHR 0xAF]
     @ [[CHR 0xE2, CHR 0x81, CHR 0x9F], [CHR 0xE3, CHR 0x80, CHR 0x80]]"

definition space_len :: "string \<Rightarrow> nat" where
  "space_len s =
     (case List.find (\<lambda>w. prefix w s) whitespace_chars of None \<Rightarrow> 0 | Some w \<Rightarrow> length w)"

definition space_len_end :: "string \<Rightarrow> nat" where
  "space_len_end s =
     (case List.find (\<lambda>w. suffix w s) whitespace_chars of None \<Rightarrow> 0 | Some w \<Rightarrow> length w)"

lemma whitespace_nonempty: "w \<in> set whitespace_chars \<Longrightarrow> w \<noteq> []"
  by (auto simp: whitespace_chars_def)

lemma space_len_le: "space_len s \<le> length s"
  by (auto simp: space_len_def prefix_def dest!: find_Some_mem split: option.splits)

lemma space_len_end_le: "space_len_end s \<le> length s"
  by (auto simp: space_len_end_def suffix_def dest!: find_Some_mem split: option.splits)

lemma space_len_decr: "space_len s \<noteq> 0 \<Longrightarrow> (drop (space_len s) s, s) \<in> measure length"
  using space_len_le [of s] by auto

lemma space_len_end_decr:
  "space_len_end s \<noteq> 0 \<Longrightarrow> (take (length s - space_len_end s) s, s) \<in> measure length"
  using space_len_end_le [of s] by auto

function trim_start :: "string \<Rightarrow> string" where
  "trim_start s = (if space_len s = 0 then s else trim_start (drop (space_len s) s))"
  by pat_completeness auto
termination
  by (relation "measure length") (rule wf_measure, erule space_len_decr)

function trim_end :: "string \<Rightarrow> string" where
  "trim_end s =
     (if space_len_end s = 0 then s else trim_end (take (length s - space_len_end s) s))"
  by pat_completeness auto
termination
  by (relation "measure length") (rule wf_measure, erule space_len_end_decr)

declare trim_start.simps [simp del] trim_end.simps [simp del]

definition trim_str :: "string \<Rightarrow> string" where
  "trim_str s = trim_end (trim_start s)"

function split_ws :: "string \<Rightarrow> string \<Rightarrow> string list" where
  "split_ws cur [] = (if cur = [] then [] else [rev cur])"
| "split_ws cur (c # cs) =
     (if space_len (c # cs) = 0 then split_ws (c # cur) cs
      else (if cur = [] then [] else [rev cur]) @ split_ws [] (drop (space_len (c # cs)) (c # cs)))"
  by pat_completeness auto
termination
  by (relation "measure (length \<circ> snd)") auto

definition split_whitespace :: "string \<Rightarrow> string list" where
  "split_whitespace s = split_ws [] s"

section \<open>Trimming\<close>

definition trim_start_char :: "char \<Rightarrow> string \<Rightarrow> string" where
  "trim_start_char c s = dropWhile (\<lambda>d. d = c) s"

function trim_end_matches :: "string \<Rightarrow> string \<Rightarrow> string" where
  "trim_end_matches p s =
     (if p \<noteq> [] \<and> suffix p s then trim_end_matches p (take (length s - length p) s) else s)"
  by pat_completeness auto
termination
proof (relation "measure (length \<circ> snd)", goal_cases)
  case (2 p s)
  then have "0 < length p" "length p \<le> length s" by (auto dest: suffix_length_le)
  then show ?case by (cases p) auto
qed simp

declare trim_end_matches.simps [simp del]

lemma trim_end_matches_no_suffix: "p \<noteq> [] \<Longrightarrow> \<not> suffix p (trim_end_matches p s)"
proof (induction p s rule: trim_end_matches.induct)
  case (1 p s)
  then show ?case by (subst trim_end_matches.simps) simp
qed

lemma trim_start_char_hd: "trim_start_char c s \<noteq> [] \<Longrightarrow> hd (trim_start_char c s) \<noteq> c"
  using hd_dropWhile [of "\<lambda>d. d = c" s] unfolding trim_start_char_def by blast

section \<open>Facts about searching and splitting\<close>

lemma starts_with_iff: "starts_with s p \<longleftrightarrow> take (length p) s = p"
  by (auto simp: starts_with_def prefix_def) (metis append_take_drop_id)

lemma str_contains_iff: "str_contains s p \<longleftrightarrow> (\<exists>u v. s = u @ p @ v)"
proof (induction s)
  case Nil
  then show ?case by auto
next
  case (Cons c cs)
  have "prefix p (c # cs) \<or> (\<exists>u v. cs = u @ p @ v) \<longleftrightarrow> (\<exists>u v. c # cs = u @ p @ v)"
    (is "?l \<longleftrightarrow> ?r")
  proof
    assume ?l
    then show ?r
      by (metis append_Cons append_Nil prefix_def)
  next
    assume ?r
    then obtain u v where "c # cs = u @ p @ v" by blast
    then show ?l
      by (cases u) (auto simp: prefix_def)
  qed
  with Cons show ?case by simp
qed

lemma str_contains_append: "str_contains s p \<Longrightarrow> str_contains (u @ s @ v) p"
  by (metis append.assoc str_contains_iff)

lemma str_contains_trans: "str_contains s p \<Longrightarrow> str_contains p q \<Longrightarrow> str_contains s q"
  by (metis str_contains_append str_contains_iff)

lemma find_str_None: "find_str s p = None \<longleftrightarrow> \<not> str_contains s p"
  by (induction s) auto

lemma find_str_Some:
  "find_str s p = Some i \<Longrightarrow> i + length p \<le> length s \<and> take (length p) (drop i s) = p"
  by (induction s arbitrary: i)
    (auto simp: prefix_def split: if_splits dest!: arg_cong [where f = length])

lemma split_char_nonempty [simp]: "split_char d s \<noteq> []"
  by (induction s) (auto split: list.splits)

lemma split_char_no_sep: "w \<in> set (split_char d s) \<Longrightarrow> d \<notin> set w"
  by (induction s arbitrary: w) (auto split: list.splits if_splits)

lemma split_char_subset: "w \<in> set (split_char d s) \<Longrightarrow> set w \<subseteq> set s"
proof (induction s arbitrary: w)
  case (Cons c cs)
  obtain v vs where "split_char d cs = v # vs" by (cases "split_char d cs") auto
  with Cons show ?case by (fastforce split: if_splits)
qed simp

lemma join_with_Cons:
  "ws \<noteq> [] \<Longrightarrow> join_with sep (w # ws) = w @ sep @ join_with sep ws"
  by (cases ws) auto

lemma join_split: "join_with [d] (split_char d s) = s"
proof (induction s)
  case Nil
  then show ?case by simp
next
  case (Cons c cs)
  obtain w ws where split: "split_char d cs = w # ws"
    by (cases "split_char d cs") auto
  show ?case
  proof (cases "c = d")
    case True
    with Cons split show ?thesis by simp
  next
    case False
    with Cons split show ?thesis by (cases ws) auto
  qed
qed

lemma split_char_clean: "d \<notin> set w \<Longrightarrow> split_char d w = [w]"
  by (induction w) auto

lemma split_char_append: "d \<notin> set w \<Longrightarrow> split_char d (w @ d # s) = w # split_char d s"
  by (induction w) auto

lemma split_join:
  "ws \<noteq> [] \<Longrightarrow> (\<And>w. w \<in> set ws \<Longrightarrow> d \<notin> set w) \<Longrightarrow> split_char d (join_with [d] ws) = ws"
proof (induction ws)
  case Nil
  then show ?case by simp
next
  case (Cons w ws)
  then show ?case
    by (cases ws) (simp_all add: split_char_clean split_char_append)
qed

lemma split_once_Some:
  "split_once d s = Some (l, r) \<Longrightarrow> s = l @ d # r \<and> d \<notin> set l"
  by (induction s arbitrary: l) (auto split: if_splits)

lemma split_once_append: "d \<notin> set l \<Longrightarrow> split_once d (l @ d # r) = Some (l, r)"
  by (induction l) auto

lemma split_once_None: "split_once d s = None \<longleftrightarrow> d \<notin> set s"
  by (induction s) auto

end
