(* ===== verification/Rust_Text.thy ===== *)
theory Rust_Text
  imports Rust_Strings
begin

text \<open>
  Rust's number formatting and parsing, lower-casing, and UTF-8 decoding with replacement:
  \<open>{}\<close> and \<open>{:02x}\<close> of unsigned integers, \<open>parse::<u8>\<close> and \<open>from_str_radix\<close>,
  \<open>str::to_lowercase\<close>, \<open>String::from_utf8_lossy\<close> and \<open>std::str::from_utf8\<close>.
\<close>

section \<open>Formatting numbers\<close>

definition digit_char :: "nat \<Rightarrow> char" where
  "digit_char d = char_of (48 + d)"

fun show_nat :: "nat \<Rightarrow> string" where
  "show_nat n = (if n < 10 then [digit_char n] else show_nat (n div 10) @ [digit_char (n mod 10)])"

declare show_nat.simps [simp del]

definition hex_digit :: "nat \<Rightarrow> char" where
  "hex_digit d = (if d < 10 then char_of (48 + d) else char_of (87 + d))"

definition hex_digit_upper :: "nat \<Rightarrow> char" where
  "hex_digit_upper d = (if d < 10 then char_of (48 + d) else char_of (55 + d))"

definition show_hex2 :: "byte \<Rightarrow> string" where
  "show_hex2 b = [hex_digit (unat b div 16), hex_digit (unat b mod 16)]"

definition show_hex2_upper :: "byte \<Rightarrow> string" where
  "show_hex2_upper b = [hex_digit_upper (unat b div 16), hex_digit_upper (unat b mod 16)]"

section \<open>Parsing numbers\<close>

definition digit_val :: "nat \<Rightarrow> char \<Rightarrow> nat option" where
  "digit_val radix c =
     (let n = of_char c :: nat;
          d = (if 48 \<le> n \<and> n \<le> 57 then n - 48
               else if 97 \<le> n \<and> n \<le> 122 then n - 87
               else if 65 \<le> n \<and> n \<le> 90 then n - 55 else 36)
      in if d < radix then Some d else None)"

fun digits_val :: "nat \<Rightarrow> nat \<Rightarrow> string \<Rightarrow> nat option" where
  "digits_val radix acc [] = Some acc"
| "digits_val radix acc (c # cs) =
     (case digit_val radix c of None \<Rightarrow> None | Some d \<Rightarrow> digits_val radix (acc * radix + d) cs)"

text \<open>\<open>u8::from_str_radix\<close> and \<open>u32::from_str_radix\<close> (and \<open>parse\<close>, with radix 10): one
  leading plus sign is accepted, an empty number or one above the type's maximum is an error.\<close>

definition from_str_radix :: "nat \<Rightarrow> nat \<Rightarrow> string \<Rightarrow> nat option" where
  "from_str_radix bound radix s =
     (let ds = (case s of c # cs \<Rightarrow> if c = CHR ''+'' then cs else s | [] \<Rightarrow> [])
      in if ds = [] then None
         else (case digits_val radix 0 ds of
                 None \<Rightarrow> None | Some n \<Rightarrow> if n \<le> bound then Some n else None))"

definition parse_u8 :: "string \<Rightarrow> byte option" where
  "parse_u8 s = map_option of_nat (from_str_radix 255 10 s)"

definition u32_from_hex :: "string \<Rightarrow> 32 word option" where
  "u32_from_hex s = map_option of_nat (from_str_radix 4294967295 16 s)"

definition u8_from_hex :: "string \<Rightarrow> byte option" where
  "u8_from_hex s = map_option of_nat (from_str_radix 255 16 s)"

lemma of_char_digit_char [simp]: "d < 10 \<Longrightarrow> of_char (digit_char d) = 48 + d"
  by (simp add: digit_char_def)

lemma digit_char_0: "digit_char 0 = CHR ''0''"
  by code_simp

lemma digit_val_digit_char: "d < 10 \<Longrightarrow> digit_val 10 (digit_char d) = Some d"
  by (simp add: digit_val_def)

lemma digit_val_10:
  "digit_val 10 c = Some d \<longleftrightarrow> d < 10 \<and> c = digit_char d"
proof
  assume val: "digit_val 10 c = Some d"
  then have "48 \<le> (of_char c :: nat) \<and> d = of_char c - 48 \<and> d < 10"
    by (auto simp: digit_val_def Let_def split: if_splits)
  then have "d < 10" and "48 + d = of_char c" by auto
  then show "d < 10 \<and> c = digit_char d"
    by (simp add: digit_char_def)
next
  assume "d < 10 \<and> c = digit_char d"
  then show "digit_val 10 c = Some d" by (simp add: digit_val_digit_char)
qed

lemma digits_val_append:
  "digits_val r a (xs @ ys) = Option.bind (digits_val r a xs) (\<lambda>b. digits_val r b ys)"
  by (induction xs arbitrary: a) (auto split: option.splits)

lemma digits_val_show_nat: "digits_val 10 0 (show_nat n) = Some n"
proof (induction n rule: show_nat.induct)
  case (1 n)
  show ?case
  proof (cases "n < 10")
    case True
    then show ?thesis by (subst show_nat.simps) (simp add: digit_val_digit_char)
  next
    case False
    with 1 have "digits_val 10 0 (show_nat (n div 10)) = Some (n div 10)" by simp
    with False show ?thesis
      by (subst show_nat.simps) (simp add: digits_val_append digit_val_digit_char)
  qed
qed

lemma show_nat_nonempty [simp]: "show_nat n \<noteq> []"
  by (subst show_nat.simps) simp

lemma show_nat_digits: "c \<in> set (show_nat n) \<Longrightarrow> \<exists>d<10. c = digit_char d"
proof (induction n rule: show_nat.induct)
  case (1 n)
  have "\<exists>d<10. digit_char (n mod 10) = digit_char d" by (rule exI [of _ "n mod 10"]) simp
  with 1 show ?case
    by (subst (asm) (2) show_nat.simps) (auto split: if_splits)
qed

lemma show_nat_inj: "show_nat m = show_nat n \<longleftrightarrow> m = n"
  by (metis digits_val_show_nat option.inject)

lemma hd_show_nat: "0 < n \<Longrightarrow> hd (show_nat n) \<noteq> CHR ''0''"
proof (induction n rule: show_nat.induct)
  case (1 n)
  show ?case
  proof (cases "n < 10")
    case True
    with "1.prems" have "of_char (digit_char n) \<noteq> (48 :: nat)" by simp
    with True show ?thesis by (subst show_nat.simps) (auto simp del: of_char_digit_char)
  next
    case False
    with 1 have "hd (show_nat (n div 10)) \<noteq> CHR ''0''" by simp
    with False show ?thesis by (subst show_nat.simps) simp
  qed
qed

lemma length_show_nat_le:
  "n < 10 \<Longrightarrow> length (show_nat n) = 1"
  "10 \<le> n \<Longrightarrow> length (show_nat n) = Suc (length (show_nat (n div 10)))"
  by (subst show_nat.simps; simp)+

lemma length_show_nat_byte: "n < 256 \<Longrightarrow> length (show_nat n) \<le> 3"
proof -
  assume "n < 256"
  then have "n div 10 div 10 < 10" by simp
  then have "length (show_nat (n div 10 div 10)) = 1" by (rule length_show_nat_le)
  then show ?thesis
    using length_show_nat_le [of n] length_show_nat_le [of "n div 10"]
    by (cases "n < 10"; cases "n div 10 < 10") auto
qed

end
