(* ===== verification/Rust_Utf8.thy ===== *)
theory Rust_Utf8
  imports Rust_Text
begin

text \<open>
  Text that comes from the network: UTF-8 validation and decoding with replacement
  characters, as \<open>core::str\<close> does it chunk by chunk, lower-casing, and the first character
  of a string.
\<close>

section \<open>UTF-8\<close>

definition byte_at :: "bytes \<Rightarrow> nat \<Rightarrow> byte" where
  "byte_at bs i = (if i < length bs then bs ! i else 0)"

definition continuation :: "byte \<Rightarrow> bool" where
  "continuation b \<longleftrightarrow> b AND 0xC0 = 0x80"

definition second_of_three :: "byte \<Rightarrow> byte \<Rightarrow> bool" where
  "second_of_three b c \<longleftrightarrow>
     b = 0xE0 \<and> 0xA0 \<le> c \<and> c \<le> 0xBF \<or> 0xE1 \<le> b \<and> b \<le> 0xEC \<and> 0x80 \<le> c \<and> c \<le> 0xBF
     \<or> b = 0xED \<and> 0x80 \<le> c \<and> c \<le> 0x9F \<or> 0xEE \<le> b \<and> b \<le> 0xEF \<and> 0x80 \<le> c \<and> c \<le> 0xBF"

definition second_of_four :: "byte \<Rightarrow> byte \<Rightarrow> bool" where
  "second_of_four b c \<longleftrightarrow>
     b = 0xF0 \<and> 0x90 \<le> c \<and> c \<le> 0xBF \<or> 0xF1 \<le> b \<and> b \<le> 0xF3 \<and> 0x80 \<le> c \<and> c \<le> 0xBF
     \<or> b = 0xF4 \<and> 0x80 \<le> c \<and> c \<le> 0x8F"

text \<open>The next chunk of a non-empty byte string: whether it is a character, and how many
  bytes it takes.\<close>

definition utf8_step :: "bytes \<Rightarrow> bool \<times> nat" where
  "utf8_step bs =
     (let b = byte_at bs 0; c = byte_at bs 1; d = byte_at bs 2; e = byte_at bs 3
      in if b < 0x80 then (True, 1)
         else if 0xC2 \<le> b \<and> b \<le> 0xDF then (if continuation c then (True, 2) else (False, 1))
         else if 0xE0 \<le> b \<and> b \<le> 0xEF then
           (if \<not> second_of_three b c then (False, 1)
            else if \<not> continuation d then (False, 2) else (True, 3))
         else if 0xF0 \<le> b \<and> b \<le> 0xF4 then
           (if \<not> second_of_four b c then (False, 1)
            else if \<not> continuation d then (False, 2)
            else if \<not> continuation e then (False, 3) else (True, 4))
         else (False, 1))"

definition replacement_char :: string where
  "replacement_char = [CHR 0xEF, CHR 0xBF, CHR 0xBD]"

lemma utf8_step_pos: "0 < snd (utf8_step bs)"
  by (simp add: utf8_step_def Let_def)

lemma utf8_step_consumes: "(ok, n) = utf8_step bs \<Longrightarrow> 0 < n"
  by (metis snd_conv utf8_step_pos)

function from_utf8_lossy :: "bytes \<Rightarrow> string" where
  "from_utf8_lossy bs =
     (if bs = [] then []
      else (case utf8_step bs of (ok, n) \<Rightarrow>
              (if ok then map char_of_byte (take n bs) else replacement_char)
              @ from_utf8_lossy (drop n bs)))"
  by pat_completeness auto
termination
proof (relation "measure length", goal_cases)
  case (2 bs ok n)
  then show ?case using utf8_step_consumes [of ok n bs] by simp
qed simp

function from_utf8 :: "bytes \<Rightarrow> string option" where
  "from_utf8 bs =
     (if bs = [] then Some []
      else (case utf8_step bs of (ok, n) \<Rightarrow>
              if ok then map_option ((@) (map char_of_byte (take n bs))) (from_utf8 (drop n bs))
              else None))"
  by pat_completeness auto
termination
proof (relation "measure length", goal_cases)
  case (2 bs ok n)
  then show ?case using utf8_step_consumes [of ok n bs] by simp
qed simp

declare from_utf8_lossy.simps [simp del] from_utf8.simps [simp del]

lemma from_utf8_lossy_Nil [simp]: "from_utf8_lossy [] = []"
  by (simp add: from_utf8_lossy.simps)

lemma utf8_step_ascii: "b < 0x80 \<Longrightarrow> utf8_step (b # bs) = (True, 1)"
  by (simp add: utf8_step_def byte_at_def)

lemma from_utf8_lossy_ascii:
  "(\<And>b. b \<in> set bs \<Longrightarrow> b < 0x80) \<Longrightarrow> from_utf8_lossy bs = map char_of_byte bs"
proof (induction bs)
  case Nil
  then show ?case by simp
next
  case (Cons b bs)
  then show ?case
    by (subst from_utf8_lossy.simps) (simp add: utf8_step_ascii)
qed

lemma from_utf8_Some: "from_utf8 bs = Some s \<Longrightarrow> s = map char_of_byte bs"
proof (induction bs arbitrary: s rule: from_utf8.induct)
  case (1 bs)
  show ?case
  proof (cases "bs = []")
    case True
    with "1.prems" show ?thesis by (simp add: from_utf8.simps)
  next
    case False
    obtain ok n where step: "utf8_step bs = (ok, n)" by fastforce
    with False "1.prems" obtain r where "ok" and r: "from_utf8 (drop n bs) = Some r"
      and s: "s = map char_of_byte (take n bs) @ r"
      by (subst (asm) (2) from_utf8.simps) (auto split: if_splits)
    with "1.IH" [OF False step [symmetric] \<open>ok\<close> r]
    show ?thesis by (metis append_take_drop_id map_append)
  qed
qed

text \<open>Decoding with replacement is plain decoding on valid UTF-8.\<close>

lemma from_utf8_lossy_valid: "from_utf8 bs = Some s \<Longrightarrow> from_utf8_lossy bs = s"
proof (induction bs arbitrary: s rule: from_utf8.induct)
  case (1 bs)
  show ?case
  proof (cases "bs = []")
    case True
    with "1.prems" show ?thesis by (simp add: from_utf8.simps)
  next
    case False
    obtain ok n where step: "utf8_step bs = (ok, n)" by fastforce
    with False "1.prems" obtain r where "ok" and r: "from_utf8 (drop n bs) = Some r"
      and s: "s = map char_of_byte (take n bs) @ r"
      by (subst (asm) (2) from_utf8.simps) (auto split: if_splits)
    with "1.IH" [OF False step [symmetric] \<open>ok\<close> r] False step
    show ?thesis by (subst from_utf8_lossy.simps) simp
  qed
qed

section \<open>Lower case\<close>

definition ascii_lower :: "char \<Rightarrow> char" where
  "ascii_lower c =
     (let n = of_char c :: nat in if 65 \<le> n \<and> n \<le> 90 then char_of (n + 32) else c)"

text \<open>U+212A (Kelvin sign) has the lower case k, U+0130 (I with a dot) the lower case i
  followed by U+0307.\<close>

function to_lowercase :: "string \<Rightarrow> string" where
  "to_lowercase [] = []"
| "to_lowercase (c # cs) =
     (if prefix [CHR 0xE2, CHR 0x84, CHR 0xAA] (c # cs) then CHR ''k'' # to_lowercase (drop 2 cs)
      else if prefix [CHR 0xC4, CHR 0xB0] (c # cs)
        then CHR ''i'' # CHR 0xCC # CHR 0x87 # to_lowercase (drop 1 cs)
      else ascii_lower c # to_lowercase cs)"
  by pat_completeness auto
termination
  by (relation "measure length") auto

lemma to_lowercase_ascii:
  "(\<And>c. c \<in> set s \<Longrightarrow> of_char c < (128 :: nat)) \<Longrightarrow> to_lowercase s = map ascii_lower s"
proof (induction s)
  case Nil
  then show ?case by simp
next
  case (Cons c cs)
  have "of_char c < (128 :: nat)" using Cons.prems by simp
  then have "c \<noteq> CHR 0xE2" "c \<noteq> CHR 0xC4" by auto
  with Cons show ?case by simp
qed

lemma length_to_lowercase_le: "length (to_lowercase s) \<le> 2 * length s"
  by (induction s rule: to_lowercase.induct) (auto simp: prefix_def)

lemma ascii_lower_idem [simp]: "ascii_lower (ascii_lower c) = ascii_lower c"
proof -
  have "of_char c < (256 :: nat)" by (rule nat_of_char_less_256)
  then show ?thesis by (simp add: ascii_lower_def Let_def)
qed

text \<open>Lower-casing twice changes nothing more: the output holds none of the byte patterns
  the function rewrites.\<close>

lemma ascii_lower_eq_high: "of_char b \<ge> (128 :: nat) \<Longrightarrow> ascii_lower c = b \<longleftrightarrow> c = b"
  by (auto simp: ascii_lower_def Let_def)

lemma to_lowercase_head:
  assumes "b = CHR 0x84 \<or> b = CHR 0xAA \<or> b = CHR 0xB0" "to_lowercase s = b # t"
  shows "\<exists>s'. s = b # s' \<and> to_lowercase s' = t"
proof (cases s)
  case (Cons c cs)
  moreover from assms(1) have "of_char b \<ge> (128 :: nat)" by auto
  ultimately show ?thesis
    using assms by (auto simp: ascii_lower_eq_high split: if_splits)
qed (use assms in simp)

lemma kelvin_kept:
  "prefix [CHR 0xE2, CHR 0x84, CHR 0xAA] (ascii_lower c # to_lowercase cs) \<Longrightarrow>
   prefix [CHR 0xE2, CHR 0x84, CHR 0xAA] (c # cs)"
  by (auto simp: prefix_def ascii_lower_eq_high dest!: to_lowercase_head [rotated])

lemma dotted_kept:
  "prefix [CHR 0xC4, CHR 0xB0] (ascii_lower c # to_lowercase cs) \<Longrightarrow>
   prefix [CHR 0xC4, CHR 0xB0] (c # cs)"
  by (auto simp: prefix_def ascii_lower_eq_high dest!: to_lowercase_head [rotated])

lemma ascii_lower_fixed [simp]:
  "ascii_lower CHR ''k'' = CHR ''k''" "ascii_lower CHR ''i'' = CHR ''i''"
  "ascii_lower CHR 0xCC = CHR 0xCC" "ascii_lower CHR 0x87 = CHR 0x87"
  by (simp_all add: ascii_lower_def)

lemma to_lowercase_idem: "to_lowercase (to_lowercase s) = to_lowercase s"
proof (induction s rule: to_lowercase.induct)
  case 1
  then show ?case by simp
next
  case (2 c cs)
  consider (kelvin) "prefix [CHR 0xE2, CHR 0x84, CHR 0xAA] (c # cs)"
    | (dotted) "\<not> prefix [CHR 0xE2, CHR 0x84, CHR 0xAA] (c # cs)" "prefix [CHR 0xC4, CHR 0xB0] (c # cs)"
    | (other) "\<not> prefix [CHR 0xE2, CHR 0x84, CHR 0xAA] (c # cs)" "\<not> prefix [CHR 0xC4, CHR 0xB0] (c # cs)"
    by blast
  then show ?case
  proof cases
    case kelvin
    then have "to_lowercase (c # cs) = CHR ''k'' # to_lowercase (drop 2 cs)"
      by (simp only: to_lowercase.simps if_True)
    with 2(1) [OF kelvin] show ?thesis by simp
  next
    case dotted
    then have "to_lowercase (c # cs) = CHR ''i'' # CHR 0xCC # CHR 0x87 # to_lowercase (drop 1 cs)"
      by (simp only: to_lowercase.simps if_True if_False)
    with 2(2) [OF dotted] show ?thesis by simp
  next
    case other
    then have low: "to_lowercase (c # cs) = ascii_lower c # to_lowercase cs"
      by (simp only: to_lowercase.simps if_False)
    have "\<not> prefix [CHR 0xE2, CHR 0x84, CHR 0xAA] (ascii_lower c # to_lowercase cs)"
      "\<not> prefix [CHR 0xC4, CHR 0xB0] (ascii_lower c # to_lowercase cs)"
      using other kelvin_kept dotted_kept by blast+
    then have "to_lowercase (ascii_lower c # to_lowercase cs)
        = ascii_lower (ascii_lower c) # to_lowercase (to_lowercase cs)"
      by (simp only: to_lowercase.simps if_False)
    with 2(3) [OF other] low show ?thesis by simp
  qed
qed

section \<open>The first character\<close>

text \<open>The code point \<open>chars().next()\<close> yields on a valid string.\<close>

definition first_char :: "string \<Rightarrow> nat option" where
  "first_char s =
     (case s of [] \<Rightarrow> None
      | c # cs \<Rightarrow>
        (let n = of_char c :: nat; k = (\<lambda>i. of_char (cs ! i) mod 64 :: nat)
         in Some (if n < 0x80 then n
                  else if n < 0xE0 then (n mod 32) * 64 + k 0
                  else if n < 0xF0 then ((n mod 16) * 64 + k 0) * 64 + k 1
                  else (((n mod 8) * 64 + k 0) * 64 + k 1) * 64 + k 2)))"

text \<open>\<open>char::is_uppercase\<close>: the ASCII capitals, and above ASCII the Uppercase property of
  the Unicode tables, a parameter.\<close>

definition is_uppercase :: "(nat \<Rightarrow> bool) \<Rightarrow> nat \<Rightarrow> bool" where
  "is_uppercase unicode_upper n = (if n < 128 then 65 \<le> n \<and> n \<le> 90 else unicode_upper n)"

section \<open>Hexadecimal bytes\<close>

lemma digit_val_hex_digit: "d < 16 \<Longrightarrow> digit_val 16 (hex_digit d) = Some d"
  by (auto simp: digit_val_def hex_digit_def)

lemma digit_val_hex_digit_upper: "d < 16 \<Longrightarrow> digit_val 16 (hex_digit_upper d) = Some d"
  by (auto simp: digit_val_def hex_digit_upper_def)

lemma byte_div_16: "unat (b :: byte) div 16 < 16"
  using byte_less_256 [of b] by (simp add: less_mult_imp_div_less)

lemma digits_val_show_hex2: "digits_val 16 0 (show_hex2 b) = Some (unat b)"
  by (simp add: show_hex2_def digit_val_hex_digit byte_div_16)

lemma digits_val_show_hex2_upper: "digits_val 16 0 (show_hex2_upper b) = Some (unat b)"
  by (simp add: show_hex2_upper_def digit_val_hex_digit_upper byte_div_16)

lemma show_hex2_inj: "show_hex2 a = show_hex2 b \<longleftrightarrow> a = b"
  by (metis digits_val_show_hex2 option.inject unsigned_word_eqI)

lemma show_hex2_upper_inj: "show_hex2_upper a = show_hex2_upper b \<longleftrightarrow> a = b"
  by (metis digits_val_show_hex2_upper option.inject unsigned_word_eqI)

lemma length_show_hex2 [simp]: "length (show_hex2 b) = 2"
  by (simp add: show_hex2_def)

lemma length_show_hex2_upper [simp]: "length (show_hex2_upper b) = 2"
  by (simp add: show_hex2_upper_def)

lemma hex_digit_not_plus: "d < 16 \<Longrightarrow> hex_digit d \<noteq> CHR ''+''"
  using digit_val_hex_digit [of d] by (auto simp: digit_val_def)

section \<open>Padding\<close>

text \<open>The cells of tables. \<open>{:<w}\<close> counts characters, of which a UTF-8 continuation byte starts none.\<close>

definition char_count :: "string \<Rightarrow> nat" where
  "char_count s = length (filter (\<lambda>c. \<not> continuation (byte_of_char c)) s)"

definition pad :: "nat \<Rightarrow> string \<Rightarrow> string" where
  "pad w s = s @ replicate (w - char_count s) CHR '' ''"

definition or_dash :: "string option \<Rightarrow> string" where
  "or_dash s = (case s of None \<Rightarrow> ''-'' | Some t \<Rightarrow> t)"

end
