(* ===== verification/Net_Types.thy ===== *)
theory Net_Types
  imports Rust_Utf8
begin

text \<open>
  The two address types every component handles: \<open>std::net::Ipv4Addr\<close> as the 32-bit word
  \<open>u32::from\<close> gives, and \<open>macaddr::MacAddr6\<close> as its six bytes, each with the printing and
  parsing the program uses, and the round trips between text and address.
\<close>

section \<open>IPv4 addresses\<close>

type_synonym ipv4 = "32 word"

definition ipv4_new :: "byte \<Rightarrow> byte \<Rightarrow> byte \<Rightarrow> byte \<Rightarrow> ipv4" where
  "ipv4_new a b c d =
     push_bit 24 (ucast a) OR push_bit 16 (ucast b) OR push_bit 8 (ucast c) OR ucast d"

definition octet :: "nat \<Rightarrow> ipv4 \<Rightarrow> byte" where
  "octet i ip = ucast (drop_bit (24 - 8 * i) ip)"

definition octets :: "ipv4 \<Rightarrow> bytes" where
  "octets ip = [octet 0 ip, octet 1 ip, octet 2 ip, octet 3 ip]"

definition is_unspecified :: "ipv4 \<Rightarrow> bool" where
  "is_unspecified ip \<longleftrightarrow> ip = 0"

definition is_loopback :: "ipv4 \<Rightarrow> bool" where
  "is_loopback ip \<longleftrightarrow> octet 0 ip = 127"

definition is_multicast :: "ipv4 \<Rightarrow> bool" where
  "is_multicast ip \<longleftrightarrow> 224 \<le> octet 0 ip \<and> octet 0 ip \<le> 239"

definition is_private :: "ipv4 \<Rightarrow> bool" where
  "is_private ip \<longleftrightarrow>
     octet 0 ip = 10 \<or> octet 0 ip = 172 \<and> 16 \<le> octet 1 ip \<and> octet 1 ip \<le> 31
     \<or> octet 0 ip = 192 \<and> octet 1 ip = 168"

definition show_ipv4 :: "ipv4 \<Rightarrow> string" where
  "show_ipv4 ip = join_with ''.'' (map (show_nat \<circ> unat) (octets ip))"

text \<open>One group of \<open>Ipv4Addr::from_str\<close>: one to three digits, no leading zero, at most 255.\<close>

definition parse_octet :: "string \<Rightarrow> byte option" where
  "parse_octet s =
     (if s = [] \<or> 3 < length s \<or> (1 < length s \<and> hd s = CHR ''0'') then None
      else (case digits_val 10 0 s of
              None \<Rightarrow> None | Some n \<Rightarrow> if n \<le> 255 then Some (of_nat n) else None))"

definition parse_ipv4 :: "string \<Rightarrow> ipv4 option" where
  "parse_ipv4 s =
     (case map parse_octet (split_char CHR ''.'' s) of
        [Some a, Some b, Some c, Some d] \<Rightarrow> Some (ipv4_new a b c d)
      | _ \<Rightarrow> None)"

lemma octet_ipv4_new [simp, octet_simps]:
  "octet 0 (ipv4_new a b c d) = a" "octet (Suc 0) (ipv4_new a b c d) = b"
  "octet 1 (ipv4_new a b c d) = b"
  "octet 2 (ipv4_new a b c d) = c" "octet 3 (ipv4_new a b c d) = d"
  by (auto simp: octet_def ipv4_new_def bit_simps intro!: bit_word_eqI)

lemma octets_ipv4_new: "octets (ipv4_new a b c d) = [a, b, c, d]"
  by (simp add: octets_def)

lemma ipv4_new_octets: "ipv4_new (octet 0 ip) (octet 1 ip) (octet 2 ip) (octet 3 ip) = ip"
proof (rule bit_word_eqI)
  fix n
  assume "n < LENGTH(32)"
  then consider "n < 8" | "8 \<le> n \<and> n < 16" | "16 \<le> n \<and> n < 24" | "24 \<le> n \<and> n < 32"
    by fastforce
  then show "bit (ipv4_new (octet 0 ip) (octet 1 ip) (octet 2 ip) (octet 3 ip)) n = bit ip n"
    by cases (auto simp: octet_def ipv4_new_def bit_simps)
qed

lemma ipv4_new_inject:
  "ipv4_new a b c d = ipv4_new a' b' c' d' \<longleftrightarrow> a = a' \<and> b = b' \<and> c = c' \<and> d = d'"
  by (auto dest!: arg_cong [where f = octets] simp: octets_ipv4_new)

lemma ipv4_octets_eqI: "octets ip = octets ip' \<Longrightarrow> ip = ip'"
  unfolding octets_def using ipv4_new_octets [of ip] ipv4_new_octets [of ip'] by simp

lemma parse_octet_show: "parse_octet (show_nat (unat b)) = Some b"
proof -
  have short: "length (show_nat (unat b)) \<le> 3"
    by (rule length_show_nat_byte) (rule byte_less_256)
  have "\<not> (1 < length (show_nat (unat b)) \<and> hd (show_nat (unat b)) = CHR ''0'')"
    using hd_show_nat [of "unat b"] by (cases "unat b = 0") (simp_all add: show_nat.simps)
  then show ?thesis
    using short byte_le_255 [of b] by (simp add: parse_octet_def digits_val_show_nat)
qed

text \<open>A digit string without a leading zero is the printed form of its value.\<close>

lemma digits_val_canonical:
  assumes "digits_val 10 0 s = Some n" "s \<noteq> []" "length s = 1 \<or> hd s \<noteq> CHR ''0''"
  shows "s = show_nat n"
  using assms
proof (induction s arbitrary: n rule: rev_induct)
  case Nil
  then show ?case by simp
next
  case (snoc c cs)
  from snoc.prems(1) obtain m d where m: "digits_val 10 0 cs = Some m"
    and d: "digit_val 10 c = Some d" and n: "n = m * 10 + d"
    by (auto simp: digits_val_append split: Option.bind_splits option.splits)
  from d have "d < 10" and c: "c = digit_char d" by (simp_all add: digit_val_10)
  show ?case
  proof (cases "cs = []")
    case True
    with m n have "n = d" by simp
    with True c \<open>d < 10\<close> show ?thesis by (simp add: show_nat.simps)
  next
    case False
    with snoc.prems(3) have hd: "hd cs \<noteq> CHR ''0''" by simp
    with snoc.IH [OF m False] have cs: "cs = show_nat m" by simp
    have "m \<noteq> 0"
    proof
      assume "m = 0"
      with cs have "cs = [digit_char 0]" by (simp add: show_nat.simps)
      with hd show False by (simp add: digit_char_0)
    qed
    then have "\<not> n < 10" and "n div 10 = m" and "n mod 10 = d"
      using n \<open>d < 10\<close> by auto
    with cs c show ?thesis by (subst show_nat.simps) simp
  qed
qed

lemma parse_octet_Some: "parse_octet s = Some b \<Longrightarrow> s = show_nat (unat b)"
proof -
  assume "parse_octet s = Some b"
  then obtain n where s: "s \<noteq> []" "\<not> (1 < length s \<and> hd s = CHR ''0'')"
    and val: "digits_val 10 0 s = Some n" and b: "n \<le> 255" "b = of_nat n"
    by (auto simp: parse_octet_def split: if_splits option.splits)
  from s have "length s = 1 \<or> hd s \<noteq> CHR ''0''"
    by (metis One_nat_def less_one linorder_neqE_nat length_0_conv)
  with val s(1) have "s = show_nat n" by (rule digits_val_canonical)
  moreover have "unat b = n" using b by (simp add: unat_of_nat)
  ultimately show ?thesis by simp
qed

lemma show_nat_no_dot: "CHR ''.'' \<notin> set (show_nat n)"
proof
  assume "CHR ''.'' \<in> set (show_nat n)"
  then obtain d where "d < 10" and dot: "CHR ''.'' = digit_char d"
    by (auto dest: show_nat_digits)
  then have "of_char CHR ''.'' = (48 + d :: nat)" by (simp only: of_char_digit_char)
  then show False by simp
qed

lemma parse_show_ipv4: "parse_ipv4 (show_ipv4 ip) = Some ip"
proof -
  have "split_char CHR ''.'' (show_ipv4 ip) = map (show_nat \<circ> unat) (octets ip)"
    unfolding show_ipv4_def
    by (rule split_join) (auto simp: octets_def show_nat_no_dot)
  then show ?thesis
    by (simp add: parse_ipv4_def octets_def parse_octet_show ipv4_new_octets del: One_nat_def)
qed

lemma show_parse_ipv4: "parse_ipv4 s = Some ip \<Longrightarrow> s = show_ipv4 ip"
proof -
  assume "parse_ipv4 s = Some ip"
  then obtain a b c d where "map parse_octet (split_char CHR ''.'' s) = [Some a, Some b, Some c, Some d]"
    and ip: "ip = ipv4_new a b c d"
    by (auto simp: parse_ipv4_def split: list.splits option.splits)
  then have "split_char CHR ''.'' s = map (show_nat \<circ> unat) [a, b, c, d]"
    by (auto simp: map_eq_Cons_conv dest!: parse_octet_Some)
  then have "s = join_with ''.'' (map (show_nat \<circ> unat) [a, b, c, d])"
    by (metis join_split)
  with ip show ?thesis by (simp add: show_ipv4_def octets_ipv4_new)
qed

lemma show_ipv4_inj: "show_ipv4 a = show_ipv4 b \<longleftrightarrow> a = b"
  by (metis option.inject parse_show_ipv4)

section \<open>MAC addresses\<close>

datatype mac = MacAddr6 byte byte byte byte byte byte

fun mac_bytes :: "mac \<Rightarrow> bytes" where
  "mac_bytes (MacAddr6 a b c d e f) = [a, b, c, d, e, f]"

definition mac_broadcast :: mac where
  "mac_broadcast = MacAddr6 0xFF 0xFF 0xFF 0xFF 0xFF 0xFF"

definition is_nil_mac :: "mac \<Rightarrow> bool" where
  "is_nil_mac m = list_all (\<lambda>b. b = 0) (mac_bytes m)"

definition is_broadcast_mac :: "mac \<Rightarrow> bool" where
  "is_broadcast_mac m = list_all (\<lambda>b. b = 0xFF) (mac_bytes m)"

definition show_mac :: "mac \<Rightarrow> string" where
  "show_mac m = join_with '':'' (map show_hex2_upper (mac_bytes m))"

text \<open>The parser of the \<open>macaddr\<close> crate: before each pair of digits at most one delimiter,
  the same one throughout, and nothing after the sixth pair.\<close>

fun read_delimiter :: "char option \<Rightarrow> string \<Rightarrow> (char option \<times> string) option" where
  "read_delimiter delim [] = Some (delim, [])"
| "read_delimiter delim (c # cs) =
     (if c \<in> {CHR ''-'', CHR '':'', CHR ''.''} then
        (case delim of None \<Rightarrow> Some (Some c, cs)
         | Some d \<Rightarrow> if c = d then Some (delim, cs) else None)
      else Some (delim, c # cs))"

fun read_mac_bytes :: "nat \<Rightarrow> char option \<Rightarrow> string \<Rightarrow> bytes option" where
  "read_mac_bytes 0 delim s = (if s = [] then Some [] else None)"
| "read_mac_bytes (Suc n) delim s =
     (case read_delimiter delim s of
        Some (delim', h # l # r) \<Rightarrow>
          (case (digit_val 16 h, digit_val 16 l) of
             (Some x, Some y) \<Rightarrow>
               map_option ((#) (of_nat (x * 16 + y))) (read_mac_bytes n delim' r)
           | _ \<Rightarrow> None)
      | _ \<Rightarrow> None)"

definition parse_mac :: "string \<Rightarrow> mac option" where
  "parse_mac s =
     (case read_mac_bytes 6 None s of
        Some [a, b, c, d, e, f] \<Rightarrow> Some (MacAddr6 a b c d e f)
      | _ \<Rightarrow> None)"

lemma length_mac_bytes [simp]: "length (mac_bytes m) = 6"
  by (cases m) simp

lemma mac_bytes_inj: "mac_bytes m = mac_bytes m' \<longleftrightarrow> m = m'"
  by (cases m; cases m') auto

lemma is_broadcast_mac_iff: "is_broadcast_mac m \<longleftrightarrow> m = mac_broadcast"
  by (cases m) (auto simp: is_broadcast_mac_def mac_broadcast_def)

lemma hex_upper_not_delimiter:
  "d < 16 \<Longrightarrow> hex_digit_upper d \<notin> {CHR ''-'', CHR '':'', CHR ''.''}"
  using digit_val_hex_digit_upper [of d] by (auto simp: digit_val_def)

lemma hex_byte_value: "(of_nat (unat (b :: byte) div 16 * 16 + unat b mod 16) :: byte) = b"
  by simp

lemma read_mac_hex_byte:
  "read_delimiter delim (show_hex2_upper b @ s) = Some (delim, show_hex2_upper b @ s)"
  using hex_upper_not_delimiter [of "unat b div 16"] byte_div_16 [of b]
  by (simp add: show_hex2_upper_def)

lemma read_mac_bytes_first:
  "read_mac_bytes (Suc n) None (show_hex2_upper b @ s) =
     map_option ((#) b) (read_mac_bytes n None s)"
  by (simp only: read_mac_bytes.simps read_mac_hex_byte)
    (simp add: show_hex2_upper_def digit_val_hex_digit_upper byte_div_16 hex_byte_value
      del: of_nat_add of_nat_mult)

lemma read_mac_bytes_next:
  "delim \<in> {None, Some CHR '':''} \<Longrightarrow>
   read_mac_bytes (Suc n) delim (CHR '':'' # show_hex2_upper b @ s) =
     map_option ((#) b) (read_mac_bytes n (Some CHR '':'') s)"
  by (auto simp: show_hex2_upper_def digit_val_hex_digit_upper byte_div_16 hex_byte_value
      simp del: of_nat_add of_nat_mult)

lemma parse_show_mac: "parse_mac (show_mac m) = Some m"
proof (cases m)
  case (MacAddr6 a b c d e f)
  have "show_mac m = show_hex2_upper a @ CHR '':'' # show_hex2_upper b @ CHR '':'' #
      show_hex2_upper c @ CHR '':'' # show_hex2_upper d @ CHR '':'' #
      show_hex2_upper e @ CHR '':'' # show_hex2_upper f @ []"
    by (simp add: show_mac_def MacAddr6)
  then have "read_mac_bytes 6 None (show_mac m) = Some [a, b, c, d, e, f]"
    by (simp only: numeral_eq_Suc pred_numeral_simps read_mac_bytes_first read_mac_bytes_next
        insert_iff simp_thms option.map read_mac_bytes.simps(1) if_True refl Num.arith_simps BitM.simps)
  then show ?thesis by (simp add: parse_mac_def MacAddr6)
qed

lemma show_mac_inj: "show_mac m = show_mac m' \<longleftrightarrow> m = m'"
  by (metis option.inject parse_show_mac)

end
