(* ===== verification/Device_Model.thy ===== *)
theory Device_Model
  imports Net_Types
begin

text \<open>
  The device record that discovery fills in (\<open>identity/device.rs\<close>) with the two enumerations
  it carries: how a device was found, and its category (\<open>identity/classify.rs\<close>). The
  classification itself is in \<open>Classify\<close>, the fingerprint a device receives in
  \<open>Fingerprint\<close>, and the ARP entry a device is made of comes from \<open>discovery/arp.rs\<close>.
\<close>

datatype category =
    Phone
  | Laptop
  | Desktop
  | Router
  | IoT
  | Printer
  | TvStreaming
  | Unknown

fun category_as_str :: "category \<Rightarrow> string" where
  "category_as_str Phone = ''Phone''"
| "category_as_str Laptop = ''Laptop''"
| "category_as_str Desktop = ''Desktop''"
| "category_as_str Router = ''Router''"
| "category_as_str IoT = ''IoT''"
| "category_as_str Printer = ''Printer''"
| "category_as_str TvStreaming = ''TV/Streaming''"
| "category_as_str Unknown = ''Unknown''"

datatype via = Arp | Sweep

record arp_entry =
  entry_ip :: ipv4
  entry_mac :: mac

record device =
  dev_ip :: ipv4
  dev_mac :: "mac option"
  dev_vendor :: "string option"
  dev_hostname :: "string option"
  dev_os_hint :: "string option"
  dev_services :: "string list"
  dev_via :: via
  dev_category :: "category option"
  dev_tag :: "string option"

definition device_from :: "arp_entry \<Rightarrow> device" where
  "device_from entry =
     \<lparr>dev_ip = entry_ip entry, dev_mac = Some (entry_mac entry), dev_vendor = None,
      dev_hostname = None, dev_os_hint = None, dev_services = [], dev_via = Arp,
      dev_category = None, dev_tag = None\<rparr>"

definition from_sweep :: "ipv4 \<Rightarrow> device" where
  "from_sweep ip =
     \<lparr>dev_ip = ip, dev_mac = None, dev_vendor = None, dev_hostname = None,
      dev_os_hint = None, dev_services = [], dev_via = Sweep, dev_category = None,
      dev_tag = None\<rparr>"

lemma category_as_str_inj: "category_as_str a = category_as_str b \<longleftrightarrow> a = b"
  by (cases a; cases b) simp_all

lemma device_from_simps [simp]:
  "dev_ip (device_from e) = entry_ip e" "dev_mac (device_from e) = Some (entry_mac e)"
  "dev_services (device_from e) = []" "dev_via (device_from e) = Arp"
  "dev_vendor (device_from e) = None" "dev_hostname (device_from e) = None"
  "dev_os_hint (device_from e) = None" "dev_category (device_from e) = None"
  by (simp_all add: device_from_def)

lemma from_sweep_simps [simp]:
  "dev_ip (from_sweep ip) = ip" "dev_mac (from_sweep ip) = None"
  "dev_services (from_sweep ip) = []" "dev_via (from_sweep ip) = Sweep"
  "dev_vendor (from_sweep ip) = None" "dev_hostname (from_sweep ip) = None"
  "dev_os_hint (from_sweep ip) = None" "dev_category (from_sweep ip) = None"
  by (simp_all add: from_sweep_def)

end
