(* ===== verification/Classify.thy ===== *)
theory Classify
  imports Device_Model
begin

text \<open>
  \<open>identity/classify.rs\<close>: the category of a device from its mDNS services, its vendor, its
  host name and its OS hint, in that order, with the vendor keyword fallbacks last. The
  lemmas give the decision tree the code computes, tier by tier, with the branches that no
  device can reach removed.
\<close>

section \<open>The four hints\<close>

definition tv_services :: "string list" where
  "tv_services =
     [''_googlecast'', ''googlecast'', ''androidtvremote2'', ''_androidtvremote2'',
      ''_raop'', ''raop'', ''_airplay'', ''airplay'',
      ''_spotify-connect'', ''spotify-connect'', ''spotifyconnect'',
      ''privet'', ''_privet'']"

definition phone_services :: "string list" where
  "phone_services = [''_companion-link'', ''companion-link'', ''companionlink'']"

definition printer_services :: "string list" where
  "printer_services =
     [''_printer'', ''printer'', ''_scanner'', ''scanner'', ''_ipp'', ''ipp'', ''_ipps'', ''ipps'']"

definition laptop_services :: "string list" where
  "laptop_services =
     [''_workstation'', ''workstation'', ''_ssh'', ''ssh'', ''_smb'', ''smb'', ''_nfs'', ''nfs'']"

fun service_loop :: "string list \<Rightarrow> category option" where
  "service_loop [] = None"
| "service_loop (svc # rest) =
     (let s = to_lowercase svc
      in if contains_any tv_services s then Some TvStreaming
         else if contains_any phone_services s then Some Phone
         else if contains_any printer_services s then Some Printer
         else if contains_any laptop_services s then Some Laptop
         else service_loop rest)"

definition service_category :: "string list \<Rightarrow> category option" where
  "service_category services =
     (if services = [] then None
      else (case service_loop services of
              Some c \<Rightarrow> Some c
            | None \<Rightarrow>
                if list_ex (\<lambda>s. str_contains s ''_apple-mobdev2'' \<or> str_contains s ''apple-mobdev2'')
                     services
                then Some Phone else None))"

definition vendor_category :: "string \<Rightarrow> category option" where
  "vendor_category vendor =
     (let v = to_lowercase vendor
      in if contains_any
              [''cisco'', ''mikrotik'', ''ubiquiti'', ''zyxel'', ''d-link'', ''dlink'', ''netgear'',
               ''tp-link'', ''tplink'', ''linksys'', ''asus'', ''fritz'', ''avm''] v
         then Some Router
         else if contains_any [''brother'', ''epson'', ''canon'', ''xerox'', ''printer''] v
         then Some Printer
         else if contains_any
              [''sony'', ''samsung'', ''lg electronics'', ''roku'', ''nvidia'', ''philips'', ''tcl''] v
         then Some TvStreaming
         else if contains_any
              [''raspberry'', ''arduino'', ''espressif'', ''sonoff'', ''shelly'', ''tuya''] v
         then Some IoT
         else if contains_any
              [''xiaomi'', ''huawei'', ''oneplus'', ''motorola'', ''google'', ''pixel''] v
         then Some Phone
         else if str_contains v ''apple'' then Some Laptop
         else None)"

definition os_category :: "string \<Rightarrow> category option" where
  "os_category os_hint =
     (let h = to_lowercase os_hint
      in if str_contains h ''windows'' then Some Desktop
         else if str_contains h ''android'' \<or> str_contains h ''ios'' then Some Phone
         else if str_contains h ''linux'' \<or> str_contains h ''macos'' then None
         else if str_contains h ''bsd'' \<or> str_contains h ''solaris''
                 \<or> str_contains h ''network device'' then Some Router
         else if str_contains h ''embedded'' \<or> str_contains h ''iot'' then Some IoT
         else None)"

definition hostname_category :: "string \<Rightarrow> category option" where
  "hostname_category hostname =
     (let h = to_lowercase hostname
      in if contains_any [''phone'', ''iphone'', ''android'', ''pixel'', ''galaxy'', ''oneplus''] h
         then Some Phone
         else if contains_any
              [''laptop'', ''macbook'', ''thinkpad'', ''xps'', ''precision'', ''latitude''] h
         then Some Laptop
         else if contains_any [''desktop'', ''gaming'', ''workstation''] h then Some Desktop
         else if contains_any [''router'', ''gateway'', ''fritz'', ''ap-'', ''mesh''] h then Some Router
         else if contains_any [''tv'', ''shield'', ''roku'', ''chromecast'', ''firetv''] h
         then Some TvStreaming
         else if contains_any [''printer'', ''inkjet'', ''laser''] h then Some Printer
         else if contains_any
              [''sensor'', ''light'', ''plug'', ''bulb'', ''switch'', ''esp'', ''shelly'', ''sonoff''] h
         then Some IoT
         else None)"

section \<open>The classification\<close>

text \<open>The vendor keywords tried when no hint decided; \<open>v\<close> is the lower-cased vendor.\<close>

definition vendor_fallback :: "string \<Rightarrow> string list \<Rightarrow> category" where
  "vendor_fallback v services =
     (if contains_any [''router'', ''gateway'', ''network'', ''switch'', ''access point''] v
      then Router
      else if contains_any [''printer'', ''brother'', ''epson''] v then Printer
      else if contains_any
           [''samsung'', ''xiaomi'', ''huawei'', ''oneplus'', ''google'', ''motorola''] v
           \<and> services = []
      then Phone
      else if str_contains v ''apple'' then
        (if ''_companion-link'' \<in> set services \<or> ''_apple-mobdev2'' \<in> set services
         then Phone else Laptop)
      else if contains_any
           [''intel'', ''dell'', ''lenovo'', ''hp'', ''asus'', ''acer'', ''msi'', ''gigabyte'', ''framework''] v
      then Laptop
      else if contains_any
           [''raspberry'', ''arduino'', ''espressif'', ''nodemcu'', ''sonoff'', ''shelly'', ''tasmota'',
            ''tuya'', ''esp''] v
      then IoT
      else if contains_any [''lg'', ''sony'', ''tcl'', ''roku'', ''philips'', ''nvidia''] v
      then TvStreaming
      else Unknown)"

definition or_empty :: "string option \<Rightarrow> string" where
  "or_empty s = (case s of None \<Rightarrow> [] | Some t \<Rightarrow> t)"

definition classify :: "device \<Rightarrow> category" where
  "classify device =
     (let vendor_lower = to_lowercase (or_empty (dev_vendor device));
          os_lower = to_lowercase (or_empty (dev_os_hint device));
          hostname_lower = to_lowercase (or_empty (dev_hostname device));
          services = map to_lowercase (dev_services device);
          service_hints = service_category services;
          vendor_hint = vendor_category vendor_lower;
          os_hint = os_category os_lower;
          hostname_hint = hostname_category hostname_lower
      in case service_hints of Some cat \<Rightarrow> cat
         | None \<Rightarrow>
           (case vendor_hint of
              Some cat \<Rightarrow> (case service_hints of Some sc \<Rightarrow> sc | None \<Rightarrow> cat)
            | None \<Rightarrow>
              (case hostname_hint of Some cat \<Rightarrow> cat
               | None \<Rightarrow>
                 (case os_hint of Some cat \<Rightarrow> cat
                  | None \<Rightarrow> vendor_fallback vendor_lower services))))"

definition device_classify :: "device \<Rightarrow> device" where
  "device_classify d = d\<lparr>dev_category := Some (classify d)\<rparr>"

section \<open>The decision tree\<close>

lemma vendor_category_lower [simp]: "vendor_category (to_lowercase v) = vendor_category v"
  by (simp add: vendor_category_def to_lowercase_idem)

lemma os_category_lower [simp]: "os_category (to_lowercase v) = os_category v"
  by (simp add: os_category_def to_lowercase_idem)

lemma hostname_category_lower [simp]: "hostname_category (to_lowercase v) = hostname_category v"
  by (simp add: hostname_category_def to_lowercase_idem)

lemma service_loop_lower: "service_loop (map to_lowercase svcs) = service_loop svcs"
  by (induction svcs) (simp_all add: to_lowercase_idem Let_def)

text \<open>What is left of the vendor fallback once the vendor table has found nothing.\<close>

definition vendor_residual :: "string \<Rightarrow> category" where
  "vendor_residual v =
     (if contains_any [''router'', ''gateway'', ''network'', ''switch'', ''access point''] v
      then Router
      else if contains_any
           [''intel'', ''dell'', ''lenovo'', ''hp'', ''acer'', ''msi'', ''gigabyte'', ''framework''] v
      then Laptop
      else if contains_any [''nodemcu'', ''tasmota'', ''esp''] v then IoT
      else if str_contains v ''lg'' then TvStreaming
      else Unknown)"

lemma vendor_category_None:
  "vendor_category v = None \<Longrightarrow>
   \<not> contains_any [''asus'', ''brother'', ''epson'', ''printer'', ''sony'', ''samsung'', ''roku'',
      ''nvidia'', ''philips'', ''tcl'', ''raspberry'', ''arduino'', ''espressif'', ''sonoff'', ''shelly'',
      ''tuya'', ''xiaomi'', ''huawei'', ''oneplus'', ''motorola'', ''google'', ''apple'']
      (to_lowercase v)"
  by (simp add: vendor_category_def Let_def contains_any_def split: if_splits)

lemma vendor_fallback_residual:
  assumes "vendor_category v = None"
  shows "vendor_fallback (to_lowercase v) services = vendor_residual (to_lowercase v)"
  using vendor_category_None [OF assms]
  by (simp add: vendor_fallback_def vendor_residual_def contains_any_def)

lemma vendor_residual_range: "vendor_residual v \<in> {Router, Laptop, IoT, TvStreaming, Unknown}"
  by (simp add: vendor_residual_def)

lemma service_category_lower:
  "service_category (map to_lowercase svcs) =
     (case service_loop svcs of
        Some c \<Rightarrow> Some c
      | None \<Rightarrow>
          if list_ex (\<lambda>s. str_contains (to_lowercase s) ''apple-mobdev2'') svcs then Some Phone else None)"
proof -
  have "str_contains s ''_apple-mobdev2'' \<Longrightarrow> str_contains s ''apple-mobdev2''" for s
    by (rule str_contains_trans) (auto intro: str_contains_trans)
  then have "list_ex (\<lambda>s. str_contains s ''_apple-mobdev2'' \<or> str_contains s ''apple-mobdev2'')
      (map to_lowercase svcs) = list_ex (\<lambda>s. str_contains (to_lowercase s) ''apple-mobdev2'') svcs"
    by (induction svcs) auto
  then show ?thesis
    by (cases "svcs = []") (simp_all add: service_category_def service_loop_lower)
qed

lemma or_empty_lower: "or_empty (map_option to_lowercase s) = to_lowercase (or_empty s)"
  by (cases s) (simp_all add: or_empty_def)

lemma service_loop_append:
  "\<forall>s \<in> set before. service_loop [s] = None \<Longrightarrow>
   service_loop (before @ svcs) = service_loop svcs"
  by (induction before) (auto simp: Let_def split: if_splits)

lemma service_loop_first:
  "service_loop [svc] = Some c \<Longrightarrow> service_loop (svc # after) = Some c"
  by (auto simp: Let_def split: if_splits)

lemma classify_services:
  "service_category (map to_lowercase (dev_services d)) = Some c \<Longrightarrow> classify d = c"
  by (simp add: classify_def Let_def)

text \<open>C37: the whole classification is a cascade of the four hints, taken on the fields as they
  are (the lower-casing inside each hint is enough), with the vendor fallback shrunk to the
  keywords that the vendor table has not already caught: its printer, phone and Apple branches
  and two thirds of its keywords are reached by no device, so a device without a hint is a
  router, a laptop, an IoT device, a TV or unknown.\<close>

theorem classify_decision_tree:
  "classify d =
     (case service_category (map to_lowercase (dev_services d)) of Some c \<Rightarrow> c
      | None \<Rightarrow>
        (case vendor_category (or_empty (dev_vendor d)) of Some c \<Rightarrow> c
         | None \<Rightarrow>
           (case hostname_category (or_empty (dev_hostname d)) of Some c \<Rightarrow> c
            | None \<Rightarrow>
              (case os_category (or_empty (dev_os_hint d)) of Some c \<Rightarrow> c
               | None \<Rightarrow> vendor_residual (to_lowercase (or_empty (dev_vendor d)))))))"
  by (simp add: classify_def Let_def vendor_fallback_residual split: option.splits)

text \<open>Classification does not depend on letter case: lower-casing the vendor, the OS hint,
  the host name and every service of a device leaves its category as it is.\<close>

theorem classify_case_insensitive:
  "classify (d\<lparr>dev_vendor := map_option to_lowercase (dev_vendor d),
               dev_os_hint := map_option to_lowercase (dev_os_hint d),
               dev_hostname := map_option to_lowercase (dev_hostname d),
               dev_services := map to_lowercase (dev_services d)\<rparr>) = classify d"
  by (simp add: classify_def Let_def or_empty_lower to_lowercase_idem comp_def)

text \<open>Service evidence wins over everything else: the first service, in the order the
  device lists them, that holds a keyword decides the category, whatever the vendor, host
  name and OS hint say.\<close>

theorem classify_first_service:
  assumes "dev_services d = before @ svc # after"
    and "\<forall>s \<in> set before. service_loop [s] = None"
    and "service_loop [svc] = Some c"
  shows "classify d = c"
proof -
  have "service_loop (dev_services d) = Some c"
    unfolding assms(1) service_loop_append [OF assms(2)] by (rule service_loop_first [OF assms(3)])
  then show ?thesis by (intro classify_services) (simp add: service_category_lower)
qed

end
