(* ===== verification/Store.thy ===== *)
theory Store
  imports Device_Model
begin

text \<open>
  \<open>identity/store.rs\<close>: the registry of known devices, keyed by MAC address or, for a device
  whose MAC is unknown, by IP address. The hash map is a partial function; the order in which
  \<open>HashMap::values\<close> lists the records is not determined by the code, so \<open>upsert\<close> takes the
  list of records in the order of that call, and its properties hold for every such order.
  The clock (\<open>now_secs\<close>) and the tag generator are arguments.
\<close>

section \<open>Records and keys\<close>

record stored =
  rec_key :: string
  rec_mac :: "string option"
  rec_last_ip :: string
  rec_ips :: "string list"
  rec_tag :: "string option"
  rec_vendor :: "string option"
  rec_hostname :: "string option"
  rec_os_hint :: "string option"
  rec_services :: "string list"
  rec_category :: "category option"
  rec_first_seen :: "64 word"
  rec_last_seen :: "64 word"
  rec_seen_count :: "32 word"

type_synonym store = "string \<rightharpoonup> stored"

definition mac_key :: "mac \<Rightarrow> string" where
  "mac_key m = concat (map show_hex2 (mac_bytes m))"

definition ip_key :: "ipv4 \<Rightarrow> string" where
  "ip_key ip = show_ipv4 ip"

definition insert_record :: "store \<Rightarrow> stored \<Rightarrow> store \<times> stored" where
  "insert_record records r = (records(rec_key r \<mapsto> r), r)"

fun merge_string_vec :: "string list \<Rightarrow> string list \<Rightarrow> string list" where
  "merge_string_vec existing [] = existing"
| "merge_string_vec existing (item # rest) =
     merge_string_vec (if item \<in> set existing then existing else existing @ [item]) rest"

fun merge_category :: "category option \<Rightarrow> category option \<Rightarrow> category option" where
  "merge_category (Some e) (Some i) = (if e = Unknown \<and> i \<noteq> Unknown then Some i else Some e)"
| "merge_category None (Some i) = Some i"
| "merge_category (Some e) None = Some e"
| "merge_category None None = None"

section \<open>Upsert\<close>

definition overwrite :: "'a option \<Rightarrow> 'a option \<Rightarrow> 'a option" where
  "overwrite new old = (case new of None \<Rightarrow> old | Some x \<Rightarrow> Some x)"

definition push_new :: "string \<Rightarrow> string list \<Rightarrow> string list" where
  "push_new x xs = (if x \<in> set xs then xs else xs @ [x])"

text \<open>The sighting itself: address, time and count; the count is a \<open>u32\<close> whose overflow
  panics.\<close>

definition record_sighting :: "string \<Rightarrow> 64 word \<Rightarrow> stored \<Rightarrow> stored outcome" where
  "record_sighting ip now r =
     outcome_bind (checked_add (rec_seen_count r) 1)
       (\<lambda>n. Inr (r\<lparr>rec_ips := push_new ip (rec_ips r), rec_last_ip := ip,
                   rec_last_seen := now, rec_seen_count := n\<rparr>))"

text \<open>What the device tells overwrites what the record holds; services and category merge.\<close>

definition enrich :: "device \<Rightarrow> stored \<Rightarrow> stored" where
  "enrich device r =
     r\<lparr>rec_vendor := overwrite (dev_vendor device) (rec_vendor r),
       rec_hostname := overwrite (dev_hostname device) (rec_hostname r),
       rec_os_hint := overwrite (dev_os_hint device) (rec_os_hint r),
       rec_services := merge_string_vec (rec_services r) (dev_services device),
       rec_category := merge_category (rec_category r) (dev_category device)\<rparr>"

text \<open>A record without a MAC takes over the device's MAC and its key.\<close>

definition promote :: "mac \<Rightarrow> device \<Rightarrow> stored \<Rightarrow> stored" where
  "promote m device r =
     (if rec_mac r = None
      then r\<lparr>rec_mac := Some (show_mac m), rec_key := mac_key m,
             rec_vendor := overwrite (dev_vendor device) (rec_vendor r),
             rec_hostname := overwrite (dev_hostname device) (rec_hostname r),
             rec_os_hint := overwrite (dev_os_hint device) (rec_os_hint r)\<rparr>
      else r)"

definition fresh_record :: "string \<Rightarrow> mac option \<Rightarrow> string \<Rightarrow> 64 word \<Rightarrow> string \<Rightarrow> device \<Rightarrow> stored" where
  "fresh_record key m ip now tag device =
     \<lparr>rec_key = key, rec_mac = map_option show_mac m, rec_last_ip = ip, rec_ips = [ip],
      rec_tag = Some tag, rec_vendor = dev_vendor device, rec_hostname = dev_hostname device,
      rec_os_hint = dev_os_hint device, rec_services = dev_services device,
      rec_category = dev_category device, rec_first_seen = now, rec_last_seen = now,
      rec_seen_count = 0\<rparr>"

text \<open>\<open>entry(key).or_insert_with(..)\<close> and the update of the entry, shared by the branch of a
  device with a MAC and the branch of one without.\<close>

definition upsert_entry ::
  "string \<Rightarrow> mac option \<Rightarrow> string \<Rightarrow> 64 word \<Rightarrow> (string \<Rightarrow> string) \<Rightarrow> device \<Rightarrow> store \<Rightarrow>
   (store \<times> stored) outcome" where
  "upsert_entry key m ip now tag_gen device s =
     (let r = (case s key of Some r \<Rightarrow> r | None \<Rightarrow> fresh_record key m ip now (tag_gen key) device)
      in outcome_bind (record_sighting ip now r)
           (\<lambda>r'. let r'' = enrich device r' in Inr (s(key \<mapsto> r''), r'')))"

definition existing_by_ip :: "stored list \<Rightarrow> string \<Rightarrow> string \<Rightarrow> store \<Rightarrow> string option" where
  "existing_by_ip vals ip mkey s =
     (case List.find (\<lambda>r. rec_last_ip r = ip \<and> rec_key r \<noteq> mkey) vals of
        Some r \<Rightarrow> Some (rec_key r)
      | None \<Rightarrow> if s ip = None then None else Some ip)"

definition upsert ::
  "stored list \<Rightarrow> 64 word \<Rightarrow> (string \<Rightarrow> string) \<Rightarrow> device \<Rightarrow> store \<Rightarrow> (store \<times> stored) outcome" where
  "upsert vals now tag_gen device s =
     (let ip = show_ipv4 (dev_ip device)
      in case dev_mac device of
           Some m \<Rightarrow>
             (case Option.bind (existing_by_ip vals ip (mac_key m) s)
                     (\<lambda>old_key. map_option (Pair old_key) (s old_key)) of
                Some (old_key, old) \<Rightarrow>
                  outcome_bind (record_sighting ip now old)
                    (\<lambda>r. Inr (insert_record (s(old_key := None)) (enrich device (promote m device r))))
              | None \<Rightarrow> upsert_entry (mac_key m) (Some m) ip now tag_gen device s)
         | None \<Rightarrow> upsert_entry (ip_key (dev_ip device)) None ip now tag_gen device s)"

section \<open>Lookup and tagging\<close>

definition store_get :: "mac option \<Rightarrow> ipv4 \<Rightarrow> store \<Rightarrow> stored option" where
  "store_get m ip s =
     (case Option.bind m (\<lambda>m. s (mac_key m)) of
        Some r \<Rightarrow> Some r
      | None \<Rightarrow> s (show_ipv4 ip))"

definition set_tag :: "mac option \<Rightarrow> ipv4 \<Rightarrow> string \<Rightarrow> store \<Rightarrow> store \<times> bool" where
  "set_tag m ip tag s =
     (case Option.bind m (\<lambda>m. map_option (Pair (mac_key m)) (s (mac_key m))) of
        Some (k, r) \<Rightarrow> (s(k \<mapsto> r\<lparr>rec_tag := Some tag\<rparr>), True)
      | None \<Rightarrow>
          (case s (show_ipv4 ip) of
             Some r \<Rightarrow> (s(show_ipv4 ip \<mapsto> r\<lparr>rec_tag := Some tag\<rparr>), True)
           | None \<Rightarrow> (s, False)))"

text \<open>What a list of records must be to be the values of the map, in some order.\<close>

definition values_of :: "stored list \<Rightarrow> store \<Rightarrow> bool" where
  "values_of vals s \<longleftrightarrow>
     (\<exists>ks. distinct ks \<and> set ks = dom s \<and> vals = map (the \<circ> s) ks)"

section \<open>Keys\<close>

lemma concat_hex_inj:
  "length bs = length cs \<Longrightarrow> concat (map show_hex2 bs) = concat (map show_hex2 cs) \<longleftrightarrow> bs = cs"
  by (induction bs cs rule: list_induct2) (auto simp: append_eq_append_conv show_hex2_inj)

lemma mac_key_inj: "mac_key m = mac_key m' \<longleftrightarrow> m = m'"
  by (simp add: mac_key_def concat_hex_inj mac_bytes_inj)

lemma hex_digit_no_dot: "d < 16 \<Longrightarrow> hex_digit d \<noteq> CHR ''.''"
  using digit_val_hex_digit [of d] by (auto simp: digit_val_def)

lemma show_hex2_no_dot: "CHR ''.'' \<notin> set (show_hex2 b)"
  using hex_digit_no_dot [of "unat b div 16"] hex_digit_no_dot [of "unat b mod 16"]
    byte_div_16 [of b] by (auto simp: show_hex2_def)

lemma mac_key_no_dot: "CHR ''.'' \<notin> set (mac_key m)"
  by (simp add: mac_key_def show_hex2_no_dot)

lemma dot_in_ip: "CHR ''.'' \<in> set (show_ipv4 ip)"
  by (simp add: show_ipv4_def octets_def)

lemma mac_key_not_ip [simp]: "mac_key m \<noteq> show_ipv4 ip" "show_ipv4 ip \<noteq> mac_key m"
  using mac_key_no_dot dot_in_ip by metis+

section \<open>Merging\<close>

lemma set_merge_string_vec [simp]: "set (merge_string_vec xs ys) = set xs \<union> set ys"
  by (induction ys arbitrary: xs) auto

lemma distinct_merge_string_vec: "distinct xs \<Longrightarrow> distinct (merge_string_vec xs ys)"
  by (induction ys arbitrary: xs) auto

lemma prefix_merge_string_vec: "prefix xs (merge_string_vec xs ys)"
proof (induction ys arbitrary: xs)
  case (Cons y ys)
  from Cons [of xs] Cons [of "xs @ [y]"] show ?case
    by (auto dest: append_prefixD)
qed simp

lemma merge_string_vec_absorb: "set ys \<subseteq> set xs \<Longrightarrow> merge_string_vec xs ys = xs"
  by (induction ys) auto

lemma merge_category_assoc:
  "merge_category (merge_category a b) c = merge_category a (merge_category b c)"
  by (cases a; cases b; cases c) auto

lemma merge_category_idem [simp]: "merge_category a a = a"
  by (cases a) auto

lemma merge_category_known:
  "a = Some c \<Longrightarrow> c \<noteq> Unknown \<Longrightarrow> merge_category a b = a"
  by (cases b) auto

lemma merge_category_None_iff: "merge_category a b = None \<longleftrightarrow> a = None \<and> b = None"
  by (cases a; cases b) auto

section \<open>The invariant\<close>

text \<open>A record is filed under its own key; its last address is among its addresses, which
  are distinct IPv4 addresses; it has a tag and has been seen. A record with a MAC is filed
  under the key of that MAC, a record without one under the only address it ever had.\<close>

definition record_shape :: "string \<Rightarrow> stored \<Rightarrow> bool" where
  "record_shape k r \<longleftrightarrow>
     rec_key r = k \<and> rec_last_ip r \<in> set (rec_ips r) \<and> distinct (rec_ips r)
     \<and> list_all (\<lambda>a. parse_ipv4 a \<noteq> None) (rec_ips r)
     \<and> rec_tag r \<noteq> None
     \<and> (case rec_mac r of
          None \<Rightarrow> rec_ips r = [k]
        | Some t \<Rightarrow> (case parse_mac t of None \<Rightarrow> False | Some m \<Rightarrow> t = show_mac m \<and> k = mac_key m))"

definition record_ok :: "string \<Rightarrow> stored \<Rightarrow> bool" where
  "record_ok k r \<longleftrightarrow> record_shape k r \<and> 0 < rec_seen_count r"

definition store_inv :: "store \<Rightarrow> bool" where
  "store_inv s \<longleftrightarrow> finite (dom s) \<and> (\<forall>k r. s k = Some r \<longrightarrow> record_ok k r)"

lemma store_invD: "store_inv s \<Longrightarrow> s k = Some r \<Longrightarrow> record_ok k r"
  by (simp add: store_inv_def)

lemma store_inv_empty: "store_inv Map.empty"
  by (simp add: store_inv_def)

lemma store_inv_update: "store_inv s \<Longrightarrow> record_ok k r \<Longrightarrow> store_inv (s(k \<mapsto> r))"
  by (auto simp: store_inv_def)

lemma store_inv_remove: "store_inv s \<Longrightarrow> store_inv (s(k := None))"
  by (auto simp: store_inv_def)

lemma record_ok_mac_key:
  "record_ok (mac_key m) r \<Longrightarrow> rec_mac r = Some (show_mac m)"
  by (auto simp: record_ok_def record_shape_def mac_key_inj parse_show_ipv4 split: option.splits
      dest!: show_parse_ipv4)

lemma record_ok_ip_key:
  "record_ok (show_ipv4 ip) r \<Longrightarrow> rec_mac r = None \<and> rec_ips r = [show_ipv4 ip]
     \<and> rec_last_ip r = show_ipv4 ip"
  by (auto simp: record_ok_def record_shape_def split: option.splits)

lemma values_ofD: "values_of vals s \<Longrightarrow> r \<in> set vals \<longleftrightarrow> r \<in> ran s"
  by (auto simp: values_of_def ran_def dom_def image_iff) (metis option.sel)+

lemma store_inv_values:
  "store_inv s \<Longrightarrow> values_of vals s \<Longrightarrow> r \<in> set vals \<longleftrightarrow> s (rec_key r) = Some r"
  by (auto simp: values_ofD ran_def store_inv_def record_ok_def record_shape_def)

lemma existing_Some:
  assumes "store_inv s" "values_of vals s" "existing_by_ip vals (show_ipv4 ip) (mac_key m) s = Some k"
  shows "\<exists>r. s k = Some r \<and> rec_last_ip r = show_ipv4 ip \<and> k \<noteq> mac_key m"
proof (cases "List.find (\<lambda>r. rec_last_ip r = show_ipv4 ip \<and> rec_key r \<noteq> mac_key m) vals")
  case (Some r)
  then have "r \<in> set vals" "rec_last_ip r = show_ipv4 ip" "rec_key r \<noteq> mac_key m"
    by (auto dest: find_Some_mem)
  with assms Some show ?thesis by (auto simp: existing_by_ip_def store_inv_values)
next
  case None
  with assms(3) obtain r where "k = show_ipv4 ip" "s k = Some r"
    by (auto simp: existing_by_ip_def split: if_splits)
  with assms(1) show ?thesis by (auto dest: store_invD record_ok_ip_key)
qed

lemma existing_None:
  assumes "store_inv s" "values_of vals s" "existing_by_ip vals (show_ipv4 ip) (mac_key m) s = None"
    and "s k = Some r" "rec_last_ip r = show_ipv4 ip"
  shows "k = mac_key m"
proof -
  have "rec_key r = k" "r \<in> set vals"
    using assms(1,2,4) by (auto simp: store_inv_values record_ok_def record_shape_def dest: store_invD)
  moreover have "List.find (\<lambda>r. rec_last_ip r = show_ipv4 ip \<and> rec_key r \<noteq> mac_key m) vals = None"
    using assms(3) by (auto simp: existing_by_ip_def split: option.splits)
  ultimately show ?thesis using assms(5) by (auto simp: find_None_iff)
qed

section \<open>Operations on records\<close>

lemma checked_add_1:
  "checked_add (c :: 32 word) 1 = (if c = - 1 then Inl Arithmetic_Overflow else Inr (c + 1))"
proof -
  have "unat c < 2 ^ LENGTH(32)" by (rule unsigned_less)
  moreover have "c = - 1 \<longleftrightarrow> unat c = 2 ^ 32 - 1"
    by (simp add: word_unat_eq_iff unsigned_minus_1_eq_mask mask_eq_exp_minus_1)
  ultimately have "unat c + 1 < 2 ^ LENGTH(32) \<longleftrightarrow> c \<noteq> - 1" by auto
  then show ?thesis by (simp add: checked_add_def)
qed

lemma succ_pos: "(c :: 32 word) \<noteq> - 1 \<Longrightarrow> 0 < c + 1"
  by (metis add.inverse_inverse add_eq_0_iff neg_equal_iff_equal word_neq_0_conv add.commute)

lemma record_sighting_eq:
  "record_sighting ip now r =
     (if rec_seen_count r = - 1 then Inl Arithmetic_Overflow
      else Inr (r\<lparr>rec_ips := push_new ip (rec_ips r), rec_last_ip := ip,
                  rec_last_seen := now, rec_seen_count := rec_seen_count r + 1\<rparr>))"
  by (simp add: record_sighting_def checked_add_1)

lemma enrich_simps [simp]:
  "rec_key (enrich d r) = rec_key r" "rec_mac (enrich d r) = rec_mac r"
  "rec_last_ip (enrich d r) = rec_last_ip r" "rec_ips (enrich d r) = rec_ips r"
  "rec_tag (enrich d r) = rec_tag r" "rec_first_seen (enrich d r) = rec_first_seen r"
  "rec_last_seen (enrich d r) = rec_last_seen r"
  "rec_seen_count (enrich d r) = rec_seen_count r"
  "rec_vendor (enrich d r) = overwrite (dev_vendor d) (rec_vendor r)"
  "rec_hostname (enrich d r) = overwrite (dev_hostname d) (rec_hostname r)"
  "rec_os_hint (enrich d r) = overwrite (dev_os_hint d) (rec_os_hint r)"
  "rec_services (enrich d r) = merge_string_vec (rec_services r) (dev_services d)"
  "rec_category (enrich d r) = merge_category (rec_category r) (dev_category d)"
  by (simp_all add: enrich_def)

lemma promote_simps [simp]:
  "rec_last_ip (promote m d r) = rec_last_ip r" "rec_ips (promote m d r) = rec_ips r"
  "rec_tag (promote m d r) = rec_tag r" "rec_first_seen (promote m d r) = rec_first_seen r"
  "rec_last_seen (promote m d r) = rec_last_seen r"
  "rec_seen_count (promote m d r) = rec_seen_count r"
  "rec_services (promote m d r) = rec_services r" "rec_category (promote m d r) = rec_category r"
  "rec_mac (promote m d r) = (if rec_mac r = None then Some (show_mac m) else rec_mac r)"
  "rec_key (promote m d r) = (if rec_mac r = None then mac_key m else rec_key r)"
  by (simp_all add: promote_def)

lemma record_ok_enrich: "record_ok k r \<Longrightarrow> record_ok k (enrich d r)"
  by (auto simp: record_ok_def record_shape_def split: option.splits)

lemma record_ok_sighting:
  assumes "record_shape k r" "record_sighting (show_ipv4 ip) now r = Inr r'"
    and "rec_mac r = None \<longrightarrow> k = show_ipv4 ip"
  shows "record_ok k r'"
  using assms
  by (auto simp: record_ok_def record_shape_def record_sighting_eq push_new_def succ_pos
      parse_show_ipv4 split: if_splits option.splits)

lemma record_ok_promote:
  assumes "record_ok k r"
  shows "record_ok (rec_key (promote m d r)) (promote m d r)"
  using assms
  by (auto simp: record_ok_def record_shape_def parse_show_mac split: option.splits)

lemma record_shape_fresh:
  "key = (case m of Some m \<Rightarrow> mac_key m | None \<Rightarrow> show_ipv4 ip) \<Longrightarrow>
   record_shape key (fresh_record key m (show_ipv4 ip) now t d)"
  by (auto simp: record_shape_def fresh_record_def parse_show_ipv4 parse_show_mac
      split: option.splits)

lemma upsert_entry_inv:
  assumes inv: "store_inv s"
    and key: "key = (case m of Some m \<Rightarrow> mac_key m | None \<Rightarrow> show_ipv4 ip)"
    and ups: "upsert_entry key m (show_ipv4 ip) now g d s = Inr (s', r)"
  shows "record_ok key r" and "s' = s(key \<mapsto> r)"
    and "rec_last_ip r = show_ipv4 ip" and "rec_last_seen r = now"
proof -
  define r0 where "r0 = (case s key of Some r \<Rightarrow> r | None \<Rightarrow> fresh_record key m (show_ipv4 ip) now (g key) d)"
  from ups obtain r1 where sight: "record_sighting (show_ipv4 ip) now r0 = Inr r1"
    and r: "r = enrich d r1" and s': "s' = s(key \<mapsto> r)"
    by (auto simp: upsert_entry_def Let_def outcome_bind_Inr_iff r0_def)
  have shape: "record_shape key r0"
    using inv key by (auto simp: r0_def record_shape_fresh record_ok_def dest: store_invD split: option.splits)
  have mac: "rec_mac r0 = None \<longrightarrow> key = show_ipv4 ip"
    using key
    by (auto simp: r0_def fresh_record_def split: option.splits
        dest!: store_invD [OF inv] record_ok_mac_key)
  have "record_ok key r1" by (rule record_ok_sighting [OF shape sight mac])
  then show "record_ok key r" by (simp add: r record_ok_enrich)
  show "s' = s(key \<mapsto> r)" by (rule s')
  show "rec_last_ip r = show_ipv4 ip" and "rec_last_seen r = now"
    using sight by (auto simp: r record_sighting_eq split: if_splits)
qed

text \<open>The two ways an upsert can go, for a store that satisfies the invariant: the record
  that holds the device's address under another key is taken over, or the record under the
  device's own key is created or updated.\<close>

lemma upsert_cases:
  assumes inv: "store_inv s" and vals: "values_of vals s"
    and ups: "upsert vals now g d s = Inr (s', r)"
  obtains (take_over) m k old r1 where "dev_mac d = Some m" "s k = Some old"
      "rec_last_ip old = show_ipv4 (dev_ip d)" "k \<noteq> mac_key m"
      "record_sighting (show_ipv4 (dev_ip d)) now old = Inr r1"
      "r = enrich d (promote m d r1)" "s' = (s(k := None))(rec_key r \<mapsto> r)"
  | (entry) key where
      "key = (case dev_mac d of Some m \<Rightarrow> mac_key m | None \<Rightarrow> show_ipv4 (dev_ip d))"
      "upsert_entry key (dev_mac d) (show_ipv4 (dev_ip d)) now g d s = Inr (s', r)"
proof (cases "dev_mac d")
  case None
  with ups that(2) show ?thesis by (simp add: upsert_def ip_key_def)
next
  case (Some m)
  show ?thesis
  proof (cases "existing_by_ip vals (show_ipv4 (dev_ip d)) (mac_key m) s")
    case None
    with Some ups that(2) show ?thesis by (simp add: upsert_def)
  next
    case (Some k)
    from existing_Some [OF inv vals Some] obtain old
      where old: "s k = Some old" "rec_last_ip old = show_ipv4 (dev_ip d)" "k \<noteq> mac_key m" by blast
    with ups \<open>dev_mac d = Some m\<close> Some obtain r1
      where "record_sighting (show_ipv4 (dev_ip d)) now old = Inr r1"
        "r = enrich d (promote m d r1)" "s' = (s(k := None))(rec_key r \<mapsto> r)"
      by (auto simp: upsert_def outcome_bind_Inr_iff insert_record_def Let_def)
    with old \<open>dev_mac d = Some m\<close> that(1) show ?thesis by blast
  qed
qed

section \<open>What upsert does\<close>

lemma upsert_entry_frame:
  "upsert_entry key m ip now g d s = Inr (s', r) \<Longrightarrow> s' = s(key \<mapsto> r)"
  by (auto simp: upsert_entry_def Let_def outcome_bind_Inr_iff)

lemma upsert_entry_existing:
  "s key = Some old \<Longrightarrow> rec_seen_count old \<noteq> - 1 \<Longrightarrow>
   upsert_entry key m ip now g d s =
     (let r = enrich d (old\<lparr>rec_ips := push_new ip (rec_ips old), rec_last_ip := ip,
                           rec_last_seen := now, rec_seen_count := rec_seen_count old + 1\<rparr>)
      in Inr (s(key \<mapsto> r), r))"
  by (simp add: upsert_entry_def record_sighting_eq Let_def)

lemma upsert_entry_new:
  "s key = None \<Longrightarrow>
   upsert_entry key m ip now g d s =
     (let r = enrich d ((fresh_record key m ip now (g key) d)\<lparr>rec_seen_count := 1\<rparr>)
      in Inr (s(key \<mapsto> r), r))"
  by (simp add: upsert_entry_def record_sighting_eq Let_def fresh_record_def push_new_def)

text \<open>Who holds an address in a store.\<close>

definition holders :: "ipv4 \<Rightarrow> store \<Rightarrow> string set" where
  "holders ip s = {k. \<exists>r. s k = Some r \<and> rec_last_ip r = show_ipv4 ip}"

lemma existing_of_holders:
  assumes inv: "store_inv s" and vals: "values_of vals s"
    and "holders ip s - {mac_key m} = {k}"
  shows "existing_by_ip vals (show_ipv4 ip) (mac_key m) s = Some k"
proof (cases "existing_by_ip vals (show_ipv4 ip) (mac_key m) s")
  case None
  from assms(3) have "k \<in> holders ip s" "k \<noteq> mac_key m" by auto
  with existing_None [OF inv vals None] show ?thesis by (auto simp: holders_def)
next
  case (Some k')
  from existing_Some [OF inv vals Some] have "k' \<in> holders ip s - {mac_key m}"
    by (auto simp: holders_def)
  with assms(3) Some show ?thesis by auto
qed

lemma existing_of_no_holders:
  assumes inv: "store_inv s" and vals: "values_of vals s"
    and "holders ip s \<subseteq> {mac_key m}"
  shows "existing_by_ip vals (show_ipv4 ip) (mac_key m) s = None"
proof (cases "existing_by_ip vals (show_ipv4 ip) (mac_key m) s")
  case (Some k')
  from existing_Some [OF inv vals Some] assms(3) show ?thesis by (auto simp: holders_def)
qed

lemma upsert_own_key:
  assumes "store_inv s" "values_of vals s" "dev_mac d = Some m"
    and "holders (dev_ip d) s \<subseteq> {mac_key m}"
  shows "upsert vals now g d s =
    upsert_entry (mac_key m) (Some m) (show_ipv4 (dev_ip d)) now g d s"
  using existing_of_no_holders [OF assms(1,2,4)] assms(3) by (simp add: upsert_def)

lemma upsert_holder:
  assumes "store_inv s" "values_of vals s" "dev_mac d = Some m"
    and "holders (dev_ip d) s - {mac_key m} = {k}" and "s k = Some old"
    and "rec_seen_count old \<noteq> - 1"
  shows "\<exists>r. upsert vals now g d s = Inr ((s(k := None))(rec_key r \<mapsto> r), r)
    \<and> r = enrich d (promote m d (old\<lparr>rec_ips := push_new (show_ipv4 (dev_ip d)) (rec_ips old),
        rec_last_ip := show_ipv4 (dev_ip d), rec_last_seen := now,
        rec_seen_count := rec_seen_count old + 1\<rparr>))"
  using existing_of_holders [OF assms(1,2,4)] assms(3,5,6)
  by (simp add: upsert_def record_sighting_eq insert_record_def Let_def)

lemma upsert_step:
  assumes "store_inv s" and "values_of vals s"
    and "upsert vals now g d s = Inr (s', r)"
  shows "store_inv s' \<and> s' (rec_key r) = Some r
    \<and> rec_last_ip r = show_ipv4 (dev_ip d) \<and> rec_last_seen r = now"
  using assms
proof (cases rule: upsert_cases)
  case (take_over m k old r1)
  have "record_shape k old" "rec_mac old = None \<longrightarrow> k = show_ipv4 (dev_ip d)"
    using store_invD [OF assms(1) take_over(2)] take_over(3)
    by (auto simp: record_ok_def record_shape_def)
  from record_ok_sighting [OF this(1) take_over(5) this(2)]
  have "record_ok (rec_key r) r"
    using record_ok_enrich [OF record_ok_promote] by (simp add: take_over(6))
  moreover have "rec_last_ip r = show_ipv4 (dev_ip d)" "rec_last_seen r = now"
    using take_over(5) by (auto simp: take_over(6) record_sighting_eq split: if_splits)
  ultimately show ?thesis
    using assms(1) take_over(7) by (simp add: store_inv_update store_inv_remove)
next
  case (entry key)
  from upsert_entry_inv [OF assms(1) entry] assms(1) show ?thesis
    by (auto simp: store_inv_update record_ok_def record_shape_def)
qed

text \<open>C4: every operation of the registry keeps its invariant: after an upsert every record
  is still filed under its own key, holds its last address among distinct addresses, has a tag
  and a MAC that matches its key; the record returned is the one stored, seen now and at the
  device's address.\<close>

theorem upsert_preserves_invariant:
  assumes "store_inv s" and "values_of vals s"
    and "upsert vals now g d s = Inr (s', r)"
  shows "store_inv s' \<and> s' (rec_key r) = Some r
    \<and> rec_last_ip r = show_ipv4 (dev_ip d) \<and> rec_last_seen r = now"
  using assms by (rule upsert_step)

theorem upsert_preserves_invariant_witness:
  "\<exists>s' r. upsert [] 7 id (device_from \<lparr>entry_ip = 0, entry_mac = mac_broadcast\<rparr>) Map.empty
       = Inr (s', r) \<and> store_inv s' \<and> rec_last_seen r = 7"
proof -
  let ?d = "device_from \<lparr>entry_ip = 0, entry_mac = mac_broadcast\<rparr>"
  obtain s' r where run: "upsert [] 7 id ?d Map.empty = Inr (s', r)"
    by (simp add: upsert_def existing_by_ip_def upsert_entry_new Let_def)
  have "values_of [] Map.empty" by (simp add: values_of_def)
  from upsert_preserves_invariant [OF store_inv_empty this run] run show ?thesis by blast
qed

lemma upsert_total_lemma:
  assumes "store_inv s" and "values_of vals s"
  shows "returns (upsert vals now g d s)
    \<or> upsert vals now g d s = Inl Arithmetic_Overflow
       \<and> (\<exists>k old. s k = Some old \<and> rec_seen_count old = - 1)"
proof -
  have entry: "returns (upsert_entry key m ip now g d s)
    \<or> upsert_entry key m ip now g d s = Inl Arithmetic_Overflow
      \<and> (\<exists>k old. s k = Some old \<and> rec_seen_count old = - 1)" for key m ip
    by (auto simp: upsert_entry_def record_sighting_eq Let_def fresh_record_def split: option.splits)
  show ?thesis
    using entry existing_Some [OF assms]
    by (auto simp: upsert_def record_sighting_eq Let_def split: option.splits bind_splits)
qed

text \<open>Upsert never fails but for the one arithmetic overflow the code can reach: a
  32-bit sighting counter at its maximum.\<close>

theorem upsert_total:
  assumes "store_inv s" and "values_of vals s"
  shows "returns (upsert vals now g d s)
    \<or> upsert vals now g d s = Inl Arithmetic_Overflow
       \<and> (\<exists>k old. s k = Some old \<and> rec_seen_count old = - 1)"
  by (rule upsert_total_lemma [OF assms])

definition own_key :: "device \<Rightarrow> string" where
  "own_key d = (case dev_mac d of Some m \<Rightarrow> mac_key m | None \<Rightarrow> show_ipv4 (dev_ip d))"

lemma upsert_own_entry:
  assumes "store_inv s" "values_of vals s"
    and "dev_mac d = None \<or> holders (dev_ip d) s \<subseteq> {own_key d}"
  shows "upsert vals now g d s =
    upsert_entry (own_key d) (dev_mac d) (show_ipv4 (dev_ip d)) now g d s"
  using assms upsert_own_key [OF assms(1,2)]
  by (cases "dev_mac d") (auto simp: own_key_def upsert_def ip_key_def)

lemma prefix_push_new: "prefix xs (push_new x xs)"
  by (simp add: push_new_def)

lemma set_push_new [simp]: "set (push_new x xs) = insert x (set xs)"
  by (auto simp: push_new_def)

lemma values_of_single: "values_of [r] [k \<mapsto> r]"
  by (auto simp: values_of_def intro!: exI [of _ "[k]"])

text \<open>C15: a known device whose address no other record holds is recognised: its record, and
  no other, is updated, keeping its tag, its first sighting and its address history, to which
  a new address is appended, and counting one sighting more.\<close>

theorem upsert_known_device:
  assumes "store_inv s" and "values_of vals s"
    and "dev_mac d = None \<or> holders (dev_ip d) s \<subseteq> {own_key d}"
    and "s (own_key d) = Some old" and "rec_seen_count old \<noteq> - 1"
  shows "\<exists>r. upsert vals now g d s = Inr (s(own_key d \<mapsto> r), r)
    \<and> rec_tag r = rec_tag old \<and> rec_first_seen r = rec_first_seen old
    \<and> rec_mac r = rec_mac old \<and> prefix (rec_ips old) (rec_ips r)
    \<and> set (rec_ips r) = insert (show_ipv4 (dev_ip d)) (set (rec_ips old))
    \<and> rec_last_ip r = show_ipv4 (dev_ip d) \<and> rec_last_seen r = now
    \<and> rec_seen_count r = rec_seen_count old + 1
    \<and> rec_services r = merge_string_vec (rec_services old) (dev_services d)
    \<and> rec_category r = merge_category (rec_category old) (dev_category d)"
  using assms
  by (simp add: upsert_own_entry upsert_entry_existing Let_def prefix_push_new)

text \<open>A device the registry does not know, at an address no other record holds, gets a
  new record under its own key, with the generated tag and one sighting, and no other record
  changes.\<close>

theorem upsert_new_device:
  assumes "store_inv s" and "values_of vals s"
    and "dev_mac d = None \<or> holders (dev_ip d) s \<subseteq> {own_key d}"
    and "s (own_key d) = None"
  shows "\<exists>r. upsert vals now g d s = Inr (s(own_key d \<mapsto> r), r)
    \<and> rec_key r = own_key d \<and> rec_tag r = Some (g (own_key d))
    \<and> rec_mac r = map_option show_mac (dev_mac d)
    \<and> rec_ips r = [show_ipv4 (dev_ip d)] \<and> rec_first_seen r = now \<and> rec_last_seen r = now
    \<and> rec_seen_count r = 1 \<and> rec_vendor r = dev_vendor d \<and> rec_hostname r = dev_hostname d
    \<and> set (rec_services r) = set (dev_services d) \<and> rec_category r = dev_category d"
  using assms
  by (simp add: upsert_own_entry upsert_entry_new Let_def fresh_record_def overwrite_def
      split: option.splits)

text \<open>C16: promotion. A device seen for the first time with its MAC, at an address that a record
  without a MAC holds, takes that record over: the record moves from the address key to the MAC
  key with its tag, first sighting and history, and the address key disappears.\<close>

theorem upsert_promotes_ip_record:
  assumes "store_inv s" and "values_of vals s" and "dev_mac d = Some m"
    and "holders (dev_ip d) s = {show_ipv4 (dev_ip d)}" and "s (mac_key m) = None"
    and "s (show_ipv4 (dev_ip d)) = Some old" and "rec_seen_count old \<noteq> - 1"
  shows "\<exists>r s'. upsert vals now g d s = Inr (s', r)
    \<and> s' = s(show_ipv4 (dev_ip d) := None, mac_key m \<mapsto> r)
    \<and> rec_key r = mac_key m \<and> rec_mac r = Some (show_mac m)
    \<and> rec_tag r = rec_tag old \<and> rec_first_seen r = rec_first_seen old
    \<and> rec_ips r = rec_ips old \<and> rec_seen_count r = rec_seen_count old + 1
    \<and> store_get (Some m) (dev_ip d) s' = Some r"
proof -
  have old: "rec_mac old = None" "rec_ips old = [show_ipv4 (dev_ip d)]"
    using record_ok_ip_key [OF store_invD [OF assms(1,6)]] by simp_all
  have "holders (dev_ip d) s - {mac_key m} = {show_ipv4 (dev_ip d)}"
    by (simp add: assms(4))
  from upsert_holder [OF assms(1-3) this assms(6,7)] old show ?thesis
    by (auto simp: store_get_def push_new_def)
qed

text \<open>C17: identity confusion after an address changed hands. When the only record that holds
  the address belongs to another MAC, the code takes it for the new device: the other device's
  record is marked as seen, receives the new device's vendor and is returned, tag and all,
  while the new device gets no record of its own.\<close>

theorem upsert_confuses_reassigned_address:
  assumes "store_inv s" and "values_of vals s" and "dev_mac d = Some m"
    and "holders (dev_ip d) s = {mac_key m'}" and "m' \<noteq> m"
    and "s (mac_key m') = Some old" and "rec_seen_count old \<noteq> - 1"
  shows "\<exists>r s'. upsert vals now g d s = Inr (s', r) \<and> s' = s(mac_key m' \<mapsto> r)
    \<and> s' (mac_key m) = s (mac_key m)
    \<and> rec_mac r = Some (show_mac m') \<and> rec_tag r = rec_tag old
    \<and> rec_vendor r = overwrite (dev_vendor d) (rec_vendor old)
    \<and> rec_seen_count r = rec_seen_count old + 1 \<and> rec_last_seen r = now"
proof -
  have old: "rec_mac old = Some (show_mac m')" "rec_key old = mac_key m'"
    using store_invD [OF assms(1,6)] record_ok_mac_key
    by (auto simp: record_ok_def record_shape_def)
  have "holders (dev_ip d) s - {mac_key m} = {mac_key m'}"
    using assms(5) by (auto simp: assms(4) mac_key_inj)
  from upsert_holder [OF assms(1-3) this assms(6,7)] old assms(5) show ?thesis
    by (auto simp: promote_def mac_key_inj)
qed

text \<open>C18: a tag is lost when a known device is seen once without its MAC. The sweep sighting
  makes a second record under the address; the next ARP sighting promotes that record onto the
  MAC key and overwrites the device's own record: tag, first sighting and history are those of
  the sweep.\<close>

theorem upsert_loses_tag_after_sweep:
  assumes "store_inv s" and "s (mac_key m) = Some old" and "rec_last_ip old = show_ipv4 ip"
    and "holders ip s = {mac_key m}"
    and "values_of vals s" and "upsert vals t0 g (from_sweep ip) s = Inr (s1, r0)"
    and "values_of vals1 s1" and "dev_mac d = Some m" and "dev_ip d = ip"
    and "upsert vals1 t1 g d s1 = Inr (s2, r1)"
  shows "s2 (mac_key m) = Some r1 \<and> s2 (show_ipv4 ip) = None
    \<and> rec_tag r1 = Some (g (show_ipv4 ip))
    \<and> rec_first_seen r1 = t0 \<and> rec_ips r1 = [show_ipv4 ip] \<and> rec_seen_count r1 = 2"
proof -
  have none: "s (show_ipv4 ip) = None"
  proof (cases "s (show_ipv4 ip)")
    case (Some r)
    with assms(1) have "show_ipv4 ip \<in> holders ip s"
      by (auto simp: holders_def dest!: store_invD record_ok_ip_key)
    with assms(4) show ?thesis by simp
  qed
  let ?r0 = "enrich (from_sweep ip) ((fresh_record (show_ipv4 ip) None (show_ipv4 ip) t0
    (g (show_ipv4 ip)) (from_sweep ip))\<lparr>rec_seen_count := 1\<rparr>)"
  from assms(6) have s1: "s1 = s(show_ipv4 ip \<mapsto> ?r0)"
    by (auto simp: upsert_def ip_key_def upsert_entry_new [where s = s, OF none] Let_def)
  have inv1: "store_inv s1"
    using upsert_step [OF assms(1,5,6)] by blast
  have "holders ip s1 - {mac_key m} = {show_ipv4 ip}"
    using assms(4) by (auto simp: s1 holders_def fresh_record_def split: if_splits)
  from upsert_holder [OF inv1 assms(7,8), unfolded assms(9), OF this, of ?r0]
  obtain r where "upsert vals1 t1 g d s1 = Inr (s1(show_ipv4 ip := None, rec_key r \<mapsto> r), r)"
    and "r = enrich d (promote m d (?r0\<lparr>rec_ips := push_new (show_ipv4 ip) (rec_ips ?r0),
        rec_last_ip := show_ipv4 ip, rec_last_seen := t1,
        rec_seen_count := rec_seen_count ?r0 + 1\<rparr>))"
    by (auto simp: s1 fresh_record_def)
  with assms(10) show ?thesis
    by (auto simp: fresh_record_def push_new_def promote_def)
qed

section \<open>Tagging\<close>

lemma set_tag_ok: "record_ok k r \<Longrightarrow> record_ok k (r\<lparr>rec_tag := Some t\<rparr>)"
  by (auto simp: record_ok_def record_shape_def split: option.splits)

lemma set_tag_update:
  "store_inv s \<Longrightarrow> s k = Some r \<Longrightarrow> store_inv (s(k \<mapsto> r\<lparr>rec_tag := Some t\<rparr>))"
  by (rule store_inv_update) (simp_all add: set_tag_ok store_invD)

lemma set_tag_inv: "store_inv s \<Longrightarrow> store_inv (fst (set_tag m ip t s))"
  by (auto simp: set_tag_def set_tag_update split: option.splits bind_splits)

lemma set_tag_frame:
  "k \<noteq> show_ipv4 ip \<Longrightarrow> (\<And>x. m = Some x \<Longrightarrow> k \<noteq> mac_key x) \<Longrightarrow> fst (set_tag m ip t s) k = s k"
  by (auto simp: set_tag_def split: option.splits bind_splits)

text \<open>Setting a tag changes exactly the tag of exactly the record a lookup with the same
  MAC and address finds, so the lookup returns the new tag; where the lookup finds nothing the
  call reports failure and the registry stays as it is.\<close>

theorem set_tag_then_get:
  "snd (set_tag m ip t s) = (store_get m ip s \<noteq> None)
   \<and> store_get m ip (fst (set_tag m ip t s)) =
       map_option (\<lambda>r. r\<lparr>rec_tag := Some t\<rparr>) (store_get m ip s)
   \<and> dom (fst (set_tag m ip t s)) = dom s
   \<and> (store_get m ip s = None \<longrightarrow> fst (set_tag m ip t s) = s)"
  by (auto simp: set_tag_def store_get_def split: option.splits bind_splits)

section \<open>The registry as a state machine\<close>

text \<open>One operation on the registry, at any time, with the values of the hash map listed in
  any order.\<close>

inductive registry_step :: "(string \<Rightarrow> string) \<Rightarrow> store \<Rightarrow> store \<Rightarrow> bool" for g where
  sighting: "values_of vals s \<Longrightarrow> upsert vals now g d s = Inr (s', r) \<Longrightarrow> registry_step g s s'"
| tagging: "set_tag m ip t s = (s', b) \<Longrightarrow> registry_step g s s'"

inductive_cases registry_stepE: "registry_step g s s'"

lemma registry_step_inv: "store_inv s \<Longrightarrow> registry_step g s s' \<Longrightarrow> store_inv s'"
proof (erule registry_stepE)
  fix vals now d r
  assume "store_inv s" "values_of vals s" "upsert vals now g d s = Inr (s', r)"
  then show "store_inv s'" by (blast dest: upsert_step)
next
  fix m ip t b
  assume "store_inv s" "set_tag m ip t s = (s', b)"
  then show "store_inv s'" by (metis set_tag_inv fst_conv)
qed

interpretation registry: invariant_system "\<lambda>s. s = Map.empty" "registry_step g" store_inv
  by unfold_locales (auto simp: store_inv_empty intro: registry_step_inv)

text \<open>Whatever sequence of sightings and taggings a fresh registry goes through, and in
  whatever order the hash map lists its records at each of them, the registry invariant
  holds, so a lookup by MAC can only find a record with that very MAC, and a lookup by address
  only a record without a MAC.\<close>

theorem reachable_registry_consistent:
  assumes "(registry_step g)\<^sup>*\<^sup>* Map.empty s"
  shows "store_inv s
    \<and> (\<forall>r. s (mac_key m) = Some r \<longrightarrow> rec_mac r = Some (show_mac m))
    \<and> (\<forall>r. s (show_ipv4 ip) = Some r \<longrightarrow> rec_mac r = None \<and> rec_last_ip r = show_ipv4 ip)"
proof -
  have "store_inv s" by (rule registry.reachable_inv [OF refl assms])
  then show ?thesis
    by (auto dest: store_invD record_ok_mac_key record_ok_ip_key)
qed

text \<open>An upsert adds at most the device's own key to the registry.\<close>

theorem upsert_dom:
  assumes "store_inv s" and "values_of vals s" and "upsert vals now g d s = Inr (s', r)"
  shows "dom s' \<subseteq> insert (own_key d) (dom s)"
  using assms
proof (cases rule: upsert_cases)
  case (take_over m k old r1)
  have "rec_key r = mac_key m \<or> rec_key r = k"
    using store_invD [OF assms(1) take_over(2)] take_over(5)
    by (auto simp: take_over(6) record_sighting_eq record_ok_def record_shape_def split: if_splits)
  with take_over(1,2,7) show ?thesis by (auto simp: own_key_def)
next
  case (entry key)
  then show ?thesis by (auto simp: own_key_def dest!: upsert_entry_frame)
qed

section \<open>Merging and keys\<close>

lemma merge_string_vec_filter:
  "merge_string_vec xs ys = xs @ filter (\<lambda>y. y \<notin> set xs) (rev (remdups (rev ys)))"
proof (induction ys arbitrary: xs)
  case Nil
  then show ?case by simp
next
  case (Cons y ys)
  have "rev (remdups (rev (y # ys))) = y # filter (\<lambda>z. z \<noteq> y) (rev (remdups (rev ys)))"
    by (induction ys rule: rev_induct) auto
  with Cons show ?case by (auto intro!: filter_cong)
qed

text \<open>Merging services keeps the known ones in their order and appends, in the order they
  come, the first occurrences of those that are new.\<close>

theorem merge_string_vec_spec:
  "merge_string_vec xs ys = xs @ filter (\<lambda>y. y \<notin> set xs) (rev (remdups (rev ys)))"
  by (rule merge_string_vec_filter)

text \<open>Merging categories is associative and idempotent, loses no category and never
  replaces a known category, so the category of a record does not depend on how the sightings
  are grouped.\<close>

theorem merge_category_laws:
  "merge_category (merge_category a b) c = merge_category a (merge_category b c)
   \<and> merge_category a a = a
   \<and> (merge_category a b = None \<longleftrightarrow> a = None \<and> b = None)
   \<and> (merge_category a b = Some Unknown \<longleftrightarrow> a \<in> {None, Some Unknown} \<and> b \<in> {None, Some Unknown}
        \<and> \<not> (a = None \<and> b = None))
   \<and> (a \<notin> {None, Some Unknown} \<longrightarrow> merge_category a b = a)"
proof -
  have "merge_category a b = Some Unknown \<longleftrightarrow> a \<in> {None, Some Unknown} \<and> b \<in> {None, Some Unknown}
        \<and> \<not> (a = None \<and> b = None)"
    by (cases a; cases b) auto
  then show ?thesis
    using merge_category_known by (auto simp: merge_category_assoc merge_category_None_iff)
qed

text \<open>Keys identify devices: different MACs have different keys, different addresses have
  different keys, and no MAC key is an address key.\<close>

theorem registry_keys_injective:
  "(mac_key m = mac_key m' \<longleftrightarrow> m = m') \<and> (ip_key a = ip_key b \<longleftrightarrow> a = b) \<and> mac_key m \<noteq> ip_key a"
  by (simp add: ip_key_def mac_key_inj show_ipv4_inj)

section \<open>A sample registry\<close>

text \<open>One device with a MAC, tagged by the user, for the witnesses of the properties above.\<close>

definition alice_mac :: mac where
  "alice_mac = MacAddr6 0x02 0 0 0 0 0x01"

definition bob_mac :: mac where
  "bob_mac = MacAddr6 0x02 0 0 0 0 0x02"

definition host_ip :: ipv4 where
  "host_ip = ipv4_new 10 0 0 5"

definition other_ip :: ipv4 where
  "other_ip = ipv4_new 10 0 0 9"

definition seen_at :: "mac \<Rightarrow> ipv4 \<Rightarrow> device" where
  "seen_at m ip = device_from \<lparr>entry_ip = ip, entry_mac = m\<rparr>"

definition alice_record :: stored where
  "alice_record =
     (fresh_record (mac_key alice_mac) (Some alice_mac) (show_ipv4 host_ip) 1 ''alice''
       (seen_at alice_mac host_ip))\<lparr>rec_seen_count := 1\<rparr>"

definition alice_store :: store where
  "alice_store = [mac_key alice_mac \<mapsto> alice_record]"

definition swept_record :: stored where
  "swept_record =
     (fresh_record (show_ipv4 host_ip) None (show_ipv4 host_ip) 1 ''swept'' (from_sweep host_ip))
       \<lparr>rec_seen_count := 1\<rparr>"

definition swept_store :: store where
  "swept_store = [show_ipv4 host_ip \<mapsto> swept_record]"

lemma samples_distinct [simp]: "alice_mac \<noteq> bob_mac" "bob_mac \<noteq> alice_mac" "host_ip \<noteq> other_ip"
  by (simp_all add: alice_mac_def bob_mac_def host_ip_def other_ip_def ipv4_new_inject)

lemma seen_at_simps [simp]: "dev_mac (seen_at m ip) = Some m" "dev_ip (seen_at m ip) = ip"
  by (simp_all add: seen_at_def)

lemma alice_record_simps [simp]:
  "rec_last_ip alice_record = show_ipv4 host_ip" "rec_seen_count alice_record = 1"
  "rec_tag alice_record = Some ''alice''" "rec_mac alice_record = Some (show_mac alice_mac)"
  by (simp_all add: alice_record_def fresh_record_def)

lemma swept_record_simps [simp]:
  "rec_last_ip swept_record = show_ipv4 host_ip" "rec_seen_count swept_record = 1"
  "rec_tag swept_record = Some ''swept''" "rec_mac swept_record = None"
  by (simp_all add: swept_record_def fresh_record_def)

lemma record_ok_seen_once: "record_shape k r \<Longrightarrow> record_ok k (r\<lparr>rec_seen_count := 1\<rparr>)"
  by (auto simp: record_ok_def record_shape_def split: option.splits)

lemma alice_store_inv: "store_inv alice_store"
  unfolding alice_store_def alice_record_def
  by (intro store_inv_update store_inv_empty record_ok_seen_once record_shape_fresh) simp

lemma swept_store_inv: "store_inv swept_store"
  unfolding swept_store_def swept_record_def
  by (intro store_inv_update store_inv_empty record_ok_seen_once record_shape_fresh) simp

lemma alice_values: "values_of [alice_record] alice_store"
  unfolding alice_store_def by (rule values_of_single)

lemma swept_values: "values_of [swept_record] swept_store"
  unfolding swept_store_def by (rule values_of_single)

lemma alice_holders: "holders ip alice_store = (if ip = host_ip then {mac_key alice_mac} else {})"
  by (auto simp: holders_def alice_store_def show_ipv4_inj)

lemma swept_holders: "holders ip swept_store = (if ip = host_ip then {show_ipv4 host_ip} else {})"
  by (auto simp: holders_def swept_store_def show_ipv4_inj)

lemma alice_lookup: "alice_store (mac_key m) = (if m = alice_mac then Some alice_record else None)"
  "alice_store (show_ipv4 ip) = None"
  by (auto simp: alice_store_def mac_key_inj)

lemma swept_lookup: "swept_store (mac_key m) = None"
  "swept_store (show_ipv4 ip) = (if ip = host_ip then Some swept_record else None)"
  by (auto simp: swept_store_def show_ipv4_inj)

lemmas sample_simps = alice_store_inv swept_store_inv alice_values swept_values alice_holders
  swept_holders alice_lookup swept_lookup own_key_def

section \<open>Witnesses\<close>

theorem upsert_total_witness:
  "returns (upsert [alice_record] 5 id (seen_at bob_mac other_ip) alice_store)"
  using upsert_total [OF alice_store_inv alice_values, of 5 id "seen_at bob_mac other_ip"]
  by (auto simp: alice_store_def split: if_splits)

theorem upsert_known_device_witness:
  "\<exists>r. upsert [alice_record] 5 id (seen_at alice_mac other_ip) alice_store
      = Inr (alice_store(mac_key alice_mac \<mapsto> r), r)
    \<and> rec_tag r = Some ''alice''
    \<and> set (rec_ips r) = insert (show_ipv4 other_ip) (set (rec_ips alice_record))"
proof -
  have "dev_mac (seen_at alice_mac other_ip) = None
    \<or> holders (dev_ip (seen_at alice_mac other_ip)) alice_store \<subseteq> {own_key (seen_at alice_mac other_ip)}"
    and "alice_store (own_key (seen_at alice_mac other_ip)) = Some alice_record"
    and "rec_seen_count alice_record \<noteq> - 1"
    by (simp_all add: sample_simps)
  from upsert_known_device [OF alice_store_inv alice_values this, of 5 id]
  show ?thesis by (auto simp: own_key_def)
qed

theorem upsert_promotes_ip_record_witness:
  "\<exists>r s'. upsert [swept_record] 5 id (seen_at alice_mac host_ip) swept_store = Inr (s', r)
    \<and> store_get (Some alice_mac) host_ip s' = Some r \<and> rec_tag r = Some ''swept''"
proof -
  have "dev_mac (seen_at alice_mac host_ip) = Some alice_mac"
    "holders (dev_ip (seen_at alice_mac host_ip)) swept_store = {show_ipv4 (dev_ip (seen_at alice_mac host_ip))}"
    "swept_store (mac_key alice_mac) = None"
    "swept_store (show_ipv4 (dev_ip (seen_at alice_mac host_ip))) = Some swept_record"
    "rec_seen_count swept_record \<noteq> - 1"
    by (simp_all add: sample_simps)
  from upsert_promotes_ip_record [OF swept_store_inv swept_values this, of 5 id]
  show ?thesis by auto
qed

theorem upsert_confuses_reassigned_address_witness:
  "\<exists>r s'. upsert [alice_record] 5 id (seen_at bob_mac host_ip) alice_store = Inr (s', r)
    \<and> rec_mac r = Some (show_mac alice_mac) \<and> rec_tag r = Some ''alice''
    \<and> s' (mac_key bob_mac) = None"
proof -
  have "dev_mac (seen_at bob_mac host_ip) = Some bob_mac"
    "holders (dev_ip (seen_at bob_mac host_ip)) alice_store = {mac_key alice_mac}"
    "alice_mac \<noteq> bob_mac" "alice_store (mac_key alice_mac) = Some alice_record"
    "rec_seen_count alice_record \<noteq> - 1"
    by (simp_all add: sample_simps)
  from upsert_confuses_reassigned_address [OF alice_store_inv alice_values this, of 5 id]
  show ?thesis using samples_distinct by (auto simp: alice_lookup)
qed

theorem upsert_loses_tag_after_sweep_witness:
  "\<exists>s1 r0 vals1 s2 r1. upsert [alice_record] 5 id (from_sweep host_ip) alice_store = Inr (s1, r0)
    \<and> upsert vals1 6 id (seen_at alice_mac host_ip) s1 = Inr (s2, r1)
    \<and> rec_tag alice_record = Some ''alice''
    \<and> s2 (mac_key alice_mac) = Some r1 \<and> rec_tag r1 = Some (show_ipv4 host_ip)"
proof -
  obtain r0 where first: "upsert [alice_record] 5 id (from_sweep host_ip) alice_store
      = Inr (alice_store(show_ipv4 host_ip \<mapsto> r0), r0)" and r0: "rec_seen_count r0 = 1"
    by (simp add: upsert_def ip_key_def upsert_entry_new sample_simps Let_def)
  let ?s1 = "alice_store(show_ipv4 host_ip \<mapsto> r0)"
  have vals1: "values_of [alice_record, r0] ?s1"
    by (auto simp: values_of_def alice_store_def intro!: exI [of _ "[mac_key alice_mac, show_ipv4 host_ip]"])
  have inv1: "store_inv ?s1" using upsert_step [OF alice_store_inv alice_values first] by simp
  have "?s1 k = Some old \<Longrightarrow> rec_seen_count old \<noteq> - 1" for k old
    using r0 by (auto simp: alice_store_def split: if_splits)
  with upsert_total_lemma [OF inv1 vals1, of 6 id "seen_at alice_mac host_ip"]
  obtain s2 r1 where second: "upsert [alice_record, r0] 6 id (seen_at alice_mac host_ip) ?s1 = Inr (s2, r1)"
    by (auto simp: returns_iff)
  have "alice_store (mac_key alice_mac) = Some alice_record" "rec_last_ip alice_record = show_ipv4 host_ip"
    "holders host_ip alice_store = {mac_key alice_mac}"
    by (simp_all add: sample_simps)
  from upsert_loses_tag_after_sweep [OF alice_store_inv this alice_values first vals1 _ _ second]
  show ?thesis using first second by auto
qed

end
