(* ===== verification/Dns_Packet.thy ===== *)
theory Dns_Packet
  imports Net_Types
begin

text \<open>
  The DNS message format as \<open>discovery/mdns.rs\<close> writes and reads it: the question packets
  \<open>build_ptr_query\<close> and \<open>build_a_query\<close>, and \<open>decode_label\<close>, which follows compression
  pointers and keeps the positions it has visited so that a pointer loop ends. Every index and
  slice of the source is a checked operation here.
\<close>

section \<open>Questions\<close>

text \<open>The loop over the labels of a name: empty labels are skipped, the length is written as a
  \<open>u8\<close>.\<close>

fun encode_labels :: "string list \<Rightarrow> bytes" where
  "encode_labels [] = []"
| "encode_labels (label # rest) =
     (if label = [] then encode_labels rest
      else of_nat (length label) # map byte_of_char label @ encode_labels rest)"

definition build_ptr_query :: "string \<Rightarrow> 16 word \<Rightarrow> bytes" where
  "build_ptr_query name transaction_id =
     u16_bytes transaction_id @ [0x00, 0x00] @ [0x00, 0x01] @ [0x00, 0x00] @ [0x00, 0x00]
     @ [0x00, 0x00] @ encode_labels (split_char CHR ''.'' name) @ [0x00] @ [0x00, 0x0C] @ [0x00, 0x01]"

definition build_a_query :: "string \<Rightarrow> 16 word \<Rightarrow> bytes" where
  "build_a_query name transaction_id =
     u16_bytes transaction_id @ [0x00, 0x00] @ [0x00, 0x01] @ [0x00, 0x00] @ [0x00, 0x00]
     @ [0x00, 0x00] @ encode_labels (split_char CHR ''.'' name) @ [0x00] @ [0x00, 0x01] @ [0x00, 0x01]"

definition arpa_name :: "ipv4 \<Rightarrow> string" where
  "arpa_name ip =
     show_nat (unat (octet 3 ip)) @ ''.'' @ show_nat (unat (octet 2 ip)) @ ''.''
     @ show_nat (unat (octet 1 ip)) @ ''.'' @ show_nat (unat (octet 0 ip)) @ ''.in-addr.arpa''"

section \<open>Reading names\<close>

definition or_end :: "nat option \<Rightarrow> nat \<Rightarrow> nat option" where
  "or_end end_pos p = (case end_pos of None \<Rightarrow> Some p | Some e \<Rightarrow> Some e)"

definition unvisited :: "bytes \<Rightarrow> nat list \<Rightarrow> nat set" where
  "unvisited data visited = {..<length data} - set visited"

lemma card_unvisited:
  "pos < length data \<Longrightarrow> pos \<notin> set visited \<Longrightarrow>
   card (unvisited data (pos # visited)) < card (unvisited data visited)"
proof -
  assume "pos < length data" "pos \<notin> set visited"
  then have "unvisited data (pos # visited) \<subset> unvisited data visited"
    by (auto simp: unvisited_def)
  then show ?thesis by (intro psubset_card_mono) (simp_all add: unvisited_def)
qed

function decode_loop ::
  "bytes \<Rightarrow> nat \<Rightarrow> nat list \<Rightarrow> string list \<Rightarrow> nat option \<Rightarrow> (string \<times> nat) option outcome" where
  "decode_loop data pos visited parts end_pos =
     (if length data \<le> pos then Inr None
      else if pos \<in> set visited then Inr None
      else
        (case index_at data pos of Inl e \<Rightarrow> Inl e
         | Inr byte \<Rightarrow>
           if byte = 0x00 then
             (let end_pos' = or_end end_pos (pos + 1)
              in Inr (Some (join_with ''.'' parts,
                            case end_pos' of Some e \<Rightarrow> e | None \<Rightarrow> pos + 1)))
           else if byte AND 0xC0 = 0xC0 then
             (if length data \<le> pos + 1 then Inr None
              else (case index_at data (pos + 1) of Inl e \<Rightarrow> Inl e
                    | Inr low \<Rightarrow>
                      decode_loop data (unat (u16_be (byte AND 0x3F) low)) (pos # visited) parts
                        (or_end end_pos (pos + 2))))
           else
             (let len = unat byte; start = pos + 1; stop = start + len
              in if length data < stop then Inr None
                 else (case slice data start stop of Inl e \<Rightarrow> Inl e
                       | Inr label \<Rightarrow>
                         decode_loop data stop (pos # visited) (parts @ [from_utf8_lossy label])
                           end_pos))))"
  by pat_completeness auto

termination
  by (relation "measure (\<lambda>(data, pos, visited, parts, end_pos). card (unvisited data visited))")
    (auto simp: card_unvisited)

declare decode_loop.simps [simp del]

definition decode_label :: "bytes \<Rightarrow> nat \<Rightarrow> (string \<times> nat) option outcome" where
  "decode_label data pos = decode_loop data pos [] [] None"

section \<open>Safety and bounds\<close>

lemma decode_loop_returns: "returns (decode_loop data pos visited parts end_pos)"
proof (induction data pos visited parts end_pos rule: decode_loop.induct)
  case (1 data pos visited parts end_pos)
  show ?case
  proof (cases "length data \<le> pos \<or> pos \<in> set visited")
    case True
    then show ?thesis by (subst decode_loop.simps) auto
  next
    case False
    then have "index_at data pos = Inr (data ! pos)" by (simp add: checked_simps)
    with False 1 show ?thesis
      by (subst decode_loop.simps) (auto simp: checked_simps Let_def)
  qed
qed

text \<open>What a successful decoding says about the position behind the name.\<close>

lemma decode_loop_bounds:
  "decode_loop data pos visited parts end_pos = Inr (Some (name, next)) \<Longrightarrow>
   case end_pos of None \<Rightarrow> pos < next \<and> next \<le> length data | Some e \<Rightarrow> next = e"
proof (induction data pos visited parts end_pos rule: decode_loop.induct)
  case (1 data pos visited parts end_pos)
  have range: "pos < length data" "pos \<notin> set visited"
    using "1.prems" by (auto simp: decode_loop.simps [of data pos] split: if_splits)
  then have byte: "index_at data pos = Inr (data ! pos)" by (simp add: checked_simps)
  consider (zero) "data ! pos = 0" | (pointer) "data ! pos \<noteq> 0" "data ! pos AND 0xC0 = 0xC0"
    | (label) "data ! pos \<noteq> 0" "data ! pos AND 0xC0 \<noteq> 0xC0" by blast
  then show ?case
  proof cases
    case zero
    with "1.prems" range byte show ?thesis
      by (auto simp: decode_loop.simps [of data pos] or_end_def Let_def split: option.splits)
  next
    case pointer
    then have more: "pos + 1 < length data"
      using "1.prems" range byte
      by (auto simp: decode_loop.simps [of data pos] split: if_splits)
    with "1.IH"(1) [of "data ! pos" "data ! (pos + 1)"] "1.prems" range byte pointer
    show ?thesis
      by (auto simp: decode_loop.simps [of data pos] checked_simps or_end_def split: option.splits)
  next
    case label
    then have "pos + 1 + unat (data ! pos) \<le> length data"
      using "1.prems" range byte
      by (auto simp: decode_loop.simps [of data pos] Let_def split: if_splits)
    with "1.IH"(2) [OF _ _ byte label refl refl refl] "1.prems" range byte label
    show ?thesis
      by (cases end_pos) (auto simp: decode_loop.simps [of data pos] checked_simps Let_def)
  qed
qed

section \<open>Round trip of names\<close>

definition text_ok :: "string \<Rightarrow> bool" where
  "text_ok l \<longleftrightarrow> length l < 192 \<and> from_utf8_lossy (map byte_of_char l) = l"

lemma length_byte_kind:
  assumes "0 < n" "n < 192"
  shows "(of_nat n :: byte) \<noteq> 0" "(of_nat n :: byte) AND 0xC0 \<noteq> 0xC0" "unat (of_nat n :: byte) = n"
proof -
  show n: "unat (of_nat n :: byte) = n" using assms by (simp add: unat_of_nat)
  then show "(of_nat n :: byte) \<noteq> 0" using assms(1) by (metis unat_0 less_numeral_extra(3))
  show "(of_nat n :: byte) AND 0xC0 \<noteq> 0xC0"
  proof
    assume "(of_nat n :: byte) AND 0xC0 = 0xC0"
    then have "0xC0 \<le> (of_nat n :: byte)" by (metis word_and_le2)
    then have "unat (0xC0 :: byte) \<le> n" using n by (simp add: word_le_nat_alt)
    then show False using assms(2) by simp
  qed
qed

lemma decode_loop_encoded:
  assumes "\<forall>l \<in> set ls. text_ok l" and "\<forall>v \<in> set visited. v < length pre"
  shows "decode_loop (pre @ encode_labels ls @ 0 # post) (length pre) visited parts None
    = Inr (Some (join_with ''.'' (parts @ filter (\<lambda>l. l \<noteq> []) ls),
                 length pre + length (encode_labels ls) + 1))"
  using assms
proof (induction ls arbitrary: pre visited parts)
  case Nil
  then show ?case
    by (subst decode_loop.simps) (auto simp: checked_simps or_end_def Let_def)
next
  case (Cons l ls)
  show ?case
  proof (cases "l = []")
    case True
    with Cons show ?thesis by simp
  next
    case False
    with Cons.prems have kind: "0 < length l" "length l < 192" by (auto simp: text_ok_def)
    let ?data = "pre @ encode_labels (l # ls) @ 0 # post"
    let ?pre = "pre @ of_nat (length l) # map byte_of_char l"
    have data: "?data = ?pre @ encode_labels ls @ 0 # post" using False by simp
    have first: "?data ! length pre = of_nat (length l)" using False by simp
    have stop: "length ?pre = length pre + 1 + length l" by simp
    have "pre @ of_nat (length l) # map byte_of_char l @ encode_labels ls @ 0 # post
        = (pre @ [of_nat (length l)]) @ map byte_of_char l @ encode_labels ls @ 0 # post" by simp
    then have cut: "take (length l) (drop (length pre + 1) ?data) = map byte_of_char l"
      using False by simp
    have label: "from_utf8_lossy (map byte_of_char l) = l"
      using Cons.prems(1) by (simp add: text_ok_def)
    have "decode_loop ?data (length pre) visited parts None
        = decode_loop ?data (length ?pre) (length pre # visited) (parts @ [l]) None"
      using Cons.prems(2) first length_byte_kind [OF kind] cut label False
      by (subst decode_loop.simps) (auto simp: checked_simps Let_def)
    also have "\<dots> = Inr (Some (join_with ''.'' ((parts @ [l]) @ filter (\<lambda>l. l \<noteq> []) ls),
        length ?pre + length (encode_labels ls) + 1))"
      unfolding data
    proof (rule Cons.IH)
      show "\<forall>l \<in> set ls. text_ok l" using Cons.prems(1) by simp
      show "\<forall>v \<in> set (length pre # visited). v < length ?pre"
        using Cons.prems(2) by (auto intro: less_trans)
    qed
    finally show ?thesis using False by simp
  qed
qed

text \<open>
  The contract of a query builder: a header that announces one question, the labels of the
  name, the terminating zero byte, the question type and the class. Both builders of
  \<open>mdns.rs\<close> and the one of \<open>passive.rs\<close> satisfy it; a decoder reads the name back.
\<close>

locale query_builder =
  fixes build :: "string \<Rightarrow> 16 word \<Rightarrow> bytes"
    and qtype :: byte
  assumes layout: "build name tid =
    u16_bytes tid @ [0, 0, 0, 1, 0, 0, 0, 0, 0, 0]
    @ encode_labels (split_char CHR ''.'' name) @ 0 # [0, qtype, 0, 1]"
begin

lemma length_build:
  "length (build name tid) = 17 + length (encode_labels (split_char CHR ''.'' name))"
  by (simp add: layout)

lemma decode_build:
  assumes "\<forall>l \<in> set (split_char CHR ''.'' name). text_ok l"
  shows "decode_label (build name tid) 12
    = Inr (Some (join_with ''.'' (filter (\<lambda>l. l \<noteq> []) (split_char CHR ''.'' name)),
                 length (build name tid) - 4))"
proof -
  define pre where "pre = u16_bytes tid @ [0, 0, 0, 1, 0, 0, 0, 0, 0, 0]"
  have pos: "length pre = 12" by (simp add: pre_def)
  have build: "build name tid
      = pre @ encode_labels (split_char CHR ''.'' name) @ 0 # [0, qtype, 0, 1]"
    by (simp add: layout pre_def)
  have "decode_loop (build name tid) 12 [] [] None
      = Inr (Some (join_with ''.'' ([] @ filter (\<lambda>l. l \<noteq> []) (split_char CHR ''.'' name)),
                   12 + length (encode_labels (split_char CHR ''.'' name)) + 1))"
    unfolding build pos [symmetric] by (rule decode_loop_encoded) (simp_all add: assms)
  then show ?thesis
    by (simp add: decode_label_def length_build)
qed

lemma one_question: "build name tid ! 4 = 0" "build name tid ! 5 = 1"
  by (simp_all add: layout u16_bytes_def numeral_eq_Suc)

end

interpretation ptr: query_builder build_ptr_query "0x0C"
  by unfold_locales (simp add: build_ptr_query_def)

interpretation host: query_builder build_a_query "0x01"
  by unfold_locales (simp add: build_a_query_def)

lemma text_ok_ascii: "(\<And>c. c \<in> set l \<Longrightarrow> of_char c < (128 :: nat)) \<Longrightarrow> length l < 192 \<Longrightarrow> text_ok l"
proof -
  assume ascii: "\<And>c. c \<in> set l \<Longrightarrow> of_char c < (128 :: nat)" and "length l < 192"
  have "b \<in> set (map byte_of_char l) \<Longrightarrow> b < 0x80" for b
    using ascii by (auto simp: byte_of_char_def word_less_nat_alt unat_of_nat)
  with from_utf8_lossy_ascii [of "map byte_of_char l"] \<open>length l < 192\<close>
  show ?thesis by (simp add: text_ok_def comp_def)
qed

lemma show_nat_byte_text: "text_ok (show_nat (unat (b :: byte)))"
proof (rule text_ok_ascii)
  fix c
  assume "c \<in> set (show_nat (unat b))"
  then show "of_char c < (128 :: nat)" by (auto dest!: show_nat_digits)
next
  show "length (show_nat (unat b)) < 192"
    using length_show_nat_byte [of "unat b"] by simp
qed

lemma arpa_labels:
  "split_char CHR ''.'' (arpa_name ip) =
     map (\<lambda>i. show_nat (unat (octet i ip))) [3, 2, 1, 0] @ [''in-addr'', ''arpa'']"
  by (simp add: arpa_name_def split_char_append show_nat_no_dot)

text \<open>C22: round trip of the reverse lookup. For every address the PTR question the code sends
  decodes to the very name \<open>d.c.b.a.in-addr.arpa\<close>, and the decoder stops four bytes before the
  end of the packet, at the question type.\<close>

theorem arpa_query_round_trip:
  "decode_label (build_ptr_query (arpa_name ip) tid) 12
     = Inr (Some (arpa_name ip, length (build_ptr_query (arpa_name ip) tid) - 4))"
proof -
  have "\<forall>l \<in> set (split_char CHR ''.'' (arpa_name ip)). text_ok l \<and> l \<noteq> []"
    by (auto simp: arpa_labels show_nat_byte_text intro!: text_ok_ascii)
  then have "filter (\<lambda>l. l \<noteq> []) (split_char CHR ''.'' (arpa_name ip)) = split_char CHR ''.'' (arpa_name ip)"
    and "\<forall>l \<in> set (split_char CHR ''.'' (arpa_name ip)). text_ok l"
    by (auto simp: filter_id_conv)
  with ptr.decode_build [of "arpa_name ip" tid] show ?thesis by (simp add: join_split)
qed

text \<open>Round trip of a name in general. A name whose labels are not empty, at most 191 bytes
  long and ASCII survives encoding and decoding, in a PTR and in an A question alike, with
  exactly one question announced.\<close>

theorem query_round_trip:
  assumes "\<forall>l \<in> set (split_char CHR ''.'' name). l \<noteq> [] \<and> length l < 192"
    and "\<forall>c \<in> set name. of_char c < (128 :: nat)"
  shows "decode_label (build_ptr_query name tid) 12
      = Inr (Some (name, length (build_ptr_query name tid) - 4))
    \<and> decode_label (build_a_query name tid) 12
      = Inr (Some (name, length (build_a_query name tid) - 4))
    \<and> take 2 (drop 4 (build_ptr_query name tid)) = [0, 1]
    \<and> take 2 (drop 4 (build_a_query name tid)) = [0, 1]"
proof -
  have "c \<in> set name" if "l \<in> set (split_char CHR ''.'' name)" "c \<in> set l" for c l
    using that split_char_subset by blast
  then have "\<forall>l \<in> set (split_char CHR ''.'' name). text_ok l"
    using assms by (auto intro!: text_ok_ascii)
  moreover have "filter (\<lambda>l. l \<noteq> []) (split_char CHR ''.'' name) = split_char CHR ''.'' name"
    using assms(1) by (simp add: filter_id_conv)
  ultimately show ?thesis
    using ptr.decode_build [of name tid] host.decode_build [of name tid]
    by (simp add: join_split ptr.layout host.layout u16_bytes_def)
qed

lemma decode_label_returns: "\<exists>r. decode_label data pos = Inr r"
  using decode_loop_returns [of data pos "[]" "[]" None]
  by (simp add: decode_label_def returns_iff)

lemma decode_label_bounds:
  "decode_label data pos = Inr (Some (name, next)) \<Longrightarrow> pos < next \<and> next \<le> length data"
  using decode_loop_bounds [of data pos "[]" "[]" None] by (simp add: decode_label_def)

text \<open>C21: decoding a name is safe on every packet, however malformed: it always ends, never
  indexes or slices out of range, and where it succeeds the position behind the name lies
  behind the start and inside the packet.\<close>

theorem decode_label_safe:
  "\<exists>r. decode_label data pos = Inr r
     \<and> (case r of None \<Rightarrow> True | Some (name, next) \<Rightarrow> pos < next \<and> next \<le> length data)"
  using decode_label_returns [of data pos] decode_label_bounds [of data pos]
  by (auto split: option.splits)

end
