(* ===== verification/Mdns.thy ===== *)
theory Mdns
  imports Dns_Packet "HOL-Library.Multiset"
begin

text \<open>
  \<open>discovery/mdns.rs\<close>: the parser of mDNS answers, the choice of a host name among the
  candidates, and the three lookups whose results \<open>query_ip\<close> combines. A lookup's socket is
  the list of what \<open>recv_from\<close> returns before the deadline; the datagrams a lookup sends are
  part of its value. The verbose output is left out.
\<close>

section \<open>Names and services\<close>

definition known_services :: "string list" where
  "known_services =
     [''local'', ''in-addr'', ''arpa'', ''androidtvremote2'', ''googlecast'', ''rc'', ''raop'',
      ''airplay'', ''privet'', ''spotify-connect'', ''companion-link'', ''sleep-proxy'']"

definition is_service_label :: "string \<Rightarrow> bool" where
  "is_service_label s \<longleftrightarrow>
     starts_with s ''_'' \<or> str_contains s ''._tcp'' \<or> str_contains s ''._udp''
     \<or> to_lowercase s \<in> set known_services"

definition hostname_score :: "(nat \<Rightarrow> bool) \<Rightarrow> string \<Rightarrow> nat" where
  "hostname_score unicode_upper n =
     (if (case first_char n of None \<Rightarrow> False | Some c \<Rightarrow> is_uppercase unicode_upper c) then 3
      else if CHR ''-'' \<in> set n then 2
      else 1)"

definition best_hostname :: "(nat \<Rightarrow> bool) \<Rightarrow> string list \<Rightarrow> string option" where
  "best_hostname unicode_upper names =
     (let kept = retain_new []
            (filter (\<lambda>n. n \<noteq> [] \<and> 1 < length n \<and> \<not> is_service_label n) names);
          scored = map (\<lambda>n. (n, hostname_score unicode_upper n)) kept
      in map_option fst (max_by_key snd scored))"

definition extract_service_type :: "string \<Rightarrow> string option" where
  "extract_service_type name =
     (if \<not> starts_with name ''_'' then None
      else (case split_char CHR ''.'' name of
              service # proto # _ \<Rightarrow>
                if (proto = ''_tcp'' \<or> proto = ''_udp'') \<and> 1 < length service then
                  (let clean = trim_start_char CHR ''_'' service
                   in if clean \<noteq> [] then Some clean else None)
                else None
            | _ \<Rightarrow> None))"

definition push_service :: "string \<Rightarrow> string list \<Rightarrow> string list" where
  "push_service name services =
     (case extract_service_type name of None \<Rightarrow> services | Some svc \<Rightarrow> services @ [svc])"

section \<open>The parser\<close>

record parse_result =
  pr_names :: "string list"
  pr_services :: "string list"

definition read_u16 :: "bytes \<Rightarrow> nat \<Rightarrow> 16 word outcome" where
  "read_u16 data i =
     outcome_bind (index_at data i)
       (\<lambda>hi. outcome_bind (index_at data (i + 1)) (\<lambda>lo. Inr (u16_be hi lo)))"

fun question_loop :: "bytes \<Rightarrow> nat \<Rightarrow> nat \<Rightarrow> string list \<Rightarrow> (nat \<times> string list) outcome" where
  "question_loop data 0 pos services = Inr (pos, services)"
| "question_loop data (Suc n) pos services =
     (case decode_label data pos of Inl e \<Rightarrow> Inl e
      | Inr None \<Rightarrow> Inr (pos, services)
      | Inr (Some (name, next)) \<Rightarrow>
          question_loop data n (next + 4) (push_service name services))"

text \<open>The data of a PTR, SRV, A and TXT record.\<close>

definition ptr_rdata :: "bytes \<Rightarrow> nat \<Rightarrow> string list \<Rightarrow> string list \<Rightarrow> (string list \<times> string list) outcome" where
  "ptr_rdata data pos names services =
     (case decode_label data pos of Inl e \<Rightarrow> Inl e
      | Inr None \<Rightarrow> Inr (names, services)
      | Inr (Some (rdata, _)) \<Rightarrow>
          (let services' = push_service rdata services
           in case split_char CHR ''.'' rdata of
                [] \<Rightarrow> Inr (names, services')
              | instance # _ \<Rightarrow>
                  (let s = trim_start_char CHR ''_'' instance
                   in if s \<noteq> [] \<and> \<not> is_service_label s then Inr (names @ [s], services')
                      else Inr (names, services'))))"

definition host_label :: "string \<Rightarrow> string" where
  "host_label name = trim_end_matches ''.'' (trim_end_matches ''.local'' name)"

definition push_host :: "string \<Rightarrow> string list \<Rightarrow> string list" where
  "push_host name names =
     (let h = host_label name
      in if h \<noteq> [] \<and> \<not> is_service_label h then names @ [h] else names)"

definition srv_rdata :: "bytes \<Rightarrow> nat \<Rightarrow> string list \<Rightarrow> string list outcome" where
  "srv_rdata data pos names =
     (if pos + 6 \<le> length data then
        (case decode_label data (pos + 6) of Inl e \<Rightarrow> Inl e
         | Inr None \<Rightarrow> Inr names
         | Inr (Some (host, _)) \<Rightarrow> Inr (push_host host names))
      else Inr names)"

definition txt_value :: "bytes \<Rightarrow> string option" where
  "txt_value bs =
     (case from_utf8 bs of None \<Rightarrow> None
      | Some txt \<Rightarrow>
          (case strip_prefix txt ''fn='' of Some v \<Rightarrow> Some v | None \<Rightarrow> strip_prefix txt ''n=''))"

function txt_rdata :: "bytes \<Rightarrow> nat \<Rightarrow> nat \<Rightarrow> string list \<Rightarrow> string list outcome" where
  "txt_rdata data p stop names =
     (if p < stop then
        (case index_at data p of Inl e \<Rightarrow> Inl e
         | Inr b \<Rightarrow>
           (let len = unat b; q = p + 1
            in if stop < q + len then Inr names
               else (case slice data q (q + len) of Inl e \<Rightarrow> Inl e
                     | Inr bs \<Rightarrow>
                       txt_rdata data (q + len) stop
                         (case txt_value bs of None \<Rightarrow> names | Some v \<Rightarrow> names @ [v]))))
      else Inr names)"
  by pat_completeness auto
termination
  by (relation "measure (\<lambda>(data, p, stop, names). stop - p)") auto

declare txt_rdata.simps [simp del]

definition rdata_step ::
  "bytes \<Rightarrow> nat \<Rightarrow> 16 word \<Rightarrow> nat \<Rightarrow> string \<Rightarrow> string list \<Rightarrow> string list \<Rightarrow>
   (string list \<times> string list) outcome" where
  "rdata_step data pos rtype rdlen name names services =
     (if rtype = 0x000C then ptr_rdata data pos names services
      else if rtype = 0x0021 then
        outcome_bind (srv_rdata data pos names) (\<lambda>ns. Inr (ns, services))
      else if rtype = 0x0001 then Inr (push_host name names, services)
      else if rtype = 0x0010 then
        outcome_bind (txt_rdata data pos (min (pos + rdlen) (length data)) names)
          (\<lambda>ns. Inr (ns, services))
      else Inr (names, services))"

fun record_loop ::
  "bytes \<Rightarrow> nat \<Rightarrow> nat \<Rightarrow> string list \<Rightarrow> string list \<Rightarrow> (string list \<times> string list) outcome" where
  "record_loop data 0 pos names services = Inr (names, services)"
| "record_loop data (Suc n) pos names services =
     (if length data \<le> pos then Inr (names, services)
      else
        (case decode_label data pos of Inl e \<Rightarrow> Inl e
         | Inr None \<Rightarrow> Inr (names, services)
         | Inr (Some (name, pos1)) \<Rightarrow>
             (let services1 = push_service name services
              in if length data < pos1 + 10 then Inr (names, services1)
                 else
                   (case read_u16 data pos1 of Inl e \<Rightarrow> Inl e
                    | Inr rtype \<Rightarrow>
                      (case read_u16 data (pos1 + 8) of Inl e \<Rightarrow> Inl e
                       | Inr rdlen \<Rightarrow>
                         (case rdata_step data (pos1 + 10) rtype (unat rdlen) name names services1 of
                            Inl e \<Rightarrow> Inl e
                          | Inr (names2, services2) \<Rightarrow>
                              record_loop data n (pos1 + 10 + unat rdlen) names2 services2))))))"

definition no_records :: parse_result where
  "no_records = \<lparr>pr_names = [], pr_services = []\<rparr>"

definition parse_mdns_records :: "bytes \<Rightarrow> parse_result outcome" where
  "parse_mdns_records data =
     (if length data < 12 then Inr no_records
      else
        outcome_bind (read_u16 data 4) (\<lambda>questions.
        outcome_bind (read_u16 data 6) (\<lambda>answer_rrs.
        outcome_bind (read_u16 data 8) (\<lambda>authority_rrs.
        outcome_bind (read_u16 data 10) (\<lambda>additional_rrs.
          (let total_rrs = unat answer_rrs + unat authority_rrs + unat additional_rrs
           in if total_rrs = 0 then Inr no_records
              else
                outcome_bind (question_loop data (unat questions) 12 []) (\<lambda>(pos, svcs).
                outcome_bind (record_loop data total_rrs pos [] svcs) (\<lambda>(ns, svcs').
                  Inr \<lparr>pr_names = ns, pr_services = retain_new [] svcs'\<rparr>))))))))"

section \<open>The lookups\<close>

record mdns_result =
  mdns_hostname :: string
  mdns_services :: "string list"

text \<open>What one call of \<open>recv_from\<close> gives: the bytes and the sender (\<open>None\<close> for an IPv6
  sender), or an error (a timeout among them).\<close>

datatype recv = Datagram bytes "ipv4 option" | Recv_Error

fun collect_unicast ::
  "ipv4 \<Rightarrow> recv list \<Rightarrow> string list \<Rightarrow> string list \<Rightarrow> (string list \<times> string list) outcome" where
  "collect_unicast ip [] candidates svcs = Inr (candidates, svcs)"
| "collect_unicast ip (Recv_Error # rest) candidates svcs = Inr (candidates, svcs)"
| "collect_unicast ip (Datagram data src # rest) candidates svcs =
     (if src \<noteq> Some ip then collect_unicast ip rest candidates svcs
      else (case parse_mdns_records data of Inl e \<Rightarrow> Inl e
            | Inr parsed \<Rightarrow>
                collect_unicast ip rest (candidates @ pr_names parsed) (svcs @ pr_services parsed)))"

fun collect_multicast ::
  "ipv4 \<Rightarrow> recv list \<Rightarrow> string list \<Rightarrow> string list \<Rightarrow> (string list \<times> string list) outcome" where
  "collect_multicast ip [] candidates svcs = Inr (candidates, svcs)"
| "collect_multicast ip (Recv_Error # rest) candidates svcs = collect_multicast ip rest candidates svcs"
| "collect_multicast ip (Datagram data src # rest) candidates svcs =
     (if src \<noteq> Some ip then collect_multicast ip rest candidates svcs
      else (case parse_mdns_records data of Inl e \<Rightarrow> Inl e
            | Inr parsed \<Rightarrow>
                collect_multicast ip rest (candidates @ pr_names parsed) (svcs @ pr_services parsed)))"

definition mdns_answer :: "(nat \<Rightarrow> bool) \<Rightarrow> string list \<times> string list \<Rightarrow> mdns_result option" where
  "mdns_answer uu cs =
     map_option (\<lambda>h. \<lparr>mdns_hostname = h, mdns_services = snd cs\<rparr>) (best_hostname uu (fst cs))"

record datagram =
  dg_to :: ipv4
  dg_port :: "16 word"
  dg_payload :: bytes

definition multicast_addr :: ipv4 where
  "multicast_addr = ipv4_new 224 0 0 251"

definition mdns_port :: "16 word" where
  "mdns_port = 5353"

definition unicast_queries :: "ipv4 \<Rightarrow> datagram list" where
  "unicast_queries ip =
     map (\<lambda>pkt. \<lparr>dg_to = ip, dg_port = mdns_port, dg_payload = pkt\<rparr>)
       [build_ptr_query (arpa_name ip) 1,
        build_a_query ''_workstation._tcp.local'' 2,
        build_a_query ''_device-info._tcp.local'' 3]"

definition multicast_services :: "string list" where
  "multicast_services =
     [''_services._dns-sd._udp.local'', ''_apple-mobdev2._tcp.local'', ''_device-info._tcp.local'',
      ''_workstation._tcp.local'', ''_http._tcp.local'']"

definition multicast_queries :: "datagram list" where
  "multicast_queries =
     map (\<lambda>service. \<lparr>dg_to = multicast_addr, dg_port = mdns_port, dg_payload = build_ptr_query service 0\<rparr>)
       multicast_services"

definition reverse_query :: "ipv4 \<Rightarrow> bytes" where
  "reverse_query ip =
     [0, 2, 0, 0, 0, 1, 0, 0, 0, 0, 0, 0]
     @ concat (map (\<lambda>label. of_nat (length label) # map byte_of_char label)
         (split_char CHR ''.'' (arpa_name ip)))
     @ [0, 0, 0x0C, 0, 1]"

text \<open>A socket is \<open>None\<close> when it could not be opened or set up. A lookup gives the datagrams it
  sends and its result.\<close>

type_synonym lookup = "datagram list \<times> mdns_result option outcome"

definition unicast_mdns :: "(nat \<Rightarrow> bool) \<Rightarrow> ipv4 \<Rightarrow> recv list option \<Rightarrow> lookup" where
  "unicast_mdns uu ip socket =
     (case socket of None \<Rightarrow> ([], Inr None)
      | Some events \<Rightarrow>
          (unicast_queries ip,
           outcome_bind (collect_unicast ip events [] []) (\<lambda>cs. Inr (mdns_answer uu cs))))"

definition multicast_passive :: "(nat \<Rightarrow> bool) \<Rightarrow> ipv4 \<Rightarrow> recv list option \<Rightarrow> lookup" where
  "multicast_passive uu ip socket =
     (case socket of None \<Rightarrow> ([], Inr None)
      | Some events \<Rightarrow>
          (multicast_queries,
           outcome_bind (collect_multicast ip events [] []) (\<lambda>cs. Inr (mdns_answer uu cs))))"

definition unicast_dns_reverse :: "(nat \<Rightarrow> bool) \<Rightarrow> ipv4 \<Rightarrow> recv list option \<Rightarrow> lookup" where
  "unicast_dns_reverse uu ip socket =
     (case socket of None \<Rightarrow> ([], Inr None)
      | Some events \<Rightarrow>
          ([\<lparr>dg_to = ip, dg_port = 53, dg_payload = reverse_query ip\<rparr>],
           (case events of
              Datagram data _ # _ \<Rightarrow>
                outcome_bind (parse_mdns_records data)
                  (\<lambda>parsed. Inr (mdns_answer uu (pr_names parsed, pr_services parsed)))
            | _ \<Rightarrow> Inr None)))"

text \<open>\<open>thread.join().ok().flatten()\<close>: a panic of the thread is no result.\<close>

definition join_thread :: "'a option outcome \<Rightarrow> 'a option" where
  "join_thread m = (case m of Inl _ \<Rightarrow> None | Inr r \<Rightarrow> r)"

definition query_ip ::
  "(nat \<Rightarrow> bool) \<Rightarrow> ipv4 \<Rightarrow> recv list option \<Rightarrow> recv list option \<Rightarrow> recv list option \<Rightarrow>
   mdns_result option" where
  "query_ip uu ip s1 s2 s3 =
     (let r1 = join_thread (snd (unicast_mdns uu ip s1));
          r2 = join_thread (snd (multicast_passive uu ip s2));
          r3 = join_thread (snd (unicast_dns_reverse uu ip s3))
      in if r1 \<noteq> None then r1 else if r2 \<noteq> None then r2 else r3)"

text \<open>\<open>resolve_bulk\<close> over the tasks in the order they complete.\<close>

fun collect_results ::
  "(ipv4 \<times> mdns_result option) list \<Rightarrow> (ipv4 \<rightharpoonup> mdns_result) \<Rightarrow> (ipv4 \<rightharpoonup> mdns_result)" where
  "collect_results [] m = m"
| "collect_results ((ip, res) # rest) m =
     collect_results rest (case res of None \<Rightarrow> m | Some r \<Rightarrow> m(ip \<mapsto> r))"

definition resolve_bulk :: "(ipv4 \<times> mdns_result option) list \<Rightarrow> (ipv4 \<rightharpoonup> mdns_result)" where
  "resolve_bulk completed = collect_results completed Map.empty"

section \<open>Safety of the parser\<close>

definition service_ok :: "string \<Rightarrow> bool" where
  "service_ok s \<longleftrightarrow> s \<noteq> [] \<and> hd s \<noteq> CHR ''_'' \<and> CHR ''.'' \<notin> set s"

lemma extract_service_type_ok: "extract_service_type name = Some s \<Longrightarrow> service_ok s"
proof -
  assume "extract_service_type name = Some s"
  then obtain service rest where split: "split_char CHR ''.'' name = service # rest"
    and s: "s = trim_start_char CHR ''_'' service" "s \<noteq> []"
    by (auto simp: extract_service_type_def Let_def split: list.splits if_splits)
  have "CHR ''.'' \<notin> set service" using split split_char_no_sep [of service "CHR ''.''" name] by simp
  then have "CHR ''.'' \<notin> set s" by (auto simp: s trim_start_char_def dest: set_dropWhileD)
  moreover have "hd s \<noteq> CHR ''_''" using s trim_start_char_hd by blast
  ultimately show ?thesis using s(2) by (simp add: service_ok_def)
qed

lemma push_service_ok: "list_all service_ok svcs \<Longrightarrow> list_all service_ok (push_service name svcs)"
  by (auto simp: push_service_def dest: extract_service_type_ok split: option.splits)

lemma read_u16_Inr: "i + 2 \<le> length data \<Longrightarrow> read_u16 data i = Inr (u16_be (data ! i) (data ! (i + 1)))"
  by (simp add: read_u16_def checked_simps)

definition good_services :: "('a \<times> string list) outcome \<Rightarrow> bool" where
  "good_services m \<longleftrightarrow> (case m of Inl _ \<Rightarrow> False | Inr (_, svcs) \<Rightarrow> list_all service_ok svcs)"

lemma good_services_simps [simp]:
  "good_services (Inr (x, svcs)) \<longleftrightarrow> list_all service_ok svcs" "\<not> good_services (Inl e)"
  by (simp_all add: good_services_def)

lemma good_servicesE:
  assumes "good_services m"
  obtains x svcs where "m = Inr (x, svcs)" "list_all service_ok svcs"
  using assms by (auto simp: good_services_def split: sum.splits)

lemma question_loop_good:
  "list_all service_ok svcs \<Longrightarrow> good_services (question_loop data n pos svcs)"
proof (induction n arbitrary: pos svcs)
  case (Suc n)
  obtain r where "decode_label data pos = Inr r" using decode_label_returns by blast
  with Suc show ?case by (cases r) (auto simp: push_service_ok)
qed simp

lemma txt_rdata_returns: "stop \<le> length data \<Longrightarrow> returns (txt_rdata data p stop ns)"
proof (induction data p stop ns rule: txt_rdata.induct)
  case (1 data p stop ns)
  show ?case
  proof (cases "p < stop")
    case True
    then have "p < length data" using "1.prems" by simp
    with 1 True show ?thesis by (subst txt_rdata.simps) (auto simp: checked_simps Let_def)
  next
    case False
    then show ?thesis by (subst txt_rdata.simps) simp
  qed
qed

lemma srv_rdata_returns: "returns (srv_rdata data pos ns)"
  using decode_label_returns [of data "pos + 6"] by (auto simp: srv_rdata_def split: option.splits)

lemma ptr_rdata_good:
  "list_all service_ok svcs \<Longrightarrow> good_services (ptr_rdata data pos ns svcs)"
proof -
  assume "list_all service_ok svcs"
  moreover obtain r where "decode_label data pos = Inr r" using decode_label_returns by blast
  ultimately show ?thesis
    by (cases r) (auto simp: ptr_rdata_def push_service_ok Let_def split: list.split)
qed

lemma rdata_step_good:
  assumes "list_all service_ok svcs"
  shows "good_services (rdata_step data pos rtype rdlen name ns svcs)"
proof -
  obtain ns1 where srv: "srv_rdata data pos ns = Inr ns1"
    using srv_rdata_returns by (rule returnsE)
  have "returns (txt_rdata data pos (min (pos + rdlen) (length data)) ns)"
    by (rule txt_rdata_returns) simp
  then obtain ns2 where rtxt: "txt_rdata data pos (min (pos + rdlen) (length data)) ns = Inr ns2"
    by (rule returnsE)
  show ?thesis
    unfolding rdata_step_def using assms by (simp add: ptr_rdata_good srv rtxt)
qed

lemma record_loop_good:
  "list_all service_ok svcs \<Longrightarrow> good_services (record_loop data n pos ns svcs)"
proof (induction n arbitrary: pos ns svcs)
  case (Suc n)
  obtain r where dec: "decode_label data pos = Inr r" using decode_label_returns by blast
  show ?case
  proof (cases r)
    case None
    with dec Suc.prems show ?thesis by simp
  next
    case (Some p)
    obtain name pos1 where p: "p = (name, pos1)" by fastforce
    have svcs1: "list_all service_ok (push_service name svcs)" using Suc.prems by (rule push_service_ok)
    show ?thesis
    proof (cases "length data < pos1 + 10")
      case True
      with dec Some p svcs1 Suc.prems show ?thesis by simp
    next
      case False
      then have u: "read_u16 data pos1 = Inr (u16_be (data ! pos1) (data ! (pos1 + 1)))"
        "read_u16 data (pos1 + 8) = Inr (u16_be (data ! (pos1 + 8)) (data ! (pos1 + 8 + 1)))"
        by (simp_all only: read_u16_Inr)
      let ?rtype = "u16_be (data ! pos1) (data ! (pos1 + 1))"
      let ?rdlen = "unat (u16_be (data ! (pos1 + 8)) (data ! (pos1 + 8 + 1)))"
      obtain ns2 svcs2 where
        "rdata_step data (pos1 + 10) ?rtype ?rdlen name ns (push_service name svcs) = Inr (ns2, svcs2)"
        and svcs2: "list_all service_ok svcs2"
        using rdata_step_good [OF svcs1] by (rule good_servicesE)
      with dec Some p False u Suc.prems Suc.IH [OF svcs2] show ?thesis
        by (simp del: add_Suc_right One_nat_def)
    qed
  qed
qed simp

lemma parse_mdns_records_good:
  "\<exists>r. parse_mdns_records data = Inr r \<and> distinct (pr_services r)
     \<and> list_all service_ok (pr_services r)"
proof (cases "length data < 12 \<or>
    unat (u16_be (data ! 6) (data ! 7)) + unat (u16_be (data ! 8) (data ! 9))
      + unat (u16_be (data ! 10) (data ! 11)) = 0")
  case True
  then show ?thesis
    by (auto simp: parse_mdns_records_def no_records_def read_u16_Inr Let_def)
next
  case False
  have "good_services (question_loop data (unat (u16_be (data ! 4) (data ! 5))) 12 [])"
    by (rule question_loop_good) simp
  then obtain pos svcs where q: "question_loop data (unat (u16_be (data ! 4) (data ! 5))) 12 [] = Inr (pos, svcs)"
    and svcs: "list_all service_ok svcs"
    by (rule good_servicesE)
  obtain ns svcs' where "record_loop data (unat (u16_be (data ! 6) (data ! 7))
      + unat (u16_be (data ! 8) (data ! 9)) + unat (u16_be (data ! 10) (data ! 11))) pos [] svcs
      = Inr (ns, svcs')" and "list_all service_ok svcs'"
    by (rule good_servicesE [OF record_loop_good [OF svcs]])
  with q False show ?thesis
    by (auto simp: parse_mdns_records_def read_u16_Inr Let_def distinct_retain_new
        set_retain_new list_all_iff)
qed

lemma parse_services_ok:
  "parse_mdns_records data = Inr r \<Longrightarrow> list_all service_ok (pr_services r)"
  using parse_mdns_records_good [of data] by auto

section \<open>Properties\<close>

text \<open>C12: the mDNS parser is safe on every datagram: it returns, with no index or slice out of
  range, and the services it reports are pairwise different, not empty, free of dots and not
  introduced by an underscore.\<close>

theorem parse_mdns_records_safe:
  "\<exists>r. parse_mdns_records data = Inr r \<and> distinct (pr_services r)
     \<and> list_all service_ok (pr_services r)"
  by (rule parse_mdns_records_good)

definition eligible :: "string \<Rightarrow> bool" where
  "eligible n \<longleftrightarrow> n \<noteq> [] \<and> 1 < length n \<and> \<not> is_service_label n"

lemma best_hostname_Some:
  assumes "best_hostname uu names = Some n"
  shows "n \<in> set names \<and> eligible n
    \<and> (\<forall>m \<in> set names. eligible m \<longrightarrow> hostname_score uu m \<le> hostname_score uu n)"
  using assms unfolding best_hostname_def eligible_def
  by (auto simp: Let_def set_retain_new dest!: max_by_key_Some)

lemma best_hostname_None:
  "best_hostname uu names = None \<longleftrightarrow> (\<forall>m \<in> set names. \<not> eligible m)"
proof -
  have "best_hostname uu names = None \<longleftrightarrow> retain_new [] (filter eligible names) = []"
    by (simp add: best_hostname_def eligible_def [abs_def] Let_def)
  also have "\<dots> \<longleftrightarrow> set (retain_new [] (filter eligible names)) = {}" by (rule set_empty [symmetric])
  also have "\<dots> \<longleftrightarrow> (\<forall>m \<in> set names. \<not> eligible m)" by (auto simp: set_retain_new)
  finally show ?thesis .
qed

text \<open>The host name chosen among the candidates. There is one exactly if some candidate is
  longer than a byte and no service label; it is such a candidate, and none of them scores
  higher (3 for a capital initial, 2 for a hyphen, 1 otherwise).\<close>

theorem best_hostname_spec:
  "case best_hostname uu names of
     None \<Rightarrow> \<not> (\<exists>m \<in> set names. eligible m)
   | Some n \<Rightarrow> n \<in> set names \<and> eligible n
       \<and> \<not> (\<exists>m \<in> set names. eligible m \<and> hostname_score uu n < hostname_score uu m)"
  using best_hostname_Some [of uu names] best_hostname_None [of uu names]
  by (fastforce split: option.splits)

section \<open>The lookups\<close>

definition from_host :: "ipv4 \<Rightarrow> recv \<Rightarrow> bool" where
  "from_host ip e = (case e of Datagram _ src \<Rightarrow> src = Some ip | Recv_Error \<Rightarrow> True)"

lemma collect_unicast_filter:
  "collect_unicast ip (filter (from_host ip) es) cs svcs = collect_unicast ip es cs svcs"
  by (induction ip es cs svcs rule: collect_unicast.induct)
    (auto simp: from_host_def split: sum.splits)

lemma collect_multicast_filter:
  "collect_multicast ip (filter (from_host ip) es) cs svcs = collect_multicast ip es cs svcs"
  by (induction ip es cs svcs rule: collect_multicast.induct)
    (auto simp: from_host_def split: sum.splits)

text \<open>C24: answers from other hosts. Whatever datagrams other hosts send to the sockets of the
  two mDNS lookups, the host name and services reported for an address are those its own
  datagrams give; the DNS reverse lookup takes its first datagram whoever sent it.\<close>

theorem query_ip_ignores_strangers:
  "query_ip uu ip s1 s2 s3 =
     query_ip uu ip (map_option (filter (from_host ip)) s1) (map_option (filter (from_host ip)) s2) s3
   \<and> query_ip uu ip None None (Some (Datagram data src # rest)) =
     query_ip uu ip None None (Some [Datagram data (Some ip)])"
  by (auto simp: query_ip_def unicast_mdns_def multicast_passive_def unicast_dns_reverse_def
      collect_unicast_filter collect_multicast_filter split: option.splits)

lemma collect_unicast_services:
  "collect_unicast ip es cs svcs = Inr (cs', svcs') \<Longrightarrow> list_all service_ok svcs \<Longrightarrow>
   list_all service_ok svcs'"
  by (induction ip es cs svcs rule: collect_unicast.induct)
    (auto split: sum.splits if_splits dest: parse_services_ok)

lemma collect_multicast_services:
  "collect_multicast ip es cs svcs = Inr (cs', svcs') \<Longrightarrow> list_all service_ok svcs \<Longrightarrow>
   list_all service_ok svcs'"
  by (induction ip es cs svcs rule: collect_multicast.induct)
    (auto split: sum.splits if_splits dest: parse_services_ok)

definition answer_ok :: "mdns_result option \<Rightarrow> bool" where
  "answer_ok r \<longleftrightarrow>
     (case r of None \<Rightarrow> True
      | Some a \<Rightarrow> eligible (mdns_hostname a) \<and> list_all service_ok (mdns_services a))"

lemma mdns_answer_ok: "list_all service_ok (snd cs) \<Longrightarrow> answer_ok (mdns_answer uu cs)"
  by (auto simp: mdns_answer_def answer_ok_def split: option.splits dest: best_hostname_Some)

lemma unicast_ok: "answer_ok (join_thread (snd (unicast_mdns uu ip s)))"
  by (cases s; cases "collect_unicast ip (the s) [] []")
    (auto simp: unicast_mdns_def join_thread_def intro!: mdns_answer_ok
      dest: collect_unicast_services, simp_all add: answer_ok_def)

lemma multicast_ok: "answer_ok (join_thread (snd (multicast_passive uu ip s)))"
  by (cases s; cases "collect_multicast ip (the s) [] []")
    (auto simp: multicast_passive_def join_thread_def intro!: mdns_answer_ok
      dest: collect_multicast_services, simp_all add: answer_ok_def)

lemma reverse_ok: "answer_ok (join_thread (snd (unicast_dns_reverse uu ip s)))"
proof (cases "\<exists>data src rest. s = Some (Datagram data src # rest)")
  case True
  then obtain data src rest where s: "s = Some (Datagram data src # rest)" by blast
  obtain r where r: "parse_mdns_records data = Inr r" using parse_mdns_records_good by blast
  have "answer_ok (mdns_answer uu (pr_names r, pr_services r))"
    using parse_services_ok [OF r] by (simp add: mdns_answer_ok)
  with s r show ?thesis by (simp add: unicast_dns_reverse_def join_thread_def)
next
  case False
  then show ?thesis
    by (auto simp: unicast_dns_reverse_def join_thread_def answer_ok_def
        split: option.splits list.splits recv.splits)
qed

text \<open>C23: what a lookup may report. Whatever the three sockets receive, the host name found for
  an address is longer than one byte and no service label, and every service name is well
  formed.\<close>

theorem query_ip_answer_ok: "answer_ok (query_ip uu ip s1 s2 s3)"
  by (simp add: query_ip_def Let_def unicast_ok multicast_ok reverse_ok)

section \<open>The bulk lookup\<close>

lemma collect_results_iff:
  "distinct (map fst xs) \<Longrightarrow>
   collect_results xs m ip = Some a \<longleftrightarrow>
     (ip, Some a) \<in> set xs \<or> (\<forall>r. (ip, Some r) \<notin> set xs) \<and> m ip = Some a"
proof (induction xs m rule: collect_results.induct)
  case (2 i res rest m)
  then have "(i, r) \<notin> set rest" for r by force
  with 2 show ?case by (cases "ip = i") (auto split: option.splits)
qed simp

lemma resolve_bulk_iff:
  "distinct (map fst xs) \<Longrightarrow> resolve_bulk xs ip = Some a \<longleftrightarrow> (ip, Some a) \<in> set xs"
  by (simp add: resolve_bulk_def collect_results_iff)

text \<open>The bulk lookup does not depend on the order in which its tasks end. For different
  addresses, any two completion orders of the same results give the same map, which holds
  exactly the addresses that were resolved, each with its own result.\<close>

theorem resolve_bulk_order:
  assumes "distinct (map fst xs)" and "mset ys = mset xs"
  shows "resolve_bulk ys = resolve_bulk xs
    \<and> (resolve_bulk ys ip = Some r \<longleftrightarrow> (ip, Some r) \<in> set xs)"
proof -
  have set: "set ys = set xs" using assms(2) by (rule mset_eq_setD)
  have dist: "distinct (map fst ys)"
    by (metis assms mset_eq_imp_distinct_iff mset_map)
  have "resolve_bulk ys = resolve_bulk xs"
  proof
    fix i
    show "resolve_bulk ys i = resolve_bulk xs i"
      using resolve_bulk_iff [OF dist, of i] resolve_bulk_iff [OF assms(1), of i] set
      by (metis not_None_eq)
  qed
  with resolve_bulk_iff [OF dist, of ip r] set show ?thesis by simp
qed

text \<open>A PTR answer that names a service type is taken for a host name as well: the underscore is
  trimmed before the label is tested, so the answer \<open>_http._tcp.local\<close> to the service
  enumeration puts \<open>http\<close> among the candidates.\<close>

lemma http_label:
  "trim_start_char CHR ''_'' ''_http'' = ''http''" "\<not> is_service_label ''http''"
  "split_char CHR ''.'' ''_http._tcp.local'' = [''_http'', ''_tcp'', ''local'']"
  "starts_with ''_http._tcp.local'' ''_''"
  by code_simp+

lemma ptr_answer_service_as_name:
  "decode_label data pos = Inr (Some (''_http._tcp.local'', e)) \<Longrightarrow>
   ptr_rdata data pos names services = Inr (names @ [''http''], services @ [''http''])
   \<and> eligible ''http''"
  by (simp add: ptr_rdata_def push_service_def extract_service_type_def Let_def eligible_def
      http_label)

end
