(* ===== verification/Subnet.thy ===== *)
theory Subnet
  imports Net_Types
begin

text \<open>
  The subnet arithmetic that \<open>arp.rs\<close>, \<open>sweep.rs\<close>, \<open>survey.rs\<close>, \<open>passive.rs\<close> and \<open>commands.rs\<close>
  each carry a copy of: the mask \<open>!((1u32 << (32 - prefix)) - 1)\<close>, in which the subtraction and
  the shift are checked, the base address under a mask, membership, and the list of host
  addresses. The two locales state what the copies have in common; each component interprets
  them on its own copy.
\<close>

section \<open>The mask\<close>

definition netmask :: "byte \<Rightarrow> 32 word outcome" where
  "netmask p =
     outcome_bind (checked_sub 32 p) (\<lambda>s.
     outcome_bind (checked_shl 1 s) (\<lambda>bit.
     outcome_bind (checked_sub bit 1) (\<lambda>m. Inr (NOT m))))"

definition good_prefix :: "byte \<Rightarrow> bool" where
  "good_prefix p \<longleftrightarrow> 1 \<le> unat p \<and> unat p \<le> 32"

abbreviation host_bits :: "byte \<Rightarrow> nat" where
  "host_bits p \<equiv> 32 - unat p"

definition base_value :: "ipv4 \<Rightarrow> byte \<Rightarrow> ipv4" where
  "base_value ip p = ip AND NOT (mask (host_bits p))"

lemma byte_le_32: "p \<le> (32 :: byte) \<longleftrightarrow> unat p \<le> 32"
  by (simp add: word_le_nat_alt)

lemma unat_32_minus: "unat p \<le> 32 \<Longrightarrow> unat (32 - p :: byte) = host_bits p"
  using unat_sub [of p 32] by (simp add: byte_le_32)

lemma checked_sub_32:
  "checked_sub 32 (p :: byte) = (if unat p \<le> 32 then Inr (32 - p) else Inl Arithmetic_Overflow)"
  by (simp add: checked_sub_def byte_le_32)

lemma unat_push_bit_1: "k < 32 \<Longrightarrow> unat (push_bit k (1 :: 32 word)) = 2 ^ k"
proof -
  assume "k < 32"
  then have "(2 :: nat) ^ k < 2 ^ 32" by (rule power_strict_increasing) simp
  then show ?thesis
    by (simp only: unsigned_push_bit_eq unsigned_1) (simp add: push_bit_of_1 take_bit_eq_mod)
qed

lemma push_bit_1_ge_1: "k < 32 \<Longrightarrow> (1 :: 32 word) \<le> push_bit k 1"
  by (simp only: word_le_nat_alt unat_push_bit_1) simp

lemma checked_shl_32:
  "unat p \<le> 32 \<Longrightarrow>
   checked_shl (1 :: 32 word) (32 - p :: byte) =
     (if 1 \<le> unat p then Inr (push_bit (host_bits p) 1) else Inl Shift_Overflow)"
  by (auto simp: checked_shl_def unat_32_minus)

lemma netmask_eq:
  "netmask p =
     (if unat p = 0 then Inl Shift_Overflow
      else if 32 < unat p then Inl Arithmetic_Overflow
      else Inr (NOT (mask (host_bits p))))"
proof (cases "unat p \<le> 32")
  case True
  show ?thesis
  proof (cases "unat p = 0")
    case False
    then have "(1 :: 32 word) \<le> push_bit (host_bits p) 1" by (intro push_bit_1_ge_1) simp
    with False True show ?thesis
      unfolding netmask_def checked_sub_32
      by (simp only: if_True outcome_bind_simps checked_shl_32 [OF True] checked_sub_def if_False)
        (simp add: push_bit_of_1 mask_eq_exp_minus_1)
  qed (use True in \<open>simp add: netmask_def checked_sub_32 checked_shl_32\<close>)
next
  case False
  then show ?thesis unfolding netmask_def checked_sub_32 by (simp only: if_False) simp
qed

lemma netmask_good: "good_prefix p \<Longrightarrow> netmask p = Inr (NOT (mask (host_bits p)))"
  by (simp add: netmask_eq good_prefix_def)

lemma netmask_returns: "returns (netmask p) \<longleftrightarrow> good_prefix p"
  by (auto simp: netmask_eq good_prefix_def)

section \<open>Base addresses\<close>

lemma base_value_shift: "base_value ip p = push_bit (host_bits p) (drop_bit (host_bits p) ip)"
  by (auto simp: base_value_def bit_simps intro!: bit_word_eqI)

lemma base_value_idem [simp]: "base_value (base_value ip p) p = base_value ip p"
  by (simp add: base_value_def ac_simps)

lemma base_value_eq_iff:
  "base_value ip p = base_value ip' p \<longleftrightarrow>
   drop_bit (host_bits p) ip = drop_bit (host_bits p) ip'"
proof
  assume "base_value ip p = base_value ip' p"
  then have "drop_bit (host_bits p) (base_value ip p) = drop_bit (host_bits p) (base_value ip' p)"
    by simp
  moreover have "drop_bit (host_bits p) (base_value i p) = drop_bit (host_bits p) i" for i
    by (rule bit_word_eqI) (use bit_imp_le_length [of i] in \<open>force simp: base_value_def bit_simps\<close>)
  ultimately show "drop_bit (host_bits p) ip = drop_bit (host_bits p) ip'" by simp
qed (simp add: base_value_shift)

lemma unat_base_value: "unat (base_value ip p) = 2 ^ host_bits p * (unat ip div 2 ^ host_bits p)"
proof -
  have "2 ^ host_bits p * (unat ip div 2 ^ host_bits p) \<le> unat ip" by simp
  also have "\<dots> < 2 ^ 32" using unsigned_less [of ip] by simp
  finally show ?thesis
    using unsigned_less [of ip, where 'a = nat]
    by (simp only: base_value_shift unsigned_push_bit_eq unsigned_drop_bit_eq)
      (simp add: take_bit_eq_mod push_bit_eq_mult drop_bit_eq_div mult.commute)
qed

text \<open>The addresses of a subnet end before the 32-bit range does.\<close>

lemma base_value_room: "i < 2 ^ host_bits p \<Longrightarrow> unat (base_value ip p) + i < 2 ^ 32"
proof -
  assume i: "i < 2 ^ host_bits p"
  have "unat ip < 2 ^ 32" using unsigned_less [of ip] by simp
  also have "(2 :: nat) ^ 32 \<le> 2 ^ host_bits p * 2 ^ (32 - host_bits p)"
    by (simp flip: power_add)
  finally have "unat ip div 2 ^ host_bits p < 2 ^ (32 - host_bits p)"
    by (simp add: less_mult_imp_div_less mult.commute)
  then have "Suc (unat ip div 2 ^ host_bits p) \<le> 2 ^ (32 - host_bits p)" by simp
  then have "2 ^ host_bits p * Suc (unat ip div 2 ^ host_bits p)
      \<le> 2 ^ host_bits p * 2 ^ (32 - host_bits p)"
    by (rule mult_le_mono2)
  also have "\<dots> = (2 :: nat) ^ 32" by (simp flip: power_add)
  finally show ?thesis using i unfolding unat_base_value by simp
qed

lemma unat_base_plus:
  "i < 2 ^ host_bits p \<Longrightarrow> unat (base_value ip p + of_nat i) = unat (base_value ip p) + i"
proof -
  assume "i < 2 ^ host_bits p"
  then have "unat (base_value ip p) + i < 2 ^ 32" by (rule base_value_room)
  then show ?thesis by (simp add: unat_word_ariths unat_of_nat)
qed

section \<open>Contracts of the copies\<close>

locale subnet_base =
  fixes base_of :: "ipv4 \<Rightarrow> byte \<Rightarrow> ipv4 outcome"
  assumes base_law: "base_of ip p = outcome_bind (netmask p) (\<lambda>m. Inr (ip AND m))"
begin

lemma base_returns: "returns (base_of ip p) \<longleftrightarrow> good_prefix p"
  using netmask_returns [of p] by (cases "netmask p") (simp_all add: base_law)

lemma base_good: "good_prefix p \<Longrightarrow> base_of ip p = Inr (base_value ip p)"
  by (simp add: base_law netmask_good base_value_def)

lemma base_idem: "base_of ip p = Inr b \<Longrightarrow> base_of b p = Inr b"
  using base_returns [of ip p] by (auto simp: base_good)

end

locale subnet_membership =
  fixes in_subnet :: "ipv4 \<Rightarrow> ipv4 \<Rightarrow> byte \<Rightarrow> bool outcome"
  assumes member_law:
    "in_subnet ip base p = outcome_bind (netmask p) (\<lambda>m. Inr ((ip AND m) = (base AND m)))"
begin

lemma member_good:
  "good_prefix p \<Longrightarrow>
   in_subnet ip base p = Inr (drop_bit (host_bits p) ip = drop_bit (host_bits p) base)"
  by (simp add: member_law netmask_good flip: base_value_def base_value_eq_iff)

lemma member_returns: "returns (in_subnet ip base p) \<longleftrightarrow> good_prefix p"
  using netmask_returns [of p] by (cases "netmask p") (simp_all add: member_law)

end

text \<open>A component with both: two addresses are in one subnet exactly if they have one base.\<close>

locale subnet_arithmetic = subnet_base base_of + subnet_membership in_subnet
  for base_of :: "ipv4 \<Rightarrow> byte \<Rightarrow> ipv4 outcome"
    and in_subnet :: "ipv4 \<Rightarrow> ipv4 \<Rightarrow> byte \<Rightarrow> bool outcome"
begin

lemma member_iff_base:
  "good_prefix p \<Longrightarrow> in_subnet ip base p = Inr True \<longleftrightarrow> base_of ip p = base_of base p"
  by (simp add: member_good base_good base_value_eq_iff)

lemma base_member: "base_of ip p = Inr b \<Longrightarrow> in_subnet ip b p = Inr True"
  using base_returns [of ip p] member_iff_base [of p ip b] base_idem [of ip p b] by simp

end

section \<open>Host addresses\<close>

definition addresses :: "ipv4 \<Rightarrow> byte \<Rightarrow> ipv4 list outcome" where
  "addresses subnet p =
     outcome_bind (netmask p) (\<lambda>m.
     outcome_bind (checked_sub 32 p) (\<lambda>s.
     outcome_bind (checked_shl 1 s) (\<lambda>count.
       map_outcome (\<lambda>i. checked_add (subnet AND m) (of_nat i)) [0..<unat (count :: 32 word)])))"

definition host_octet :: "ipv4 \<Rightarrow> bool" where
  "host_octet ip \<longleftrightarrow> octet 3 ip \<noteq> 0 \<and> octet 3 ip \<noteq> 255"

definition subnet_hosts :: "ipv4 \<Rightarrow> byte \<Rightarrow> ipv4 set" where
  "subnet_hosts subnet p = {ip. base_value ip p = base_value subnet p \<and> host_octet ip}"

lemma unat_count: "good_prefix p \<Longrightarrow> unat (push_bit (host_bits p) 1 :: 32 word) = 2 ^ host_bits p"
  by (rule unat_push_bit_1) (auto simp: good_prefix_def)

lemma addresses_good:
  assumes "good_prefix p"
  shows "addresses subnet p =
    Inr (map (\<lambda>i. base_value subnet p + of_nat i) [0..<2 ^ host_bits p])"
proof -
  have le: "unat p \<le> 32" and one: "1 \<le> unat p" using assms by (simp_all add: good_prefix_def)
  have "checked_add (base_value subnet p) (of_nat i) = Inr (base_value subnet p + of_nat i)"
    if "i < 2 ^ host_bits p" for i
  proof -
    have "unat (base_value subnet p) + i < 2 ^ 32" using that by (rule base_value_room)
    then show ?thesis by (simp add: checked_add_def unat_of_nat)
  qed
  then have "map_outcome (\<lambda>i. checked_add (base_value subnet p) (of_nat i)) [0..<2 ^ host_bits p]
      = Inr (map (\<lambda>i. base_value subnet p + of_nat i) [0..<2 ^ host_bits p])"
    by (intro map_outcome_Inr) simp
  then show ?thesis
    using le one unat_count [OF assms]
    by (simp add: addresses_def netmask_good [OF assms] checked_sub_32 checked_shl_32
        flip: base_value_def)
qed

lemma addresses_returns: "returns (addresses subnet p) \<longleftrightarrow> good_prefix p"
  using netmask_returns [of p] addresses_good [of p subnet]
  by (cases "netmask p") (auto simp: addresses_def)

lemma set_addresses:
  assumes "good_prefix p"
  shows "set (map (\<lambda>i. base_value subnet p + of_nat i) [0..<2 ^ host_bits p])
    = {ip. base_value ip p = base_value subnet p}"
proof (intro set_eqI iffI)
  fix ip
  assume "ip \<in> set (map (\<lambda>i. base_value subnet p + of_nat i) [0..<2 ^ host_bits p])"
  then obtain i where i: "i < 2 ^ host_bits p" and ip: "ip = base_value subnet p + of_nat i" by auto
  have "unat ip div 2 ^ host_bits p = unat subnet div 2 ^ host_bits p"
    using i by (simp add: ip unat_base_plus) (simp add: unat_base_value)
  then have "unat (base_value ip p) = unat (base_value subnet p)" by (simp add: unat_base_value)
  then show "ip \<in> {ip. base_value ip p = base_value subnet p}" by (simp add: word_unat_eq_iff)
next
  fix ip
  assume "ip \<in> {ip. base_value ip p = base_value subnet p}"
  then have base: "base_value ip p = base_value subnet p" by simp
  let ?i = "unat ip mod 2 ^ host_bits p"
  have i: "?i < 2 ^ host_bits p" by simp
  then have "unat (base_value ip p + of_nat ?i) = unat ip"
    by (simp only: unat_base_plus) (simp only: unat_base_value mult_div_mod_eq)
  then have "ip = base_value subnet p + of_nat ?i" by (simp add: base word_unat_eq_iff)
  with i show "ip \<in> set (map (\<lambda>i. base_value subnet p + of_nat i) [0..<2 ^ host_bits p])"
    by (force simp: image_iff)
qed

lemma sorted_addresses:
  "sorted_wrt (<) (map (\<lambda>i. base_value subnet p + of_nat i) [0..<2 ^ host_bits p])"
  by (auto simp: sorted_wrt_iff_nth_less word_less_nat_alt unat_base_plus)

end
