(* ===== verification/Interface.thy ===== *)
theory Interface
  imports Net_Types
begin

text \<open>
  \<open>net/interface.rs\<close>: the choice of a network interface and the two ways its addresses are
  learnt, \<open>pnet::datalink::interfaces()\<close> and, when that shows no IPv4 address, sysfs with the
  output of \<open>ip\<close> or \<open>ifconfig\<close>. What the operating system answers is an argument of the
  definitions: the list of interfaces, the files under \<open>/sys/class/net\<close>, and for each command
  the bytes it prints when it succeeds.
\<close>

section \<open>The interfaces of pnet\<close>

datatype ip_network = V4_Network ipv4 byte | V6_Network

record network_interface =
  ni_name :: string
  ni_mac :: "mac option"
  ni_ips :: "ip_network list"
  ni_up :: bool
  ni_loopback :: bool

record local_interface =
  li_name :: string
  li_ips :: "(ipv4 \<times> byte) list"
  li_mac :: "mac option"
  li_up :: bool
  li_loopback :: bool

fun v4_of :: "ip_network \<Rightarrow> (ipv4 \<times> byte) option" where
  "v4_of (V4_Network ip p) = Some (ip, p)"
| "v4_of V6_Network = None"

definition is_ipv4 :: "ip_network \<Rightarrow> bool" where
  "is_ipv4 n \<longleftrightarrow> v4_of n \<noteq> None"

definition suitable :: "network_interface \<Rightarrow> bool" where
  "suitable i \<longleftrightarrow> ni_up i \<and> \<not> ni_loopback i \<and> list_ex is_ipv4 (ni_ips i)"

definition find_interface :: "network_interface list \<Rightarrow> string option \<Rightarrow> network_interface option" where
  "find_interface pnet name =
     (case name of
        Some n \<Rightarrow> List.find (\<lambda>i. ni_name i = n \<and> suitable i) pnet
      | None \<Rightarrow> List.find suitable pnet)"

definition first_ipv4 :: "network_interface \<Rightarrow> ipv4 option" where
  "first_ipv4 i = Option.bind (List.find is_ipv4 (ni_ips i)) (map_option fst \<circ> v4_of)"

definition pnet_interfaces_from :: "network_interface list \<Rightarrow> local_interface list" where
  "pnet_interfaces_from pnet =
     map (\<lambda>i. \<lparr>li_name = ni_name i, li_ips = List.map_filter v4_of (ni_ips i), li_mac = ni_mac i,
               li_up = ni_up i, li_loopback = ni_loopback i\<rparr>) pnet"

section \<open>The fallback\<close>

definition count_ones :: "32 word \<Rightarrow> nat" where
  "count_ones w = length (filter (bit w) [0..<32])"

definition parse_mac_str :: "string \<Rightarrow> mac option" where
  "parse_mac_str s =
     (let parts = split_char CHR '':'' s
      in if length parts \<noteq> 6 then None
         else (case List.map_filter u8_from_hex parts of
                 [a, b, c, d, e, f] \<Rightarrow> Some (MacAddr6 a b c d e f)
               | _ \<Rightarrow> None))"

definition ip_line :: "string \<Rightarrow> (ipv4 \<times> byte) option" where
  "ip_line line =
     (let ws = split_whitespace line
      in if length ws \<le> 3 then None
         else (case split_once CHR ''/'' (ws ! 3) of
                 None \<Rightarrow> None
               | Some (ip_str, prefix_str) \<Rightarrow>
                   (case (parse_ipv4 ip_str, parse_u8 prefix_str) of
                      (Some ip, Some p) \<Rightarrow> Some (ip, p) | _ \<Rightarrow> None)))"

text \<open>In a line of \<open>ifconfig\<close> the address follows the word \<open>inet\<close>; the word two behind it
  holds the mask in hexadecimal, and 24 stands for a mask that cannot be read.\<close>

fun nth_option :: "'a list \<Rightarrow> nat \<Rightarrow> 'a option" where
  "nth_option [] i = None"
| "nth_option (x # xs) i = (if i = 0 then Some x else nth_option xs (i - 1))"

definition ifconfig_prefix :: "string list \<Rightarrow> nat \<Rightarrow> byte" where
  "ifconfig_prefix parts i =
     (case Option.bind (Option.bind (nth_option parts (i + 3)) (\<lambda>s. strip_prefix s ''0x''))
             u32_from_hex of
        None \<Rightarrow> 24 | Some m \<Rightarrow> of_nat (count_ones m))"

fun find_inet :: "string list \<Rightarrow> nat \<Rightarrow> nat option" where
  "find_inet [] i = None"
| "find_inet (w # ws) i = (if w = ''inet'' then Some i else find_inet ws (i + 1))"

definition ifconfig_line :: "string \<Rightarrow> (ipv4 \<times> byte) option" where
  "ifconfig_line raw =
     (let line = trim_str raw
      in if \<not> starts_with line ''inet '' then None
         else
           (let parts = split_whitespace line
            in case find_inet parts 0 of None \<Rightarrow> None
               | Some i \<Rightarrow>
                   (case Option.bind (nth_option parts (i + 1)) parse_ipv4 of
                      None \<Rightarrow> None
                    | Some ip \<Rightarrow> Some (ip, ifconfig_prefix parts i))))"

definition read_ifconfig_addrs :: "(string \<Rightarrow> bytes option) \<Rightarrow> string \<Rightarrow> (ipv4 \<times> byte) list" where
  "read_ifconfig_addrs ifconfig name =
     (case ifconfig name of None \<Rightarrow> []
      | Some out \<Rightarrow> List.map_filter ifconfig_line (str_lines (from_utf8_lossy out)))"

definition read_ipv4_addrs ::
  "(string \<Rightarrow> bytes option) \<Rightarrow> (string \<Rightarrow> bytes option) \<Rightarrow> string \<Rightarrow> (ipv4 \<times> byte) list" where
  "read_ipv4_addrs ip_cmd ifconfig name =
     (case ip_cmd name of None \<Rightarrow> read_ifconfig_addrs ifconfig name
      | Some out \<Rightarrow> List.map_filter ip_line (str_lines (from_utf8_lossy out)))"

record sysfs_entry =
  se_name :: bytes
  se_operstate :: "string option"
  se_flags :: "string option"
  se_address :: "string option"

record os_view =
  os_pnet :: "network_interface list"
  os_sysfs :: "sysfs_entry option list option"
  os_ip_cmd :: "string \<Rightarrow> bytes option"
  os_ifconfig :: "string \<Rightarrow> bytes option"

definition sysfs_interface :: "os_view \<Rightarrow> sysfs_entry \<Rightarrow> local_interface" where
  "sysfs_interface os e =
     (let name = from_utf8_lossy (se_name e)
      in \<lparr>li_name = name,
          li_ips = read_ipv4_addrs (os_ip_cmd os) (os_ifconfig os) name,
          li_mac = Option.bind (se_address e) (parse_mac_str \<circ> trim_str),
          li_up = (case se_operstate e of None \<Rightarrow> False | Some s \<Rightarrow> trim_str s = ''up''),
          li_loopback =
            (case se_flags e of None \<Rightarrow> False
             | Some s \<Rightarrow> (case u32_from_hex (trim_str s) of
                            None \<Rightarrow> False | Some flags \<Rightarrow> flags AND 0x8 \<noteq> 0))\<rparr>)"

definition sysfs_interfaces :: "os_view \<Rightarrow> local_interface list" where
  "sysfs_interfaces os =
     (case os_sysfs os of None \<Rightarrow> []
      | Some entries \<Rightarrow> map (sysfs_interface os) (List.map_filter id entries))"

definition local_interfaces :: "os_view \<Rightarrow> local_interface list" where
  "local_interfaces os =
     (if os_pnet os \<noteq> [] \<and> list_ex (\<lambda>i. list_ex is_ipv4 (ni_ips i)) (os_pnet os)
      then pnet_interfaces_from (os_pnet os) else sysfs_interfaces os)"

definition find_local_interface :: "os_view \<Rightarrow> string option \<Rightarrow> local_interface option" where
  "find_local_interface os name =
     (let usable = (\<lambda>i. li_up i \<and> \<not> li_loopback i \<and> li_ips i \<noteq> [])
      in case name of
           Some n \<Rightarrow> List.find (\<lambda>i. li_name i = n \<and> usable i) (local_interfaces os)
         | None \<Rightarrow> List.find usable (local_interfaces os))"

definition find_local_source_ip :: "os_view \<Rightarrow> string option \<Rightarrow> ipv4 option" where
  "find_local_source_ip os name =
     Option.bind (find_local_interface os name)
       (\<lambda>i. case li_ips i of [] \<Rightarrow> None | (ip, _) # _ \<Rightarrow> Some ip)"

definition find_source_ip :: "os_view \<Rightarrow> string option \<Rightarrow> ipv4 option" where
  "find_source_ip os name =
     (case find_interface (os_pnet os) name of
        Some i \<Rightarrow> first_ipv4 i
      | None \<Rightarrow> find_local_source_ip os name)"

section \<open>Lemmas\<close>

lemma find_interface_Some:
  "find_interface pnet name = Some i \<Longrightarrow>
   i \<in> set pnet \<and> suitable i \<and> (\<forall>n. name = Some n \<longrightarrow> ni_name i = n)"
  by (auto simp: find_interface_def dest!: find_Some_mem split: option.splits)

lemma map_filter_v4_nonempty: "List.map_filter v4_of ips \<noteq> [] \<longleftrightarrow> list_ex is_ipv4 ips"
  by (induction ips) (auto simp: is_ipv4_def List.map_filter_simps split: option.splits)

lemma first_ipv4_Some: "suitable i \<Longrightarrow> first_ipv4 i \<noteq> None"
proof -
  assume "suitable i"
  then have "List.find is_ipv4 (ni_ips i) \<noteq> None"
    by (auto simp: suitable_def find_None_iff list_ex_iff)
  then obtain a where a: "List.find is_ipv4 (ni_ips i) = Some a" by blast
  then have "is_ipv4 a" by (auto dest: find_Some_mem)
  with a show ?thesis by (auto simp: first_ipv4_def is_ipv4_def)
qed

lemma first_ipv4_eq_hd:
  "first_ipv4 i = map_option fst (case List.map_filter v4_of (ni_ips i) of [] \<Rightarrow> None | a # _ \<Rightarrow> Some a)"
proof -
  have "Option.bind (List.find is_ipv4 ips) v4_of
      = (case List.map_filter v4_of ips of [] \<Rightarrow> None | a # _ \<Rightarrow> Some a)" for ips
    by (induction ips) (auto simp: is_ipv4_def List.map_filter_simps split: option.splits)
  from this [of "ni_ips i"] show ?thesis
    by (cases "List.find is_ipv4 (ni_ips i)") (auto simp: first_ipv4_def)
qed

text \<open>Where pnet sees an IPv4 address, the search over its interfaces and the search over the
  derived list agree.\<close>

lemma find_map: "List.find P (map f xs) = map_option f (List.find (P \<circ> f) xs)"
  by (induction xs) auto

lemma find_local_interface_pnet:
  assumes "list_ex (\<lambda>i. list_ex is_ipv4 (ni_ips i)) (os_pnet os)"
  shows "find_local_interface os name =
    map_option (\<lambda>i. hd (pnet_interfaces_from [i])) (find_interface (os_pnet os) name)"
proof -
  have ne: "os_pnet os \<noteq> []" using assms by auto
  have P: "(\<lambda>i. P (ni_name i) \<and> ni_up i \<and> \<not> ni_loopback i \<and> List.map_filter v4_of (ni_ips i) \<noteq> [])
      = (\<lambda>i. P (ni_name i) \<and> suitable i)" for P
    by (auto simp: suitable_def map_filter_v4_nonempty)
  show ?thesis
    using P [of "\<lambda>_. True"] P [of "\<lambda>n. n = the name"]
    by (cases name) (simp_all add: find_local_interface_def local_interfaces_def ne assms
        pnet_interfaces_from_def find_map comp_def find_interface_def)
qed

text \<open>The choice of an interface. Where pnet sees an IPv4 address, the source address every
  scan uses is that of the first interface that is up, no loopback and has an IPv4 address (and
  the requested name, if one is given), the same whether it is looked up in pnet's list or in
  the program's own; there is one exactly if such an interface exists.\<close>

theorem find_source_ip_agrees:
  assumes "list_ex (\<lambda>i. list_ex is_ipv4 (ni_ips i)) (os_pnet os)"
  shows "find_source_ip os name = find_local_source_ip os name
    \<and> (find_source_ip os name \<noteq> None \<longleftrightarrow>
        (\<exists>i \<in> set (os_pnet os). suitable i \<and> (case name of None \<Rightarrow> True | Some n \<Rightarrow> ni_name i = n)))"
proof -
  have local: "find_local_source_ip os name = Option.bind (find_interface (os_pnet os) name) first_ipv4"
    using find_local_interface_pnet [OF assms, of name]
    by (cases "find_interface (os_pnet os) name")
      (auto simp: find_local_source_ip_def pnet_interfaces_from_def first_ipv4_eq_hd
        split: list.splits)
  have same: "find_source_ip os name = Option.bind (find_interface (os_pnet os) name) first_ipv4"
    using local by (cases "find_interface (os_pnet os) name") (simp_all add: find_source_ip_def)
  have "Option.bind (find_interface (os_pnet os) name) first_ipv4 \<noteq> None \<longleftrightarrow>
      find_interface (os_pnet os) name \<noteq> None"
    by (cases "find_interface (os_pnet os) name")
      (auto dest!: find_interface_Some first_ipv4_Some)
  also have "\<dots> \<longleftrightarrow>
      (\<exists>i \<in> set (os_pnet os). suitable i \<and> (case name of None \<Rightarrow> True | Some n \<Rightarrow> ni_name i = n))"
    by (cases name) (auto simp: find_interface_def find_None_iff)
  finally show ?thesis by (simp only: same local)
qed

definition sample_os :: os_view where
  "sample_os =
     \<lparr>os_pnet =
        [\<lparr>ni_name = ''lo'', ni_mac = None, ni_ips = [V4_Network (ipv4_new 127 0 0 1) 8], ni_up = True,
          ni_loopback = True\<rparr>,
         \<lparr>ni_name = ''eth0'', ni_mac = Some (MacAddr6 2 0 0 0 0 1),
          ni_ips = [V6_Network, V4_Network (ipv4_new 192 168 1 10) 24], ni_up = True,
          ni_loopback = False\<rparr>],
      os_sysfs = None, os_ip_cmd = (\<lambda>_. None), os_ifconfig = (\<lambda>_. None)\<rparr>"

theorem find_source_ip_agrees_witness:
  "find_local_source_ip sample_os (Some ''eth0'') = Some (ipv4_new 192 168 1 10)"
proof -
  have "find_source_ip sample_os (Some ''eth0'') = Some (ipv4_new 192 168 1 10)"
    by (simp add: find_source_ip_def sample_os_def find_interface_def suitable_def is_ipv4_def
        first_ipv4_def)
  moreover have "find_source_ip sample_os (Some ''eth0'') = find_local_source_ip sample_os (Some ''eth0'')"
    by (rule find_source_ip_agrees [THEN conjunct1]) (simp add: sample_os_def is_ipv4_def)
  ultimately show ?thesis by simp
qed

end
