(* ===== verification/Packets.thy ===== *)
theory Packets
  imports Net_Types
begin

text \<open>
  The packet views of the vendored \<open>pnet\<close> crates, as the probes use them: what
  \<open>EthernetPacket\<close>, \<open>ArpPacket\<close>, \<open>Ipv4Packet\<close>, \<open>UdpPacket\<close>, \<open>TcpPacket\<close> and \<open>IcmpPacket\<close>
  read from a buffer, the internet checksum, and what a transport channel of layer 4 hands to
  its iterator: the datagram without its IP header, seen as whatever the iterator was asked for.
\<close>

section \<open>Fields\<close>

definition word16_at :: "bytes \<Rightarrow> nat \<Rightarrow> 16 word" where
  "word16_at d i = u16_be (d ! i) (d ! (i + 1))"

definition ipv4_at :: "bytes \<Rightarrow> nat \<Rightarrow> ipv4" where
  "ipv4_at d i = ipv4_new (d ! i) (d ! (i + 1)) (d ! (i + 2)) (d ! (i + 3))"

definition mac_at :: "bytes \<Rightarrow> nat \<Rightarrow> mac" where
  "mac_at d i = MacAddr6 (d ! i) (d ! (i + 1)) (d ! (i + 2)) (d ! (i + 3)) (d ! (i + 4)) (d ! (i + 5))"

text \<open>\<open>XPacket::new\<close> accepts a buffer of the least size of the packet type.\<close>

definition packet_new :: "nat \<Rightarrow> bytes \<Rightarrow> bytes option" where
  "packet_new least d = (if least \<le> length d then Some d else None)"

abbreviation ethernet_new :: "bytes \<Rightarrow> bytes option" where "ethernet_new \<equiv> packet_new 14"
abbreviation arp_new :: "bytes \<Rightarrow> bytes option" where "arp_new \<equiv> packet_new 28"
abbreviation ipv4_packet_new :: "bytes \<Rightarrow> bytes option" where "ipv4_packet_new \<equiv> packet_new 20"
abbreviation udp_new :: "bytes \<Rightarrow> bytes option" where "udp_new \<equiv> packet_new 8"
abbreviation tcp_new :: "bytes \<Rightarrow> bytes option" where "tcp_new \<equiv> packet_new 20"
abbreviation icmp_new :: "bytes \<Rightarrow> bytes option" where "icmp_new \<equiv> packet_new 4"

lemma packet_new_Some: "packet_new n d = Some e \<longleftrightarrow> e = d \<and> n \<le> length d"
  by (auto simp: packet_new_def)

definition ethertype :: "bytes \<Rightarrow> 16 word" where "ethertype eth = word16_at eth 12"
definition ethertype_arp :: "16 word" where "ethertype_arp = 0x0806"
definition ethertype_ipv4 :: "16 word" where "ethertype_ipv4 = 0x0800"
definition eth_payload :: "bytes \<Rightarrow> bytes" where "eth_payload eth = drop 14 eth"

definition arp_operation :: "bytes \<Rightarrow> 16 word" where "arp_operation a = word16_at a 6"
definition arp_sender_mac :: "bytes \<Rightarrow> mac" where "arp_sender_mac a = mac_at a 8"
definition arp_sender_ip :: "bytes \<Rightarrow> ipv4" where "arp_sender_ip a = ipv4_at a 14"
definition arp_target_mac :: "bytes \<Rightarrow> mac" where "arp_target_mac a = mac_at a 18"
definition arp_target_ip :: "bytes \<Rightarrow> ipv4" where "arp_target_ip a = ipv4_at a 24"

definition ip_header_length :: "bytes \<Rightarrow> nat" where "ip_header_length p = unat (hd p AND 0x0F)"
definition ip_total_length :: "bytes \<Rightarrow> nat" where "ip_total_length p = unat (word16_at p 2)"
definition ip_ttl :: "bytes \<Rightarrow> byte" where "ip_ttl p = p ! 8"
definition ip_protocol :: "bytes \<Rightarrow> byte" where "ip_protocol p = p ! 9"
definition ip_source :: "bytes \<Rightarrow> ipv4" where "ip_source p = ipv4_at p 12"
definition ip_destination :: "bytes \<Rightarrow> ipv4" where "ip_destination p = ipv4_at p 16"

definition proto_icmp :: byte where "proto_icmp = 1"
definition proto_tcp :: byte where "proto_tcp = 6"
definition proto_udp :: byte where "proto_udp = 17"

text \<open>\<open>saturating_sub\<close> is the subtraction of \<open>nat\<close>.\<close>

definition ip_payload :: "bytes \<Rightarrow> bytes" where
  "ip_payload p =
     (let start = 20 + (ip_header_length p * 4 - 20);
          stop = min (start + (ip_total_length p - ip_header_length p * 4)) (length p)
      in if length p \<le> start then [] else take (stop - start) (drop start p))"

definition udp_source :: "bytes \<Rightarrow> 16 word" where "udp_source u = word16_at u 0"
definition udp_destination :: "bytes \<Rightarrow> 16 word" where "udp_destination u = word16_at u 2"

definition tcp_source :: "bytes \<Rightarrow> 16 word" where "tcp_source t = word16_at t 0"
definition tcp_destination :: "bytes \<Rightarrow> 16 word" where "tcp_destination t = word16_at t 2"
definition tcp_acknowledgement :: "bytes \<Rightarrow> 32 word" where "tcp_acknowledgement t = ipv4_at t 8"
definition tcp_data_offset :: "bytes \<Rightarrow> nat" where "tcp_data_offset t = unat (drop_bit 4 (t ! 12))"
definition tcp_flags :: "bytes \<Rightarrow> byte" where "tcp_flags t = t ! 13"
definition tcp_window :: "bytes \<Rightarrow> 16 word" where "tcp_window t = word16_at t 14"

definition flag_syn :: byte where "flag_syn = 0x02"
definition flag_rst :: byte where "flag_rst = 0x04"
definition flag_ack :: byte where "flag_ack = 0x10"

definition has_flag :: "bytes \<Rightarrow> byte \<Rightarrow> bool" where
  "has_flag t f \<longleftrightarrow> tcp_flags t AND f \<noteq> 0"

definition icmp_type :: "bytes \<Rightarrow> byte" where "icmp_type i = hd i"
definition echo_reply :: byte where "echo_reply = 0"
definition echo_request :: byte where "echo_request = 8"

section \<open>The internet checksum\<close>

fun sum_words :: "nat \<Rightarrow> nat \<Rightarrow> bytes \<Rightarrow> nat" where
  "sum_words i skipword (a # b # rest) =
     (if i \<noteq> skipword then unat (u16_be a b) else 0) + sum_words (Suc i) skipword rest"
| "sum_words i skipword [a] = (if i \<noteq> skipword then unat a * 256 else 0)"
| "sum_words i skipword [] = 0"

definition sum_be_words :: "bytes \<Rightarrow> nat \<Rightarrow> nat" where
  "sum_be_words data skipword = sum_words 0 skipword data"

function fold_sum :: "nat \<Rightarrow> nat" where
  "fold_sum s = (if s div 65536 \<noteq> 0 then fold_sum (s div 65536 + s mod 65536) else s)"
  by pat_completeness auto
termination
proof (relation "measure id", goal_cases)
  case (2 s)
  have "65536 * q + r = s \<Longrightarrow> q \<noteq> 0 \<Longrightarrow> q + r < s" for q r :: nat by simp
  from this [OF mult_div_mod_eq 2] show ?case by simp
qed simp

declare fold_sum.simps [simp del]

definition finalize_checksum :: "nat \<Rightarrow> 16 word" where
  "finalize_checksum s = NOT (of_nat (fold_sum s))"

definition inet_checksum :: "bytes \<Rightarrow> nat \<Rightarrow> 16 word" where
  "inet_checksum data skipword =
     (if data = [] then 0 else finalize_checksum (sum_be_words data skipword))"

definition ipv4_word_sum :: "ipv4 \<Rightarrow> nat" where
  "ipv4_word_sum ip =
     unat (octet 0 ip) * 256 + unat (octet 1 ip) + (unat (octet 2 ip) * 256 + unat (octet 3 ip))"

definition pseudo_sum :: "bytes \<Rightarrow> ipv4 \<Rightarrow> ipv4 \<Rightarrow> byte \<Rightarrow> nat" where
  "pseudo_sum data source destination proto =
     ipv4_word_sum source + ipv4_word_sum destination + unat proto + length data"

definition ipv4_checksum :: "bytes \<Rightarrow> nat \<Rightarrow> ipv4 \<Rightarrow> ipv4 \<Rightarrow> byte \<Rightarrow> 16 word" where
  "ipv4_checksum data skipword source destination proto =
     finalize_checksum (pseudo_sum data source destination proto + sum_be_words data skipword)"

text \<open>Writing the checksum field: the word with index \<open>i\<close>.\<close>

definition set_word :: "bytes \<Rightarrow> nat \<Rightarrow> 16 word \<Rightarrow> bytes" where
  "set_word data i w = take (2 * i) data @ u16_bytes w @ drop (2 * i + 2) data"

lemma fold_sum_small: "s < 65536 \<Longrightarrow> fold_sum s = s"
  by (subst fold_sum.simps) simp

lemma fold_sum_big: "65536 \<le> s \<Longrightarrow> fold_sum s = fold_sum (s div 65536 + s mod 65536)"
  by (subst fold_sum.simps) (simp add: div_eq_0_iff)

lemma fold_sum_less: "fold_sum s < 65536"
proof (induction s rule: fold_sum.induct)
  case (1 s)
  then show ?case
    by (cases "s < 65536") (simp_all add: fold_sum_small fold_sum_big div_eq_0_iff)
qed

lemma fold_sum_mod: "fold_sum s mod 65535 = s mod 65535"
proof (induction s rule: fold_sum.induct)
  case (1 s)
  show ?case
  proof (cases "s < 65536")
    case False
    have "65536 * (s div 65536) + s mod 65536 = s" by (rule mult_div_mod_eq)
    then have s: "s = (s div 65536 + s mod 65536) + 65535 * (s div 65536)" by simp
    have "s mod 65535 = (s div 65536 + s mod 65536) mod 65535"
      by (subst s) (rule mod_mult_self2)
    with False 1 show ?thesis by (simp add: fold_sum_big div_eq_0_iff)
  qed (simp add: fold_sum_small)
qed

lemma u16_be_of_bytes: "u16_be (ucast (drop_bit 8 w)) (ucast w) = w"
proof (rule bit_word_eqI)
  fix n assume "n < LENGTH(16)"
  then show "bit (u16_be (ucast (drop_bit 8 w)) (ucast w)) n = bit w n"
    by (cases "n < 8") (auto simp: u16_be_def bit_simps)
qed

lemma unat_not_16: "unat (NOT w :: 16 word) = 65535 - unat w"
proof -
  have "NOT w = - 1 - w" by (simp add: not_eq_complement)
  then have "unat (NOT w) = unat (- 1 :: 16 word) - unat w"
    by (simp add: unat_sub)
  moreover have "unat (- 1 :: 16 word) = 65535"
    by (simp only: unsigned_minus_1_eq_mask) (simp add: mask_eq_exp_minus_1)
  ultimately show ?thesis by simp
qed

lemma unat_finalize: "unat (finalize_checksum s) = 65535 - fold_sum s"
  using fold_sum_less [of s] by (simp add: finalize_checksum_def unat_not_16 unat_of_nat)

lemma checksum_complement: "(s + unat (finalize_checksum s)) mod 65535 = 0"
proof -
  have "fold_sum s \<le> 65535" using fold_sum_less [of s] by simp
  have "(s + unat (finalize_checksum s)) mod 65535 = (s mod 65535 + (65535 - fold_sum s)) mod 65535"
    by (simp add: unat_finalize mod_simps)
  also have "\<dots> = (fold_sum s mod 65535 + (65535 - fold_sum s)) mod 65535" by (simp only: fold_sum_mod)
  also have "\<dots> = (fold_sum s + (65535 - fold_sum s)) mod 65535" by (simp add: mod_simps)
  also have "\<dots> = 0" using \<open>fold_sum s \<le> 65535\<close> by simp
  finally show ?thesis .
qed

lemma sum_words_unskipped:
  "skip < i \<or> i + length data \<le> skip \<Longrightarrow> skip' < i \<or> i + length data \<le> skip' \<Longrightarrow>
   sum_words i skip data = sum_words i skip' data"
proof (induction i skip data rule: sum_words.induct)
  case (1 i skip a b rest)
  then have "sum_words (Suc i) skip rest = sum_words (Suc i) skip' rest" by auto
  with 1 show ?case by auto
qed auto

text \<open>With its checksum in place, a packet of an even length sums to a multiple of 65535, the test
  every receiver makes.\<close>

lemma sum_words_set_word:
  "even (length data) \<Longrightarrow> 2 * k + 2 \<le> length data \<Longrightarrow> i + length data \<le> out \<Longrightarrow>
   sum_words i out (set_word data k w) = sum_words i (i + k) data + unat w"
proof (induction data arbitrary: i k rule: induct_list012)
  case (3 a b rest)
  show ?case
  proof (cases k)
    case 0
    have "sum_words (Suc i) out rest = sum_words (Suc i) i rest"
      using 3 by (intro sum_words_unskipped) auto
    with 3 0 show ?thesis
      using u16_be_of_bytes [of w] by (auto simp: set_word_def u16_bytes_def)
  next
    case (Suc k')
    have "set_word (a # b # rest) k w = a # b # set_word rest k' w"
      by (simp add: set_word_def Suc)
    moreover have "sum_words (Suc i) out (set_word rest k' w) = sum_words (Suc i) (Suc i + k') rest + unat w"
      using 3 Suc by (intro "3.IH"(1)) auto
    ultimately show ?thesis using 3 Suc by auto
  qed
qed auto

lemma length_set_word [simp]: "2 * k + 2 \<le> length data \<Longrightarrow> length (set_word data k w) = length data"
  by (simp add: set_word_def)

definition checksum_valid :: "bytes \<Rightarrow> ipv4 \<Rightarrow> ipv4 \<Rightarrow> byte \<Rightarrow> bool" where
  "checksum_valid data source destination proto \<longleftrightarrow>
     (pseudo_sum data source destination proto + sum_be_words data (length data)) mod 65535 = 0"

lemma ipv4_checksum_valid:
  assumes "even (length data)" "2 * k + 2 \<le> length data"
  shows "checksum_valid (set_word data k (ipv4_checksum data k source destination proto))
    source destination proto"
proof -
  let ?c = "ipv4_checksum data k source destination proto"
  have "sum_be_words (set_word data k ?c) (length data) = sum_be_words data k + unat ?c"
    using sum_words_set_word [of data k 0 "length data" ?c] assms by (simp add: sum_be_words_def)
  then show ?thesis
    using assms checksum_complement [of "pseudo_sum data source destination proto + sum_be_words data k"]
    by (simp add: checksum_valid_def pseudo_sum_def ipv4_checksum_def ac_simps)
qed

lemma inet_checksum_valid:
  assumes "even (length data)" "2 * k + 2 \<le> length data"
  shows "sum_be_words (set_word data k (inet_checksum data k)) (length data) mod 65535 = 0"
proof -
  have "sum_be_words (set_word data k (inet_checksum data k)) (length data)
      = sum_be_words data k + unat (inet_checksum data k)"
    using sum_words_set_word [of data k 0 "length data" "inet_checksum data k"] assms
    by (simp add: sum_be_words_def)
  then show ?thesis
    using assms checksum_complement [of "sum_be_words data k"] by (auto simp: inet_checksum_def)
qed

section \<open>Transport channels\<close>

text \<open>One round of a layer-4 iterator: \<open>recv_from\<close> fills the buffer with an IP datagram; the
  header length is read from it, and what follows the header is seen as the packet type of the
  iterator. A slice out of range and a buffer too short for the type are panics. \<open>next_with_timeout\<close>
  gives nothing when the time is over and an error otherwise.\<close>

datatype wire = Wire bytes ipv4 | Wire_Timeout | Wire_Error

definition layer4_view :: "nat \<Rightarrow> bytes \<Rightarrow> bytes outcome" where
  "layer4_view least datagram =
     (case slice datagram (ip_header_length datagram * 4) (length datagram) of
        Inl e \<Rightarrow> Inl e
      | Inr seg \<Rightarrow> (case packet_new least seg of None \<Rightarrow> Inl Unwrap_On_Error | Some p \<Rightarrow> Inr p))"

lemma layer4_view_Inr:
  "layer4_view least d = Inr seg \<Longrightarrow> seg = drop (ip_header_length d * 4) d \<and> least \<le> length seg"
  by (auto simp: layer4_view_def slice_def packet_new_def split: if_splits)

section \<open>Building segments\<close>

definition u32_bytes :: "32 word \<Rightarrow> bytes" where
  "u32_bytes w = octets w"

record tcp_option =
  opt_number :: byte
  opt_length :: bytes
  opt_data :: bytes

definition tcp_nop :: tcp_option where
  "tcp_nop = \<lparr>opt_number = 1, opt_length = [], opt_data = []\<rparr>"

definition tcp_timestamp :: "32 word \<Rightarrow> 32 word \<Rightarrow> tcp_option" where
  "tcp_timestamp my their =
     \<lparr>opt_number = 8, opt_length = [10], opt_data = u32_bytes my @ u32_bytes their\<rparr>"

definition tcp_mss :: "16 word \<Rightarrow> tcp_option" where
  "tcp_mss v = \<lparr>opt_number = 2, opt_length = [4], opt_data = u16_bytes v\<rparr>"

definition tcp_wscale :: "byte \<Rightarrow> tcp_option" where
  "tcp_wscale v = \<lparr>opt_number = 3, opt_length = [3], opt_data = [v]\<rparr>"

definition tcp_sack_perm :: tcp_option where
  "tcp_sack_perm = \<lparr>opt_number = 4, opt_length = [2], opt_data = []\<rparr>"

definition option_bytes :: "tcp_option \<Rightarrow> bytes" where
  "option_bytes opt = opt_number opt # opt_length opt @ opt_data opt"

text \<open>The 40-byte buffer of a probe after its setters, the checksum still zero.\<close>

definition syn_options :: "tcp_option list" where
  "syn_options = [tcp_mss 1460, tcp_sack_perm, tcp_timestamp 0 0, tcp_nop, tcp_wscale 7]"

definition tcp_segment ::
  "16 word \<Rightarrow> 16 word \<Rightarrow> 32 word \<Rightarrow> 32 word \<Rightarrow> byte \<Rightarrow> byte \<Rightarrow> 16 word \<Rightarrow> tcp_option list \<Rightarrow> bytes" where
  "tcp_segment sport dport seq ack data_offset flags window opts =
     u16_bytes sport @ u16_bytes dport @ u32_bytes seq @ u32_bytes ack
     @ [push_bit 4 data_offset, flags] @ u16_bytes window @ [0, 0] @ u16_bytes 0
     @ concat (map option_bytes opts)"

lemma length_octets [simp]: "length (octets ip) = 4"
  by (simp add: octets_def)

lemma length_tcp_segment:
  "length (tcp_segment sport dport seq ack off fl win opts) = 20 + length (concat (map option_bytes opts))"
  by (simp add: tcp_segment_def u32_bytes_def)

lemma syn_options_bytes:
  "concat (map option_bytes syn_options) =
   [2, 4, 0x05, 0xB4, 4, 2, 8, 10, 0, 0, 0, 0, 0, 0, 0, 0, 1, 3, 3, 7]"
  by code_simp

text \<open>What the iterator shows as the protocol of the "IP packet" is the second byte of the
  acknowledgement number of the TCP segment.\<close>

lemma protocol_is_ack_byte: "ip_protocol seg = octet 1 (tcp_acknowledgement seg)"
  by (simp add: ip_protocol_def tcp_acknowledgement_def ipv4_at_def)

definition acknowledges :: "32 word \<Rightarrow> wire \<Rightarrow> bool" where
  "acknowledges ack w \<longleftrightarrow>
     (case w of Wire d _ \<Rightarrow>
        (case layer4_view 20 d of Inl _ \<Rightarrow> False | Inr seg \<Rightarrow> tcp_acknowledgement seg = ack)
      | _ \<Rightarrow> True)"

lemma acknowledgesE:
  assumes "acknowledges ack (Wire d src)"
  obtains seg where "layer4_view 20 d = Inr seg" "tcp_acknowledgement seg = ack"
  using assms by (auto simp: acknowledges_def split: sum.splits)

lemma ack_of_segment: "tcp_acknowledgement (tcp_segment sp dp seq ack off fl win opts) = ack"
  by (simp add: tcp_acknowledgement_def tcp_segment_def u16_bytes_def u32_bytes_def ipv4_at_def
      octets_def ipv4_new_octets [simplified])

text \<open>The acknowledgements of the two sequence numbers the probes use.\<close>

lemma deaf_ack: "octet 1 (31338 :: ipv4) \<noteq> proto_tcp" "octet 1 (12346 :: ipv4) \<noteq> proto_tcp"
  by (code_simp; simp)+

end
