(* ===== verification/Ports.thy ===== *)
theory Ports
  imports Gannet_Prelude
begin

text \<open>
  The two allocators of source ports, \<open>next_probe_port\<close> of \<open>sweep.rs\<close> and \<open>next_src_port\<close> of
  \<open>fingerprint.rs\<close>: a static \<open>AtomicU16\<close> that many probe threads advance by compare-and-swap.
  A thread's loop is split at its atomic accesses, and a run interleaves the threads in any
  order. The ports issued so far are recorded in the order of the successful exchanges.
\<close>

section \<open>The code\<close>

definition probe_port_after :: "16 word \<Rightarrow> 16 word" where
  "probe_port_after current = (if 60000 \<le> current then 51000 else current + 1)"

definition src_port_after :: "16 word \<Rightarrow> 16 word" where
  "src_port_after current = (if 50000 \<le> current then 43210 else current + 1)"

text \<open>Where a thread stands: outside the function, in its loop with the value it believes to be
  current, or back from it with a port.\<close>

datatype caller = Outside | Trying "16 word" | Got "16 word"

record allocator =
  al_port :: "16 word"
  al_callers :: "nat \<Rightarrow> caller"
  al_issued :: "16 word list"

definition in_loop :: "caller \<Rightarrow> bool" where
  "in_loop c \<longleftrightarrow> (case c of Trying _ \<Rightarrow> True | _ \<Rightarrow> False)"

definition load_port :: "nat \<Rightarrow> allocator \<Rightarrow> allocator" where
  "load_port t s = s\<lparr>al_callers := (al_callers s)(t := Trying (al_port s))\<rparr>"

definition exchange_port :: "(16 word \<Rightarrow> 16 word) \<Rightarrow> nat \<Rightarrow> 16 word \<Rightarrow> allocator \<Rightarrow> allocator" where
  "exchange_port after t current s =
     (if al_port s = current then
        s\<lparr>al_port := after current, al_callers := (al_callers s)(t := Got (after current)),
          al_issued := al_issued s @ [after current]\<rparr>
      else s\<lparr>al_callers := (al_callers s)(t := Trying (al_port s))\<rparr>)"

inductive port_step :: "(16 word \<Rightarrow> 16 word) \<Rightarrow> allocator \<Rightarrow> allocator \<Rightarrow> bool" for after where
  load: "\<not> in_loop (al_callers s t) \<Longrightarrow> port_step after s (load_port t s)"
| exchange: "al_callers s t = Trying current \<Longrightarrow> port_step after s (exchange_port after t current s)"

inductive_cases port_stepE: "port_step after s t"

definition fresh_allocator :: "16 word \<Rightarrow> allocator \<Rightarrow> bool" where
  "fresh_allocator start s \<longleftrightarrow>
     al_port s = start \<and> al_issued s = [] \<and> (\<forall>t. al_callers s t = Outside)"

section \<open>The cycle of ports\<close>

definition issued_inv :: "(16 word \<Rightarrow> 16 word) \<Rightarrow> 16 word \<Rightarrow> allocator \<Rightarrow> bool" where
  "issued_inv after start s \<longleftrightarrow>
     al_port s = (after ^^ length (al_issued s)) start
     \<and> al_issued s = map (\<lambda>i. (after ^^ Suc i) start) [0..<length (al_issued s)]
     \<and> (\<forall>t p. al_callers s t = Got p \<longrightarrow> p \<in> set (al_issued s))"

lemma issued_inv_load: "issued_inv after start s \<Longrightarrow> issued_inv after start (load_port t s)"
  by (simp add: issued_inv_def load_port_def)

lemma issued_inv_exchange:
  "issued_inv after start s \<Longrightarrow> issued_inv after start (exchange_port after t c s)"
  by (auto simp: issued_inv_def exchange_port_def)

interpretation ports: invariant_system "fresh_allocator start" "port_step after" "issued_inv after start"
  for after start
proof
  fix s
  assume "fresh_allocator start s"
  then show "issued_inv after start s" by (simp add: fresh_allocator_def issued_inv_def)
next
  fix s t
  assume "issued_inv after start s" and "port_step after s t"
  then show "issued_inv after start t"
    by (auto elim!: port_stepE intro: issued_inv_load issued_inv_exchange)
qed

text \<open>The contract of a cyclic allocator between two bounds.\<close>

locale port_cycle =
  fixes after :: "16 word \<Rightarrow> 16 word" and lo :: "16 word" and hi :: "16 word"
  assumes after_law: "after c = (if hi \<le> c then lo else c + 1)"
    and bounds: "lo \<le> hi"
begin

definition period :: nat where
  "period = unat hi - unat lo + 1"

lemma unat_after: "unat c < unat hi \<Longrightarrow> unat (after c) = unat c + 1"
proof -
  assume less: "unat c < unat hi"
  have "unat hi < 2 ^ 16" using unsigned_less [of hi, where 'a = nat] by simp
  with less have "unat c + 1 < 2 ^ 16" by simp
  with less show ?thesis
    by (simp add: after_law word_le_nat_alt unat_word_ariths)
qed

lemma after_hi: "unat hi \<le> unat c \<Longrightarrow> after c = lo"
  by (simp add: after_law word_le_nat_alt)

lemma iterate: "unat ((after ^^ n) lo) = unat lo + n mod period"
proof (induction n)
  case (Suc n)
  have le: "unat lo \<le> unat hi" using bounds by (simp add: word_le_nat_alt)
  have pos: "0 < period" by (simp add: period_def)
  show ?case
  proof (cases "Suc (n mod period) = period")
    case True
    then have "after ((after ^^ n) lo) = lo" using Suc le by (intro after_hi) (simp add: period_def)
    with True pos show ?thesis by (simp add: mod_Suc)
  next
    case False
    then have "Suc (n mod period) < period" using pos by (simp add: Suc_lessI)
    then have "unat (after ((after ^^ n) lo)) = unat ((after ^^ n) lo) + 1"
      using Suc le by (intro unat_after) (simp add: period_def)
    with False Suc show ?thesis by (simp add: mod_Suc)
  qed
qed simp

lemma iterate_range: "lo \<le> (after ^^ n) lo \<and> (after ^^ n) lo \<le> hi"
proof -
  have "unat lo \<le> unat hi" using bounds by (simp add: word_le_nat_alt)
  moreover have "period = Suc (unat hi - unat lo)" "n mod period < period"
    by (simp_all add: period_def)
  ultimately have "unat lo + n mod period \<le> unat hi" by linarith
  then show ?thesis by (simp add: word_le_nat_alt iterate)
qed

lemma iterate_distinct:
  "i < j \<Longrightarrow> j - i < period \<Longrightarrow> (after ^^ i) lo \<noteq> (after ^^ j) lo"
proof
  assume ij: "i < j" "j - i < period" and "(after ^^ i) lo = (after ^^ j) lo"
  then have "unat lo + i mod period = unat lo + j mod period" by (metis iterate)
  then have "i mod period = j mod period" by simp
  then have "period dvd j - i" using ij(1) mod_eq_dvd_iff_nat [of i j period] by simp
  then have "period \<le> j - i" using ij(1) by (intro dvd_imp_le) simp_all
  with ij(2) show False by simp
qed

lemma issued_ports:
  assumes "fresh_allocator lo s" "(port_step after)\<^sup>*\<^sup>* s t"
  shows "(\<forall>p \<in> set (al_issued t). lo \<le> p \<and> p \<le> hi)
    \<and> (\<forall>i j. i < j \<and> j < length (al_issued t) \<and> j - i < period \<longrightarrow> al_issued t ! i \<noteq> al_issued t ! j)
    \<and> (\<forall>c p. al_callers t c = Got p \<longrightarrow> p \<in> set (al_issued t))"
proof -
  have inv: "issued_inv after lo t" using assms by (rule ports.reachable_inv)
  then have all: "al_issued t = map (\<lambda>i. (after ^^ Suc i) lo) [0..<length (al_issued t)]"
    by (simp only: issued_inv_def)
  have issued: "al_issued t ! i = (after ^^ Suc i) lo" if "i < length (al_issued t)" for i
  proof -
    have "al_issued t ! i = map (\<lambda>i. (after ^^ Suc i) lo) [0..<length (al_issued t)] ! i"
      using all by (rule arg_cong)
    also have "\<dots> = (after ^^ Suc i) lo" using that by simp
    finally show ?thesis .
  qed
  have "lo \<le> p \<and> p \<le> hi" if "p \<in> set (al_issued t)" for p
    using that issued by (metis in_set_conv_nth iterate_range)
  moreover have "al_issued t ! i \<noteq> al_issued t ! j"
    if "i < j" "j < length (al_issued t)" "j - i < period" for i j
    using that issued [of i] issued [of j] iterate_distinct [of "Suc i" "Suc j"] by simp
  ultimately show ?thesis using inv by (simp add: issued_inv_def)
qed

end

interpretation probe_ports: port_cycle probe_port_after 51000 60000
  by unfold_locales (simp_all add: probe_port_after_def)

interpretation src_ports: port_cycle src_port_after 43210 50000
  by unfold_locales (simp_all add: src_port_after_def)

lemma probe_period: "probe_ports.period = 9001"
  by (simp add: probe_ports.period_def)

lemma src_period: "src_ports.period = 6791"
  by (simp add: src_ports.period_def)

text \<open>C34: source ports under concurrency. However the threads that probe hosts interleave their
  loads and exchanges, every port they get lies in 51000..60000 (43210..50000 for the
  fingerprint probes), and no two of any 9001 (6791) ports issued in a row are the same.\<close>

theorem issued_ports_distinct:
  assumes "fresh_allocator 51000 s" "(port_step probe_port_after)\<^sup>*\<^sup>* s t"
    and "fresh_allocator 43210 s'" "(port_step src_port_after)\<^sup>*\<^sup>* s' t'"
  shows "(\<forall>p \<in> set (al_issued t). 51000 \<le> p \<and> p \<le> 60000)
    \<and> (\<forall>i j. i < j \<and> j < length (al_issued t) \<and> j - i < 9001 \<longrightarrow> al_issued t ! i \<noteq> al_issued t ! j)
    \<and> (\<forall>c p. al_callers t c = Got p \<longrightarrow> p \<in> set (al_issued t))
    \<and> (\<forall>p \<in> set (al_issued t'). 43210 \<le> p \<and> p \<le> 50000)
    \<and> (\<forall>i j. i < j \<and> j < length (al_issued t') \<and> j - i < 6791 \<longrightarrow> al_issued t' ! i \<noteq> al_issued t' ! j)"
  using probe_ports.issued_ports [OF assms(1,2)] src_ports.issued_ports [OF assms(3,4)]
  unfolding probe_period src_period by blast

text \<open>Two threads that load the same value, one of which has to try again.\<close>

definition idle_allocator :: "16 word \<Rightarrow> allocator" where
  "idle_allocator p = \<lparr>al_port = p, al_callers = (\<lambda>_. Outside), al_issued = []\<rparr>"

definition contended :: "(16 word \<Rightarrow> 16 word) \<Rightarrow> 16 word \<Rightarrow> allocator" where
  "contended after p =
     exchange_port after 2 (after p) (exchange_port after 2 p (exchange_port after 1 p
       (load_port 2 (load_port 1 (idle_allocator p)))))"

lemma contended_run: assumes "after p \<noteq> p" shows "(port_step after)\<^sup>*\<^sup>* (idle_allocator p) (contended after p)"
proof -
  let ?s1 = "load_port 1 (idle_allocator p)"
  let ?s2 = "load_port 2 ?s1"
  let ?s3 = "exchange_port after 1 p ?s2"
  have 1: "port_step after (idle_allocator p) ?s1"
    by (rule port_step.load) (simp add: idle_allocator_def in_loop_def)
  have 2: "port_step after ?s1 ?s2"
    by (rule port_step.load) (simp add: idle_allocator_def in_loop_def load_port_def)
  have 3: "port_step after ?s2 ?s3"
    by (rule port_step.exchange) (simp add: idle_allocator_def load_port_def)
  have 4: "port_step after ?s3 (exchange_port after 2 p ?s3)"
    by (rule port_step.exchange) (simp add: idle_allocator_def load_port_def exchange_port_def)
  have 5: "port_step after (exchange_port after 2 p ?s3)
      (exchange_port after 2 (after p) (exchange_port after 2 p ?s3))"
    by (rule port_step.exchange)
      (use assms in \<open>simp add: idle_allocator_def load_port_def exchange_port_def\<close>)
  show ?thesis
    unfolding contended_def
    by (rule rtranclp.rtrancl_into_rtrancl, rule rtranclp.rtrancl_into_rtrancl,
        rule rtranclp.rtrancl_into_rtrancl, rule rtranclp.rtrancl_into_rtrancl,
        rule rtranclp.rtrancl_into_rtrancl, rule rtranclp.rtrancl_refl)
      (rule 1 2 3 4 5)+
qed

theorem issued_ports_distinct_witness:
  "al_issued (contended probe_port_after 51000) = [51001, 51002]
   \<and> al_issued (contended probe_port_after 51000) ! 0 \<noteq> al_issued (contended probe_port_after 51000) ! 1"
proof -
  have fresh: "fresh_allocator p (idle_allocator p)" for p
    by (simp add: fresh_allocator_def idle_allocator_def)
  have probe: "(port_step probe_port_after)\<^sup>*\<^sup>* (idle_allocator 51000) (contended probe_port_after 51000)"
    and src: "(port_step src_port_after)\<^sup>*\<^sup>* (idle_allocator 43210) (contended src_port_after 43210)"
    by (rule contended_run, simp add: probe_port_after_def src_port_after_def)+
  have issued: "al_issued (contended probe_port_after 51000) = [51001, 51002]"
    by (simp add: contended_def exchange_port_def load_port_def idle_allocator_def probe_port_after_def)
  moreover have "al_issued (contended probe_port_after 51000) ! 0 \<noteq> al_issued (contended probe_port_after 51000) ! 1"
  proof -
    have "\<forall>i j. i < j \<and> j < length (al_issued (contended probe_port_after 51000)) \<and> j - i < 9001 \<longrightarrow>
        al_issued (contended probe_port_after 51000) ! i \<noteq> al_issued (contended probe_port_after 51000) ! j"
      by (rule issued_ports_distinct [OF fresh probe fresh src, THEN conjunct2, THEN conjunct1])
    then show ?thesis
      by (drule_tac x = 0 in spec, drule_tac x = 1 in spec, elim mp) (simp add: issued)
  qed
  ultimately show ?thesis by simp
qed

end
