(* ===== verification/Fingerprint.thy ===== *)
theory Fingerprint
  imports Packets Ports Interface
begin

text \<open>
  \<open>discovery/fingerprint.rs\<close>: the two parsers of TCP options, the scoring of operating systems,
  the SYN probe and the loop that waits for its answer, and the bulk probe. The datagrams a raw
  socket delivers within the deadline are a list; the clock only ends that list.
\<close>

section \<open>TCP options\<close>

datatype tcp_option_kind =
    Mss | Window_Scale | Sack_Permitted | Timestamp | Nop | Unknown byte

record stack_fingerprint =
  fp_ttl :: byte
  fp_window :: "16 word"
  fp_options :: "tcp_option_kind list"
  fp_mss :: "16 word option"
  fp_scale :: "byte option"
  fp_sack_ok :: bool
  fp_nop_count :: byte

record fingerprint_result =
  fr_syn_ack :: "stack_fingerprint option"
  fr_os_hint :: "string option"

definition option_kind :: "byte \<Rightarrow> tcp_option_kind" where
  "option_kind kind =
     (if kind = 2 then Mss else if kind = 3 then Window_Scale else if kind = 4 then Sack_Permitted
      else if kind = 8 then Timestamp else Unknown kind)"

text \<open>\<open>while pos < data.len()\<close>; every access of \<open>data\<close> is an indexing that may panic.\<close>

function parse_tcp_options :: "bytes \<Rightarrow> nat \<Rightarrow> tcp_option_kind list \<Rightarrow> tcp_option_kind list outcome" where
  "parse_tcp_options data pos kinds =
     (if length data \<le> pos then Inr kinds
      else
        (case index_at data pos of Inl e \<Rightarrow> Inl e
         | Inr kind \<Rightarrow>
           (if kind = 0 then Inr kinds
            else if kind = 1 then parse_tcp_options data (pos + 1) (kinds @ [Nop])
            else if length data \<le> pos + 1 then Inr kinds
            else
              (case index_at data (pos + 1) of Inl e \<Rightarrow> Inl e
               | Inr len \<Rightarrow>
                 (if unat len < 2 \<or> length data < pos + unat len then Inr kinds
                  else parse_tcp_options data (pos + unat len) (kinds @ [option_kind kind]))))))"
  by pat_completeness auto
termination
  by (relation "measure (\<lambda>(data, pos, kinds). length data - pos)") auto

declare parse_tcp_options.simps [simp del]

function mss_scale_loop ::
  "bytes \<Rightarrow> nat \<Rightarrow> 16 word option \<Rightarrow> byte option \<Rightarrow> (16 word option \<times> byte option) outcome" where
  "mss_scale_loop raw pos mss scale =
     (if length raw \<le> pos then Inr (mss, scale)
      else
        (case index_at raw pos of Inl e \<Rightarrow> Inl e
         | Inr kind \<Rightarrow>
           (if kind = 0 then Inr (mss, scale)
            else if kind = 1 then mss_scale_loop raw (pos + 1) mss scale
            else if length raw \<le> pos + 1 then Inr (mss, scale)
            else
              (case index_at raw (pos + 1) of Inl e \<Rightarrow> Inl e
               | Inr len \<Rightarrow>
                 (if unat len < 2 \<or> length raw < pos + unat len then Inr (mss, scale)
                  else if kind = 2 \<and> 4 \<le> unat len then
                    (case index_at raw (pos + 2) of Inl e \<Rightarrow> Inl e
                     | Inr hi \<Rightarrow>
                       (case index_at raw (pos + 3) of Inl e \<Rightarrow> Inl e
                        | Inr lo \<Rightarrow> mss_scale_loop raw (pos + unat len) (Some (u16_be hi lo)) scale))
                  else if kind = 3 \<and> 3 \<le> unat len then
                    (case index_at raw (pos + 2) of Inl e \<Rightarrow> Inl e
                     | Inr s \<Rightarrow> mss_scale_loop raw (pos + unat len) mss (Some s))
                  else mss_scale_loop raw (pos + unat len) mss scale)))))"
  by pat_completeness auto
termination
  by (relation "measure (\<lambda>(raw, pos, mss, scale). length raw - pos)") auto

declare mss_scale_loop.simps [simp del]

definition parse_stack_fingerprint :: "byte \<Rightarrow> 16 word \<Rightarrow> bytes \<Rightarrow> stack_fingerprint outcome" where
  "parse_stack_fingerprint ttl window options_raw =
     outcome_bind (parse_tcp_options options_raw 0 []) (\<lambda>kinds.
     outcome_bind (mss_scale_loop options_raw 0 None None) (\<lambda>(mss, scale).
       Inr \<lparr>fp_ttl = ttl, fp_window = window, fp_options = kinds, fp_mss = mss, fp_scale = scale,
            fp_sack_ok = Sack_Permitted \<in> set kinds,
            fp_nop_count = of_nat (length (filter (\<lambda>k. k = Nop) kinds))\<rparr>))"

section \<open>Guessing the operating system\<close>

definition push_if :: "bool \<Rightarrow> 'a \<Rightarrow> 'a list" where
  "push_if c x = (if c then [x] else [])"

definition os_scores :: "stack_fingerprint \<Rightarrow> (string \<times> nat) list" where
  "os_scores fp =
     (let ttl = fp_ttl fp; window = fp_window fp;
          has_timestamp = Timestamp \<in> set (fp_options fp);
          has_sack = Sack_Permitted \<in> set (fp_options fp)
      in push_if (ttl \<le> 64) (''Linux'', 3)
       @ push_if (ttl \<le> 64 \<and> window = 65535 \<and> fp_mss fp = Some 1460 \<and> fp_scale fp \<noteq> None)
           (''Linux (kernel 4.x+)'', 8)
       @ push_if (ttl \<le> 64 \<and> window = 29200 \<and> fp_mss fp = Some 1460) (''Linux (kernel 3.x)'', 6)
       @ push_if (ttl = 64 \<and> window = 65535 \<and> has_timestamp \<and> has_sack) (''macOS 10.15+'', 9)
       @ push_if (ttl = 64 \<and> window = 65535 \<and> fp_mss fp = Some 1460) (''macOS 10.15+'', 7)
       @ push_if (ttl = 64) (''macOS/Linux'', 3)
       @ push_if (ttl = 128) (''Windows'', 3)
       @ push_if (ttl = 128 \<and> window = 8192) (''Windows 7/2008'', 7)
       @ push_if (ttl = 128 \<and> window = 65535 \<and> fp_scale fp = Some 8) (''Windows 10/11'', 8)
       @ push_if (ttl = 128 \<and> window = 65535 \<and> has_timestamp \<and> has_sack \<and> fp_scale fp = Some 8)
           (''Windows 10/11'', 9)
       @ push_if (ttl = 255) (''BSD/Solaris/Network Device'', 4)
       @ push_if (ttl = 255 \<and> window = 16384) (''OpenBSD'', 7)
       @ push_if (ttl = 255 \<and> window = 65535) (''FreeBSD'', 6)
       @ push_if (ttl \<le> 32) (''Embedded/IoT'', 3))"

text \<open>\<open>sort_by_key\<close> with \<open>Reverse\<close> is stable, so it is the insertion sort by the negated score.\<close>

definition guess_os :: "stack_fingerprint \<Rightarrow> string option" where
  "guess_os fp =
     (case sort_key (\<lambda>(_, s). - int s) (os_scores fp) of [] \<Rightarrow> None | (name, _) # _ \<Rightarrow> Some name)"

section \<open>The probe\<close>

definition fallback_ports :: "16 word list" where
  "fallback_ports = [443, 80, 22]"

definition tcp_send_syn :: "ipv4 \<Rightarrow> 16 word \<Rightarrow> ipv4 \<Rightarrow> 16 word \<Rightarrow> 32 word \<Rightarrow> bytes" where
  "tcp_send_syn src_ip src_port dst_ip dst_port seq =
     (let pkt = tcp_segment src_port dst_port seq 0 10 flag_syn 65535 syn_options
      in set_word pkt 8 (ipv4_checksum pkt 8 src_ip dst_ip proto_tcp))"

datatype syn_verdict = Keep_Waiting | Give_Up | Syn_Ack byte "16 word" bytes

text \<open>One datagram in \<open>wait_syn_ack\<close>, as the layer-4 iterator shows it: an \<open>Ipv4Packet\<close>.\<close>

definition options_slice :: "bytes \<Rightarrow> bytes \<Rightarrow> bytes outcome" where
  "options_slice view tcp =
     (let data_offset = tcp_data_offset tcp * 4;
          payload = ip_payload view;
          tcp_start = ip_header_length view * 4;
          opts_len = data_offset - 20
      in if 0 < opts_len \<and> tcp_start + data_offset \<le> length payload
         then slice payload (tcp_start + 20) (tcp_start + 20 + opts_len)
         else Inr [])"

definition judge_segment :: "16 word \<Rightarrow> 16 word \<Rightarrow> bytes \<Rightarrow> syn_verdict outcome" where
  "judge_segment src_port dst_port view =
     (if ip_protocol view \<noteq> proto_tcp then Inr Keep_Waiting
      else
        (case tcp_new (ip_payload view) of None \<Rightarrow> Inr Keep_Waiting
         | Some tcp \<Rightarrow>
           (if tcp_destination tcp = src_port \<and> tcp_source tcp = dst_port then
              (if has_flag tcp flag_syn \<and> has_flag tcp flag_ack then
                 outcome_bind (options_slice view tcp)
                   (\<lambda>opts. Inr (Syn_Ack (ip_ttl view) (tcp_window tcp) opts))
               else if has_flag tcp flag_rst then Inr Give_Up
               else Inr Keep_Waiting)
            else Inr Keep_Waiting)))"

fun wait_syn_ack ::
  "16 word \<Rightarrow> 16 word \<Rightarrow> wire list \<Rightarrow> (byte \<times> 16 word \<times> bytes) option outcome" where
  "wait_syn_ack src_port dst_port [] = Inr None"
| "wait_syn_ack src_port dst_port (Wire_Timeout # rest) = Inr None"
| "wait_syn_ack src_port dst_port (Wire_Error # rest) = Inr None"
| "wait_syn_ack src_port dst_port (Wire datagram _ # rest) =
     (case layer4_view 20 datagram of Inl e \<Rightarrow> Inl e
      | Inr view \<Rightarrow>
          (case judge_segment src_port dst_port view of Inl e \<Rightarrow> Inl e
           | Inr Keep_Waiting \<Rightarrow> wait_syn_ack src_port dst_port rest
           | Inr Give_Up \<Rightarrow> Inr None
           | Inr (Syn_Ack ttl window opts) \<Rightarrow> Inr (Some (ttl, window, opts))))"

text \<open>A channel is \<open>None\<close> when it could not be opened or the segment could not be sent, and
  otherwise what its socket delivers. The segment sent is part of the value.\<close>

definition probe_port_blocking ::
  "ipv4 \<Rightarrow> 16 word \<Rightarrow> ipv4 \<Rightarrow> 16 word \<Rightarrow> wire list option \<Rightarrow>
   bytes \<times> (byte \<times> 16 word \<times> bytes) option outcome" where
  "probe_port_blocking target port src_ip src_port channel =
     (tcp_send_syn src_ip src_port target port 31337,
      (case channel of None \<Rightarrow> Inr None
       | Some wires \<Rightarrow> wait_syn_ack src_port port wires))"

text \<open>\<open>probe_syn\<close> over its three tasks in the order they end before the time is up; a task that
  panicked is passed over.\<close>

fun first_answer ::
  "(byte \<times> 16 word \<times> bytes) option outcome list \<Rightarrow> (byte \<times> 16 word \<times> bytes) option" where
  "first_answer [] = None"
| "first_answer (Inr (Some a) # rest) = Some a"
| "first_answer (_ # rest) = first_answer rest"

definition probe_syn ::
  "ipv4 option \<Rightarrow> (byte \<times> 16 word \<times> bytes) option outcome list \<Rightarrow> fingerprint_result option outcome" where
  "probe_syn src_ip answers =
     (if src_ip = None then Inr None
      else
        (case first_answer answers of
           Some (ttl, window, opts) \<Rightarrow>
             outcome_bind (parse_stack_fingerprint ttl window opts)
               (\<lambda>fp. Inr (Some \<lparr>fr_syn_ack = Some fp, fr_os_hint = guess_os fp\<rparr>))
         | None \<Rightarrow> Inr (Some \<lparr>fr_syn_ack = None, fr_os_hint = None\<rparr>)))"

fun probe_bulk ::
  "(ipv4 \<times> fingerprint_result option) list \<Rightarrow> (ipv4 \<rightharpoonup> fingerprint_result option) \<Rightarrow>
   (ipv4 \<rightharpoonup> fingerprint_result option)" where
  "probe_bulk [] m = m"
| "probe_bulk ((ip, r) # rest) m = probe_bulk rest (m(ip \<mapsto> r))"

text \<open>The build for Termux connects to three ports and has no hint in any case.\<close>

fun connect_and_hint :: "bool list \<Rightarrow> string option" where
  "connect_and_hint [] = None"
| "connect_and_hint (connected # rest) = (if connected then None else connect_and_hint rest)"

definition ttl_only_probe_syn :: "bool list \<Rightarrow> fingerprint_result option" where
  "ttl_only_probe_syn connected =
     Some \<lparr>fr_syn_ack = None, fr_os_hint = connect_and_hint connected\<rparr>"

definition ttl_only_probe_bulk ::
  "(ipv4 \<Rightarrow> bool list) \<Rightarrow> ipv4 list \<Rightarrow> (ipv4 \<rightharpoonup> fingerprint_result option)" where
  "ttl_only_probe_bulk connected ended =
     probe_bulk (map (\<lambda>ip. (ip, ttl_only_probe_syn (connected ip))) ended) Map.empty"

lemma probe_bulk_mem: "probe_bulk completed m ip = Some r \<Longrightarrow> (ip, r) \<in> set completed \<or> m ip = Some r"
  by (induction completed m rule: probe_bulk.induct) (auto split: if_splits)

text \<open>Whatever connects, the build for Termux never has a hint.\<close>

lemma connect_and_hint_None: "connect_and_hint connected = None"
  by (induction connected) simp_all

lemma ttl_only_no_hint:
  "ttl_only_probe_bulk connected ended ip = Some r \<Longrightarrow> r = Some \<lparr>fr_syn_ack = None, fr_os_hint = None\<rparr>"
  by (auto simp: ttl_only_probe_bulk_def ttl_only_probe_syn_def connect_and_hint_None dest!: probe_bulk_mem)

section \<open>Properties of the parsers\<close>

text \<open>The second pass walks over the same options: it ends at the same place, and finds a
  segment size or a window scale only where the first pass found the option.\<close>

definition passes_agree :: "tcp_option_kind list \<Rightarrow> 16 word option \<Rightarrow> byte option \<Rightarrow> bool" where
  "passes_agree kinds mss scale \<longleftrightarrow>
     (mss \<noteq> None \<longrightarrow> Mss \<in> set kinds) \<and> (scale \<noteq> None \<longrightarrow> Window_Scale \<in> set kinds)"

lemma passes_agree_mono:
  "passes_agree kinds mss scale \<Longrightarrow> passes_agree (kinds @ ks) mss scale"
  by (auto simp: passes_agree_def)

definition option_ends :: "bytes \<Rightarrow> nat \<Rightarrow> bool" where
  "option_ends data pos \<longleftrightarrow>
     length data \<le> pos \<or> data ! pos = 0 \<or> data ! pos \<noteq> 1 \<and>
        (length data \<le> pos + 1 \<or> unat (data ! (pos + 1)) < 2
         \<or> length data < pos + unat (data ! (pos + 1)))"

lemma parse_stops: "option_ends data pos \<Longrightarrow> parse_tcp_options data pos kinds = Inr kinds"
  unfolding option_ends_def by (subst parse_tcp_options.simps) (auto simp: index_at_def)

lemma parse_nop:
  "pos < length data \<Longrightarrow> data ! pos = 1 \<Longrightarrow>
   parse_tcp_options data pos kinds = parse_tcp_options data (pos + 1) (kinds @ [Nop])"
  by (subst parse_tcp_options.simps) (simp add: index_at_def)

lemma parse_option:
  "\<not> option_ends data pos \<Longrightarrow> data ! pos \<noteq> 1 \<Longrightarrow>
   parse_tcp_options data pos kinds =
     parse_tcp_options data (pos + unat (data ! (pos + 1))) (kinds @ [option_kind (data ! pos)])"
  unfolding option_ends_def by (subst parse_tcp_options.simps) (auto simp: index_at_def)

lemma scale_stops: "option_ends data pos \<Longrightarrow> mss_scale_loop data pos mss scale = Inr (mss, scale)"
  unfolding option_ends_def by (subst mss_scale_loop.simps) (auto simp: index_at_def)

lemma scale_nop:
  "pos < length data \<Longrightarrow> data ! pos = 1 \<Longrightarrow>
   mss_scale_loop data pos mss scale = mss_scale_loop data (pos + 1) mss scale"
  by (subst mss_scale_loop.simps) (simp add: index_at_def)

lemma scale_option:
  "\<not> option_ends data pos \<Longrightarrow> data ! pos \<noteq> 1 \<Longrightarrow>
   mss_scale_loop data pos mss scale =
     mss_scale_loop data (pos + unat (data ! (pos + 1)))
       (if data ! pos = 2 \<and> 4 \<le> unat (data ! (pos + 1))
        then Some (u16_be (data ! (pos + 2)) (data ! (pos + 3))) else mss)
       (if data ! pos = 3 \<and> 3 \<le> unat (data ! (pos + 1)) then Some (data ! (pos + 2)) else scale)"
  unfolding option_ends_def by (subst mss_scale_loop.simps) (auto simp: index_at_def)

lemma mss_scale_loop_agrees:
  "passes_agree kinds mss scale \<Longrightarrow> parse_tcp_options raw pos kinds = Inr ks \<Longrightarrow>
   \<exists>m s. mss_scale_loop raw pos mss scale = Inr (m, s) \<and> passes_agree ks m s"
proof (induction "length raw - pos" arbitrary: pos kinds mss scale rule: less_induct)
  case less
  show ?case
  proof (cases "option_ends raw pos")
    case True
    with less.prems show ?thesis by (simp add: parse_stops scale_stops)
  next
    case False
    then have pos: "pos < length raw" by (simp add: option_ends_def)
    show ?thesis
    proof (cases "raw ! pos = 1")
      case True
      have "\<exists>m s. mss_scale_loop raw (pos + 1) mss scale = Inr (m, s) \<and> passes_agree ks m s"
        by (rule less.hyps [where kinds = "kinds @ [Nop]"])
          (use less.prems pos True in \<open>simp_all add: passes_agree_mono parse_nop\<close>)
      with pos True show ?thesis by (simp add: scale_nop)
    next
      case not_nop: False
      let ?len = "unat (raw ! (pos + 1))"
      let ?mss = "if raw ! pos = 2 \<and> 4 \<le> ?len then Some (u16_be (raw ! (pos + 2)) (raw ! (pos + 3))) else mss"
      let ?scale = "if raw ! pos = 3 \<and> 3 \<le> ?len then Some (raw ! (pos + 2)) else scale"
      have "passes_agree (kinds @ [option_kind (raw ! pos)]) ?mss ?scale"
        using less.prems(1) by (auto simp: passes_agree_def option_kind_def)
      moreover have "length raw - (pos + ?len) < length raw - pos"
        using False not_nop pos by (auto simp: option_ends_def)
      ultimately show ?thesis
        using less.hyps less.prems(2) False not_nop by (simp add: parse_option scale_option)
    qed
  qed
qed

lemma parse_tcp_options_returns: "returns (parse_tcp_options data pos kinds)"
proof (induction "length data - pos" arbitrary: pos kinds rule: less_induct)
  case less
  show ?case
  proof (cases "option_ends data pos")
    case False
    then have pos: "pos < length data" by (simp add: option_ends_def)
    with False less show ?thesis
      by (cases "data ! pos = 1") (auto simp: parse_nop parse_option option_ends_def)
  qed (simp add: parse_stops)
qed

text \<open>Reading the TCP options of an answer. On any bytes whatever the two passes over the
  options end without a panic, and they agree: a segment size or window scale is reported only
  with its option, the selective-acknowledgement flag exactly with its option, and the NOP
  counter is the number of NOP options modulo 256.\<close>

theorem parse_stack_fingerprint_total:
  "\<exists>fp. parse_stack_fingerprint ttl window raw = Inr fp
     \<and> parse_tcp_options raw 0 [] = Inr (fp_options fp)
     \<and> fp_ttl fp = ttl \<and> fp_window fp = window
     \<and> passes_agree (fp_options fp) (fp_mss fp) (fp_scale fp)
     \<and> (fp_sack_ok fp \<longleftrightarrow> Sack_Permitted \<in> set (fp_options fp))
     \<and> unat (fp_nop_count fp) = length (filter (\<lambda>k. k = Nop) (fp_options fp)) mod 256"
proof -
  obtain ks where ks: "parse_tcp_options raw 0 [] = Inr ks"
    using parse_tcp_options_returns by (rule returnsE)
  moreover have "passes_agree [] None None" by (simp add: passes_agree_def)
  then obtain m s where "mss_scale_loop raw 0 None None = Inr (m, s)" "passes_agree ks m s"
    using mss_scale_loop_agrees ks by blast
  ultimately show ?thesis by (simp add: parse_stack_fingerprint_def unat_of_nat)
qed

section \<open>Round trip of the options\<close>

definition valid_option :: "tcp_option \<Rightarrow> bool" where
  "valid_option opt \<longleftrightarrow>
     opt = tcp_nop \<or> opt_number opt \<notin> {0, 1}
       \<and> length (opt_data opt) \<le> 253 \<and> opt_length opt = [of_nat (2 + length (opt_data opt))]"

definition kind_of :: "tcp_option \<Rightarrow> tcp_option_kind" where
  "kind_of opt = (if opt_number opt = 1 then Nop else option_kind (opt_number opt))"

lemma option_at:
  assumes "opt_number opt \<notin> {0, 1}" "length (opt_data opt) \<le> 253"
    and "opt_length opt = [of_nat (2 + length (opt_data opt))]"
  shows "\<not> option_ends (pre @ option_bytes opt @ suf) (length pre)"
    and "(pre @ option_bytes opt @ suf) ! length pre = opt_number opt"
    and "unat ((pre @ option_bytes opt @ suf) ! (length pre + 1)) = length (option_bytes opt)"
  using assms
  by (simp_all add: option_ends_def option_bytes_def nth_append unat_of_nat del: of_nat_add of_nat_Suc)

lemma parse_encoded:
  "\<forall>opt \<in> set opts. valid_option opt \<Longrightarrow>
   parse_tcp_options (pre @ concat (map option_bytes opts)) (length pre) kinds
     = Inr (kinds @ map kind_of opts)"
proof (induction opts arbitrary: pre kinds)
  case Nil
  then show ?case by (simp add: parse_stops option_ends_def)
next
  case (Cons opt opts)
  let ?rest = "concat (map option_bytes opts)"
  have IH: "parse_tcp_options (pre @ option_bytes opt @ ?rest) (length pre + length (option_bytes opt)) (kinds @ ks)
      = Inr (kinds @ ks @ map kind_of opts)" for ks
    using Cons.IH [of "pre @ option_bytes opt" "kinds @ ks"] Cons.prems by simp
  show ?case
  proof (cases "opt = tcp_nop")
    case True
    then have "option_bytes opt = [1]" "kind_of opt = Nop"
      by (simp_all add: option_bytes_def tcp_nop_def kind_of_def)
    with IH [of "[Nop]"] show ?thesis by (simp add: parse_nop nth_append)
  next
    case False
    with Cons.prems have "opt_number opt \<notin> {0, 1}" "length (opt_data opt) \<le> 253"
      "opt_length opt = [of_nat (2 + length (opt_data opt))]"
      by (auto simp: valid_option_def)
    note at = option_at [OF this, of pre ?rest]
    have "opt_number opt \<noteq> 1" using \<open>opt_number opt \<notin> {0, 1}\<close> by simp
    with at IH [of "[option_kind (opt_number opt)]"] show ?thesis
      by (simp add: parse_option kind_of_def)
  qed
qed

text \<open>What the options of a list say of the segment size and the window scale: the last option
  that carries a value counts.\<close>

definition mss_of :: "tcp_option \<Rightarrow> 16 word option" where
  "mss_of opt =
     (if opt_number opt = 2 \<and> 2 \<le> length (opt_data opt)
      then Some (u16_be (opt_data opt ! 0) (opt_data opt ! 1)) else None)"

definition scale_of :: "tcp_option \<Rightarrow> byte option" where
  "scale_of opt =
     (if opt_number opt = 3 \<and> opt_data opt \<noteq> [] then Some (opt_data opt ! 0) else None)"

fun last_value :: "('a \<Rightarrow> 'b option) \<Rightarrow> 'a list \<Rightarrow> 'b option" where
  "last_value f [] = None"
| "last_value f (x # xs) = (case last_value f xs of None \<Rightarrow> f x | Some v \<Rightarrow> Some v)"

abbreviation keep_old :: "'b option \<Rightarrow> 'b option \<Rightarrow> 'b option" where
  "keep_old new old \<equiv> (case new of None \<Rightarrow> old | Some v \<Rightarrow> Some v)"

lemma option_data_at:
  assumes "opt_length opt = [of_nat (2 + length (opt_data opt))]"
  shows "i < length (opt_data opt) \<Longrightarrow>
    (pre @ option_bytes opt @ suf) ! (length pre + Suc (Suc i)) = opt_data opt ! i"
  using assms by (simp add: option_bytes_def nth_append)

lemma scale_encoded:
  "\<forall>opt \<in> set opts. valid_option opt \<Longrightarrow>
   mss_scale_loop (pre @ concat (map option_bytes opts)) (length pre) m s
     = Inr (keep_old (last_value mss_of opts) m, keep_old (last_value scale_of opts) s)"
proof (induction opts arbitrary: pre m s)
  case Nil
  then show ?case by (simp add: scale_stops option_ends_def)
next
  case (Cons opt opts)
  let ?rest = "concat (map option_bytes opts)"
  let ?all = "pre @ option_bytes opt @ ?rest"
  have IH: "mss_scale_loop ?all (length pre + length (option_bytes opt)) m' s'
      = Inr (keep_old (last_value mss_of opts) m', keep_old (last_value scale_of opts) s')" for m' s'
    using Cons.IH [of "pre @ option_bytes opt"] Cons.prems by simp
  show ?case
  proof (cases "opt = tcp_nop")
    case True
    then have "option_bytes opt = [1]" "mss_of opt = None" "scale_of opt = None"
      by (simp_all add: option_bytes_def tcp_nop_def mss_of_def scale_of_def)
    with IH [of m s] show ?thesis by (simp add: scale_nop nth_append split: option.splits)
  next
    case False
    with Cons.prems have opt: "opt_number opt \<notin> {0, 1}" "length (opt_data opt) \<le> 253"
      "opt_length opt = [of_nat (2 + length (opt_data opt))]"
      by (auto simp: valid_option_def)
    note at = option_at [OF opt, of pre ?rest]
    have "length (option_bytes opt) = 2 + length (opt_data opt)"
      by (simp add: option_bytes_def opt(3))
    moreover have "?all ! (length pre + 2) = opt_data opt ! 0" if "opt_data opt \<noteq> []"
      using option_data_at [OF opt(3), of 0] that by simp
    moreover from this have "?all ! (length pre + 2) = opt_data opt ! 0" if "2 \<le> length (opt_data opt)"
      using that by fastforce
    moreover have "?all ! (length pre + 3) = opt_data opt ! 1" if "2 \<le> length (opt_data opt)"
      using option_data_at [OF opt(3), of 1] that by (simp add: eval_nat_numeral)
    ultimately have "mss_scale_loop ?all (length pre) m s
      = mss_scale_loop ?all (length pre + length (option_bytes opt))
          (keep_old (mss_of opt) m) (keep_old (scale_of opt) s)"
      using at opt(1)
      by (subst scale_option) (auto simp: mss_of_def scale_of_def eval_nat_numeral Suc_le_eq)
    with IH show ?thesis by (simp split: option.splits)
  qed
qed

text \<open>C33: round trip of the option encoding. Whatever valid options a peer lists, in whatever
  order and with NOPs between, reading their encoding gives back exactly their kinds in order,
  and the second pass finds the segment size of the last size option with two bytes and the
  scale of the last scale option with one, or nothing where no option gives one.\<close>

theorem parse_options_round_trip:
  assumes "\<forall>opt \<in> set opts. valid_option opt"
  shows "parse_tcp_options (concat (map option_bytes opts)) 0 [] = Inr (map kind_of opts)
    \<and> mss_scale_loop (concat (map option_bytes opts)) 0 None None
        = Inr (last_value mss_of opts, last_value scale_of opts)"
  using parse_encoded [OF assms, of "[]" "[]"] scale_encoded [OF assms, of "[]" None None]
  by (simp split: option.splits)

theorem parse_options_round_trip_witness:
  "parse_tcp_options [2, 4, 0x05, 0xB4, 4, 2, 8, 10, 0, 0, 0, 0, 0, 0, 0, 0, 1, 3, 3, 7] 0 []
     = Inr [Mss, Sack_Permitted, Timestamp, Nop, Window_Scale]
   \<and> mss_scale_loop [2, 4, 0x05, 0xB4, 4, 2, 8, 10, 0, 0, 0, 0, 0, 0, 0, 0, 1, 3, 3, 7] 0 None None
     = Inr (Some 1460, Some 7)"
proof -
  have "\<forall>opt \<in> set syn_options. valid_option opt"
    by (simp add: syn_options_def valid_option_def tcp_mss_def tcp_sack_perm_def tcp_timestamp_def
        tcp_nop_def tcp_wscale_def u32_bytes_def)
  from parse_options_round_trip [OF this] show ?thesis
    unfolding syn_options_bytes
    by (simp add: syn_options_def kind_of_def tcp_mss_def tcp_sack_perm_def tcp_timestamp_def
        tcp_nop_def tcp_wscale_def option_kind_def mss_of_def scale_of_def u16_bytes_def
        u16_be_def)
qed

section \<open>The guess\<close>

text \<open>What the scores amount to: a table read from the top.\<close>

definition os_table :: "stack_fingerprint \<Rightarrow> string option" where
  "os_table fp =
     (let ttl = fp_ttl fp; window = fp_window fp;
          stamped = Timestamp \<in> set (fp_options fp) \<and> Sack_Permitted \<in> set (fp_options fp)
      in if ttl = 64 \<and> window = 65535 \<and> stamped then Some ''macOS 10.15+''
         else if ttl \<le> 64 \<and> window = 65535 \<and> fp_mss fp = Some 1460 \<and> fp_scale fp \<noteq> None
           then Some ''Linux (kernel 4.x+)''
         else if ttl = 64 \<and> window = 65535 \<and> fp_mss fp = Some 1460 then Some ''macOS 10.15+''
         else if ttl \<le> 64 \<and> window = 29200 \<and> fp_mss fp = Some 1460 then Some ''Linux (kernel 3.x)''
         else if ttl \<le> 64 then Some ''Linux''
         else if ttl = 128 \<and> window = 65535 \<and> fp_scale fp = Some 8 then Some ''Windows 10/11''
         else if ttl = 128 \<and> window = 8192 then Some ''Windows 7/2008''
         else if ttl = 128 then Some ''Windows''
         else if ttl = 255 \<and> window = 16384 then Some ''OpenBSD''
         else if ttl = 255 \<and> window = 65535 then Some ''FreeBSD''
         else if ttl = 255 then Some ''BSD/Solaris/Network Device''
         else None)"

lemma sort_scores_simps:
  "sort_key (\<lambda>(_, s). - int s) [] = []"
  "sort_key (\<lambda>(_, s). - int s) ((n, s) # xs) =
     insort_key (\<lambda>(_, s). - int s) (n, s) (sort_key (\<lambda>(_, s). - int s) xs)"
  by simp_all

lemma ttl_32: "t \<le> (32 :: byte) \<Longrightarrow> t \<le> 64 \<and> t \<noteq> 64 \<and> t \<noteq> 128 \<and> t \<noteq> 255"
  by (auto simp: word_le_nat_alt)

lemma ttl_between: "32 < t \<Longrightarrow> t < (64 :: byte) \<Longrightarrow>
    t \<le> 64 \<and> \<not> t \<le> 32 \<and> t \<noteq> 64 \<and> t \<noteq> 128 \<and> t \<noteq> 255"
  by (auto simp: word_le_nat_alt word_less_nat_alt)

lemma ttl_above: "64 < (t :: byte) \<Longrightarrow> \<not> t \<le> 64 \<and> \<not> t \<le> 32 \<and> t \<noteq> 64"
  by (auto simp: word_le_nat_alt word_less_nat_alt)

lemma guess_os_table: "guess_os fp = os_table fp"
proof -
  consider "fp_ttl fp = 64" | "fp_ttl fp = 128" | "fp_ttl fp = 255" | "fp_ttl fp \<le> 32"
    | "32 < fp_ttl fp" "fp_ttl fp < 64" | "64 < fp_ttl fp" "fp_ttl fp \<noteq> 128" "fp_ttl fp \<noteq> 255"
    by (metis linorder_not_le order_le_less)
  then show ?thesis
  proof cases
    case 1
    then show ?thesis
      by (simp add: guess_os_def os_scores_def os_table_def push_if_def Let_def)
  next
    case 2
    then show ?thesis
      by (simp add: guess_os_def os_scores_def os_table_def push_if_def Let_def)
  next
    case 3
    then show ?thesis
      by (simp add: guess_os_def os_scores_def os_table_def push_if_def Let_def)
  next
    case 4
    then have "fp_ttl fp \<le> 64" "fp_ttl fp \<noteq> 64" "fp_ttl fp \<noteq> 128" "fp_ttl fp \<noteq> 255"
      by (auto dest: ttl_32)
    with 4 show ?thesis
      by (simp add: guess_os_def os_scores_def os_table_def push_if_def Let_def)
  next
    case 5
    then have "fp_ttl fp \<le> 64" "\<not> fp_ttl fp \<le> 32" "fp_ttl fp \<noteq> 64" "fp_ttl fp \<noteq> 128" "fp_ttl fp \<noteq> 255"
      by (auto dest: ttl_between)
    then show ?thesis
      by (simp add: guess_os_def os_scores_def os_table_def push_if_def Let_def)
  next
    case 6
    then have "\<not> fp_ttl fp \<le> 64" "\<not> fp_ttl fp \<le> 32" "fp_ttl fp \<noteq> 64"
      by (auto dest: ttl_above)
    with 6 show ?thesis
      by (simp add: guess_os_def os_scores_def os_table_def push_if_def Let_def)
  qed
qed

text \<open>C32: the guess as a table. Scoring, sorting and taking the first comes to a decision table on
  the TTL, the window, the segment size, the window scale and the options; the names
  \<open>Embedded/IoT\<close> and \<open>macOS/Linux\<close> are never the answer, whatever the fingerprint.\<close>

theorem guess_os_decision:
  "guess_os fp = os_table fp
   \<and> guess_os fp \<notin> {Some ''Embedded/IoT'', Some ''macOS/Linux''}
   \<and> (guess_os fp = None \<longleftrightarrow> 64 < fp_ttl fp \<and> fp_ttl fp \<notin> {128, 255})"
proof -
  have "os_table fp \<notin> {Some ''Embedded/IoT'', Some ''macOS/Linux''}"
    by (simp add: os_table_def Let_def)
  moreover have "os_table fp = None \<longleftrightarrow> 64 < fp_ttl fp \<and> fp_ttl fp \<notin> {128, 255}"
    by (auto simp: os_table_def Let_def not_less)
  ultimately show ?thesis by (simp add: guess_os_table)
qed

section \<open>The SYN probe\<close>

lemma u16_at_bytes: "u16_be (u16_bytes w ! 0) (u16_bytes w ! 1) = w"
  by (simp add: u16_bytes_def u16_be_of_bytes)

lemma syn_layout:
  "set_word (tcp_segment sport dport seq ack off fl win syn_options) 8 c =
     u16_bytes sport @ u16_bytes dport @ octets seq @ octets ack @ [push_bit 4 off, fl]
     @ u16_bytes win @ u16_bytes c @ u16_bytes 0 @ concat (map option_bytes syn_options)"
  by (simp add: set_word_def tcp_segment_def u16_bytes_def u32_bytes_def octets_def)

definition probe_of ::
  "16 word \<Rightarrow> 16 word \<Rightarrow> 32 word \<Rightarrow> bytes \<Rightarrow> bool" where
  "probe_of sport dport seq seg \<longleftrightarrow>
     length seg = 40 \<and> tcp_source seg = sport \<and> tcp_destination seg = dport
     \<and> ipv4_at seg 4 = seq \<and> tcp_data_offset seg = 10 \<and> tcp_flags seg = flag_syn
     \<and> tcp_window seg = 65535 \<and> drop 20 seg = concat (map option_bytes syn_options)"

lemma full_window: "u16_be 255 65535 = 65535"
  by (simp add: u16_be_def)

lemma syn_fields:
  "probe_of sport dport seq (set_word (tcp_segment sport dport seq 0 10 flag_syn 65535 syn_options) 8 c)"
  unfolding syn_layout probe_of_def
  by (simp add: syn_options_bytes u16_bytes_def octets_def tcp_source_def tcp_destination_def
      word16_at_def u16_be_of_bytes ipv4_at_def ipv4_new_octets [simplified] tcp_data_offset_def tcp_flags_def
      tcp_window_def full_window)

lemma syn_checksum:
  "checksum_valid (set_word (tcp_segment sport dport seq 0 10 flag_syn 65535 syn_options) 8
     (ipv4_checksum (tcp_segment sport dport seq 0 10 flag_syn 65535 syn_options) 8 src dst proto_tcp))
     src dst proto_tcp"
  by (rule ipv4_checksum_valid) (simp_all add: length_tcp_segment syn_options_bytes)

text \<open>The SYN probe. The segment sent to a port is 40 bytes long, from the source port to the
  probed one with the sequence number 31337, a bare SYN with a data offset that covers its
  options, and its checksum is the one a receiver verifies; the options it carries are read back
  as MSS, SACK-permitted, timestamp, NOP and window scale.\<close>

theorem tcp_send_syn_well_formed:
  "probe_of src_port dst_port seq (tcp_send_syn src_ip src_port dst_ip dst_port seq)
   \<and> checksum_valid (tcp_send_syn src_ip src_port dst_ip dst_port seq) src_ip dst_ip proto_tcp
   \<and> parse_tcp_options (drop 20 (tcp_send_syn src_ip src_port dst_ip dst_port seq)) 0 []
     = Inr [Mss, Sack_Permitted, Timestamp, Nop, Window_Scale]"
proof -
  have "probe_of src_port dst_port seq (tcp_send_syn src_ip src_port dst_ip dst_port seq)"
    by (simp only: tcp_send_syn_def Let_def syn_fields)
  moreover from this have "drop 20 (tcp_send_syn src_ip src_port dst_ip dst_port seq)
      = concat (map option_bytes syn_options)"
    by (simp only: probe_of_def)
  moreover have "parse_tcp_options (concat (map option_bytes syn_options)) 0 []
      = Inr [Mss, Sack_Permitted, Timestamp, Nop, Window_Scale]"
    using parse_encoded [of syn_options "[]" "[]"]
    by (simp add: syn_options_def valid_option_def kind_of_def option_kind_def tcp_mss_def
        tcp_sack_perm_def tcp_timestamp_def tcp_nop_def tcp_wscale_def u32_bytes_def)
  ultimately show ?thesis by (simp add: tcp_send_syn_def Let_def syn_checksum)
qed

section \<open>Waiting for the answer\<close>

lemma judge_segment_deaf:
  "octet 1 (tcp_acknowledgement view) \<noteq> proto_tcp \<Longrightarrow> judge_segment sp dp view = Inr Keep_Waiting"
  by (simp only: judge_segment_def protocol_is_ack_byte if_True not_False_eq_True)

lemma options_slice_returns: "returns (options_slice view tcp)"
  by (auto simp: options_slice_def Let_def)

lemma judge_segment_returns: "returns (judge_segment sp dp view)"
  using options_slice_returns [of view]
  by (auto simp: judge_segment_def returns_bind split: option.splits)

definition readable :: "wire \<Rightarrow> bool" where
  "readable w \<longleftrightarrow> (case w of Wire d _ \<Rightarrow> returns (layer4_view 20 d) | _ \<Rightarrow> True)"

lemma wait_syn_ack_readable: "\<forall>w \<in> set wires. readable w \<Longrightarrow> returns (wait_syn_ack sp dp wires)"
proof (induction sp dp wires rule: wait_syn_ack.induct)
  case (4 sp dp d src rest)
  then obtain view where view: "layer4_view 20 d = Inr view"
    by (auto simp: readable_def elim: returnsE)
  obtain v where "judge_segment sp dp view = Inr v"
    using judge_segment_returns by (rule returnsE)
  with 4 view show ?case by (cases v) auto
qed simp_all

text \<open>The wait for a SYN-ACK is safe. As long as every datagram has an IP header within it
  and 20 bytes behind the header, the loop returns: neither the slice of the options nor any
  field is read out of range.\<close>

theorem wait_syn_ack_safe:
  assumes "\<forall>w \<in> set wires. readable w"
  shows "\<exists>r. wait_syn_ack src_port dst_port wires = Inr r"
  using wait_syn_ack_readable [OF assms] by (simp add: returns_iff)

lemma wait_syn_ack_deaf:
  "\<forall>w \<in> set wires. acknowledges 31338 w \<Longrightarrow> wait_syn_ack sp dp wires = Inr None"
proof (induction sp dp wires rule: wait_syn_ack.induct)
  case (4 sp dp d src rest)
  then obtain seg where seg: "layer4_view 20 d = Inr seg" and "tcp_acknowledgement seg = 31338"
    by (auto elim: acknowledgesE)
  then have "judge_segment sp dp seg = Inr Keep_Waiting"
    by (intro judge_segment_deaf) (simp only: deaf_ack not_False_eq_True)
  with 4 seg show ?case by simp
qed simp_all

text \<open>The fingerprint probe never hears its answer. A host that answers a SYN with sequence
  number 31337 acknowledges 31338, and the iterator of the layer-4 channel shows the TCP segment
  as an IP packet, whose protocol byte is then 0 and not 6: whatever such answers arrive, the
  probe ends without one, on any port.\<close>

theorem fingerprint_deaf_to_answers:
  assumes "\<forall>w \<in> set wires. acknowledges 31338 w"
  shows "snd (probe_port_blocking target port src_ip src_port (Some wires)) = Inr None"
  by (simp add: probe_port_blocking_def wait_syn_ack_deaf [OF assms])

text \<open>The SYN-ACK of a web server, behind a bare IP header.\<close>

definition syn_ack_datagram :: "16 word \<Rightarrow> 32 word \<Rightarrow> bytes" where
  "syn_ack_datagram src_port ack =
     [0x45, 0, 0, 60, 0, 0, 0, 0, 64, proto_tcp, 0, 0, 192, 168, 1, 1, 192, 168, 1, 10]
     @ tcp_segment 443 src_port 7 ack 10 (flag_syn OR flag_ack) 65535 syn_options"

theorem fingerprint_deaf_to_answers_witness:
  "snd (probe_port_blocking (ipv4_new 192 168 1 1) 443 (ipv4_new 192 168 1 10) 43211
      (Some [Wire (syn_ack_datagram 43211 31338) (ipv4_new 192 168 1 1)])) = Inr None"
proof (rule fingerprint_deaf_to_answers)
  have "layer4_view 20 (syn_ack_datagram 43211 31338)
      = Inr (tcp_segment 443 43211 7 31338 10 (flag_syn OR flag_ack) 65535 syn_options)"
    by (simp add: layer4_view_def syn_ack_datagram_def slice_def packet_new_def ip_header_length_def
        length_tcp_segment)
  then show "\<forall>w \<in> set [Wire (syn_ack_datagram 43211 31338) (ipv4_new 192 168 1 1)]. acknowledges 31338 w"
    by (simp add: acknowledges_def ack_of_segment)
qed

end
