(* ===== verification/Sweep.thy ===== *)
theory Sweep
  imports Packets Ports Interface Subnet
begin

text \<open>
  \<open>discovery/sweep.rs\<close>: the ICMP and the TCP probe of one host, their combination, the choice of
  the targets, and the sweep itself, whose tasks share a semaphore with 256 permits. What a raw
  socket delivers before the deadline is a list of datagrams; a socket that could not be opened
  or written to is \<open>None\<close>.
\<close>

section \<open>The ICMP probe\<close>

definition echo_packet :: bytes where
  "echo_packet =
     (let pkt = [echo_request, 0, 0, 0, 0, 0, 0, 0]
      in set_word pkt 1 (inet_checksum pkt 1))"

fun icmp_wait :: "ipv4 \<Rightarrow> wire list \<Rightarrow> bool outcome" where
  "icmp_wait target [] = Inr False"
| "icmp_wait target (Wire_Timeout # rest) = Inr False"
| "icmp_wait target (Wire_Error # rest) = Inr False"
| "icmp_wait target (Wire datagram src # rest) =
     (case layer4_view 4 datagram of Inl e \<Rightarrow> Inl e
      | Inr view \<Rightarrow>
          if icmp_type view = echo_reply \<and> src = target then Inr True else icmp_wait target rest)"

text \<open>A probe is the packets it sends with what it finds out.\<close>

definition icmp_probe :: "ipv4 \<Rightarrow> wire list option \<Rightarrow> bytes \<times> bool outcome" where
  "icmp_probe target channel =
     (echo_packet, (case channel of None \<Rightarrow> Inr False | Some wires \<Rightarrow> icmp_wait target wires))"

section \<open>The TCP probe\<close>

definition tcp_probe_ports :: "16 word list" where
  "tcp_probe_ports = [80, 443]"

definition tcp_probe_segment :: "ipv4 \<Rightarrow> 16 word \<Rightarrow> ipv4 \<Rightarrow> 16 word \<Rightarrow> bytes" where
  "tcp_probe_segment src_ip src_port target port =
     (let pkt = tcp_segment src_port port 12345 0 10 flag_syn 65535 syn_options
      in set_word pkt 8 (ipv4_checksum pkt 8 src_ip target proto_tcp))"

definition tcp_alive :: "16 word \<Rightarrow> 16 word \<Rightarrow> bytes \<Rightarrow> bool" where
  "tcp_alive src_port port view \<longleftrightarrow>
     ip_protocol view = proto_tcp
     \<and> (case tcp_new (ip_payload view) of None \<Rightarrow> False
        | Some tcp \<Rightarrow>
            tcp_destination tcp = src_port \<and> tcp_source tcp = port
            \<and> (has_flag tcp flag_rst \<or> has_flag tcp flag_syn \<and> has_flag tcp flag_ack))"

fun tcp_wait :: "16 word \<Rightarrow> 16 word \<Rightarrow> wire list \<Rightarrow> bool outcome" where
  "tcp_wait src_port port [] = Inr False"
| "tcp_wait src_port port (Wire_Timeout # rest) = Inr False"
| "tcp_wait src_port port (Wire_Error # rest) = Inr False"
| "tcp_wait src_port port (Wire datagram _ # rest) =
     (case layer4_view 20 datagram of Inl e \<Rightarrow> Inl e
      | Inr view \<Rightarrow> if tcp_alive src_port port view then Inr True else tcp_wait src_port port rest)"

definition tcp_probe ::
  "ipv4 \<Rightarrow> 16 word \<Rightarrow> ipv4 \<Rightarrow> 16 word \<Rightarrow> wire list option \<Rightarrow> bytes \<times> bool outcome" where
  "tcp_probe target port src_ip src_port channel =
     (tcp_probe_segment src_ip src_port target port,
      (case channel of None \<Rightarrow> Inr False | Some wires \<Rightarrow> tcp_wait src_port port wires))"

text \<open>\<open>join().unwrap_or(false)\<close>: a thread that panicked found nothing.\<close>

definition joined :: "bool outcome \<Rightarrow> bool" where
  "joined r = (case r of Inl _ \<Rightarrow> False | Inr b \<Rightarrow> b)"

definition probe_host ::
  "ipv4 \<Rightarrow> ipv4 \<Rightarrow> wire list option \<Rightarrow> (16 word \<Rightarrow> 16 word) \<Rightarrow> (16 word \<Rightarrow> wire list option) \<Rightarrow> bool" where
  "probe_host target src_ip icmp_channel src_port_of tcp_channel_of =
     (if joined (snd (icmp_probe target icmp_channel)) then True
      else list_ex (\<lambda>port. joined (snd (tcp_probe target port src_ip (src_port_of port) (tcp_channel_of port))))
             tcp_probe_ports)"

section \<open>The sweep\<close>

definition sweep_hosts :: "ipv4 \<Rightarrow> byte \<Rightarrow> ipv4 set \<Rightarrow> ipv4 \<Rightarrow> ipv4 list outcome" where
  "sweep_hosts subnet p known src_ip =
     outcome_bind (addresses subnet p) (\<lambda>ips.
       Inr (filter (\<lambda>ip. octet 3 ip \<noteq> 0 \<and> octet 3 ip \<noteq> 255 \<and> ip \<notin> known \<and> ip \<noteq> src_ip) ips))"

definition max_concurrent :: nat where
  "max_concurrent = 256"

record sweep_state =
  sw_waiting :: "ipv4 list"
  sw_running :: "ipv4 list"
  sw_found :: "ipv4 set"

definition start_probe :: "ipv4 \<Rightarrow> sweep_state \<Rightarrow> sweep_state" where
  "start_probe t s = s\<lparr>sw_waiting := remove1 t (sw_waiting s), sw_running := t # sw_running s\<rparr>"

definition finish_probe :: "(ipv4 \<Rightarrow> bool) \<Rightarrow> ipv4 \<Rightarrow> sweep_state \<Rightarrow> sweep_state" where
  "finish_probe hit t s =
     s\<lparr>sw_running := remove1 t (sw_running s),
       sw_found := if hit t then insert t (sw_found s) else sw_found s\<rparr>"

text \<open>A task that holds a permit probes its host and gives the permit back with its end; tasks
  without one wait. The order is the scheduler's.\<close>

inductive sweep_step :: "(ipv4 \<Rightarrow> bool) \<Rightarrow> sweep_state \<Rightarrow> sweep_state \<Rightarrow> bool" for hit where
  acquire: "t \<in> set (sw_waiting s) \<Longrightarrow> length (sw_running s) < max_concurrent \<Longrightarrow>
    sweep_step hit s (start_probe t s)"
| release: "t \<in> set (sw_running s) \<Longrightarrow> sweep_step hit s (finish_probe hit t s)"

inductive_cases sweep_stepE: "sweep_step hit s t"

definition sweep_init :: "ipv4 list \<Rightarrow> sweep_state" where
  "sweep_init targets = \<lparr>sw_waiting = targets, sw_running = [], sw_found = {}\<rparr>"

text \<open>\<open>sweep_subnet\<close> before its tasks start: no source address gives the empty result.\<close>

definition sweep_subnet_start ::
  "os_view \<Rightarrow> ipv4 \<Rightarrow> byte \<Rightarrow> ipv4 set \<Rightarrow> string option \<Rightarrow> sweep_state outcome" where
  "sweep_subnet_start os subnet p known iface =
     (case find_source_ip os iface of
        None \<Rightarrow> Inr (sweep_init [])
      | Some src_ip \<Rightarrow>
          outcome_bind (sweep_hosts subnet p known src_ip) (\<lambda>targets. Inr (sweep_init targets)))"

section \<open>Properties of the probes\<close>

text \<open>The echo request. It is 8 bytes long, an echo request with code 0, and its checksum is
  the one a receiver verifies; a host is taken to be alive through ICMP only if an echo reply
  came from its own address.\<close>

theorem icmp_probe_sound:
  "length echo_packet = 8 \<and> echo_packet ! 0 = 8 \<and> echo_packet ! 1 = 0
   \<and> sum_be_words echo_packet 8 mod 65535 = 0
   \<and> (snd (icmp_probe target channel) = Inr True \<longrightarrow>
        (\<exists>wires d view. channel = Some wires \<and> Wire d target \<in> set wires
           \<and> layer4_view 4 d = Inr view \<and> icmp_type view = echo_reply))"
proof -
  have "icmp_wait target wires = Inr True \<Longrightarrow>
      \<exists>d view. Wire d target \<in> set wires \<and> layer4_view 4 d = Inr view \<and> icmp_type view = echo_reply" for wires
    by (induction target wires rule: icmp_wait.induct) (auto split: sum.splits if_splits)
  moreover have "sum_be_words echo_packet 8 mod 65535 = 0"
  proof -
    let ?pkt = "[echo_request, 0, 0, 0, 0, 0, 0, 0]"
    have "sum_be_words (set_word ?pkt 1 (inet_checksum ?pkt 1)) (length ?pkt) mod 65535 = 0"
      by (rule inet_checksum_valid) simp_all
    moreover have "length ?pkt = 8" by simp
    ultimately show ?thesis by (simp only: echo_packet_def Let_def)
  qed
  moreover have "length echo_packet = 8 \<and> echo_packet ! 0 = 8 \<and> echo_packet ! 1 = 0"
    by (simp add: echo_packet_def Let_def set_word_def echo_request_def)
  ultimately show ?thesis by (auto simp: icmp_probe_def split: option.splits)
qed

definition echo_reply_datagram :: "ipv4 \<Rightarrow> bytes" where
  "echo_reply_datagram src =
     [0x45, 0, 0, 28, 0, 0, 0, 0, 64, proto_icmp, 0, 0] @ octets src @ [192, 168, 1, 10]
     @ [echo_reply, 0, 0, 0, 0, 0, 0, 0]"

lemma echo_reply_view:
  "layer4_view 4 (echo_reply_datagram src) = Inr [echo_reply, 0, 0, 0, 0, 0, 0, 0]"
  by (simp add: layer4_view_def echo_reply_datagram_def slice_def packet_new_def
      ip_header_length_def octets_def)

section \<open>The TCP probe hears no answer\<close>

lemma tcp_wait_deaf:
  "\<forall>w \<in> set wires. acknowledges 12346 w \<Longrightarrow> tcp_wait sp dp wires = Inr False"
proof (induction sp dp wires rule: tcp_wait.induct)
  case (4 sp dp d src rest)
  then obtain seg where seg: "layer4_view 20 d = Inr seg" and "tcp_acknowledgement seg = 12346"
    by (auto elim: acknowledgesE)
  then have "\<not> tcp_alive sp dp seg"
    unfolding tcp_alive_def protocol_is_ack_byte by (simp only: deaf_ack simp_thms)
  with 4 seg show ?case by simp
qed simp_all

text \<open>C31: the TCP probe of the sweep is blind. Its SYN has the sequence number 12345, so a host
  that is alive acknowledges 12346, with a SYN-ACK or a RST; the layer-4 iterator shows the
  segment as an IP packet whose protocol byte is then 0, and the probe finds nothing. A host is
  found by the sweep exactly if its ICMP probe finds it.\<close>

theorem probe_host_is_icmp_only:
  assumes "\<And>port wires. tcp_channel_of port = Some wires \<Longrightarrow> \<forall>w \<in> set wires. acknowledges 12346 w"
  shows "probe_host target src_ip icmp_channel src_port_of tcp_channel_of
    = joined (snd (icmp_probe target icmp_channel))"
proof -
  have "\<not> joined (snd (tcp_probe target port src_ip (src_port_of port) (tcp_channel_of port)))" for port
    using assms [of port]
    by (cases "tcp_channel_of port") (simp_all add: tcp_probe_def joined_def tcp_wait_deaf)
  then show ?thesis by (simp add: probe_host_def tcp_probe_ports_def)
qed

text \<open>A closed port: the RST of a host that does not answer pings.\<close>

definition rst_datagram :: "16 word \<Rightarrow> 16 word \<Rightarrow> bytes" where
  "rst_datagram port src_port =
     [0x45, 0, 0, 40, 0, 0, 0, 0, 64, proto_tcp, 0, 0, 192, 168, 1, 20, 192, 168, 1, 10]
     @ tcp_segment port src_port 0 12346 5 (flag_rst OR flag_ack) 0 []"

lemma rst_datagram_view:
  "layer4_view 20 (rst_datagram port src_port)
     = Inr (tcp_segment port src_port 0 12346 5 (flag_rst OR flag_ack) 0 [])"
  by (simp add: layer4_view_def rst_datagram_def slice_def packet_new_def ip_header_length_def
      length_tcp_segment)

theorem probe_host_is_icmp_only_witness:
  "\<not> probe_host (ipv4_new 192 168 1 20) (ipv4_new 192 168 1 10) (Some [Wire_Timeout]) (\<lambda>_. 51001)
     (\<lambda>port. Some [Wire (rst_datagram port 51001) (ipv4_new 192 168 1 20)])"
proof -
  have answers: "\<forall>w \<in> set wires. acknowledges 12346 w"
    if "Some [Wire (rst_datagram port 51001) (ipv4_new 192 168 1 20)] = Some wires" for port wires
  proof -
    have "wires = [Wire (rst_datagram port 51001) (ipv4_new 192 168 1 20)]" using that by simp
    then show ?thesis by (simp add: acknowledges_def rst_datagram_view ack_of_segment)
  qed
  have "\<not> joined (snd (icmp_probe (ipv4_new 192 168 1 20) (Some [Wire_Timeout])))"
    by (simp add: icmp_probe_def joined_def)
  then show ?thesis
    by (subst probe_host_is_icmp_only) (erule answers)
qed

section \<open>The targets\<close>

lemma sweep_hosts_good:
  assumes "good_prefix p"
  obtains hosts where "sweep_hosts subnet p known src_ip = Inr hosts" and "distinct hosts"
    and "set hosts = subnet_hosts subnet p - known - {src_ip}" and "sorted hosts"
proof -
  let ?ips = "map (\<lambda>i. base_value subnet p + of_nat i) [0..<2 ^ host_bits p]"
  let ?keep = "\<lambda>ip. octet 3 ip \<noteq> 0 \<and> octet 3 ip \<noteq> 255 \<and> ip \<notin> known \<and> ip \<noteq> src_ip"
  have "sweep_hosts subnet p known src_ip = Inr (filter ?keep ?ips)"
    by (simp only: sweep_hosts_def addresses_good [OF assms] outcome_bind_simps)
  moreover have "distinct ?ips" "sorted ?ips"
    using sorted_addresses [of subnet p] by (simp_all only: strict_sorted_iff)
  then have "distinct (filter ?keep ?ips)" "sorted (filter ?keep ?ips)"
    by (simp_all only: distinct_filter sorted_wrt_filter)
  moreover have "set (filter ?keep ?ips) = subnet_hosts subnet p - known - {src_ip}"
    unfolding set_filter set_addresses [OF assms] by (auto simp: subnet_hosts_def host_octet_def)
  ultimately show thesis using that by blast
qed

text \<open>The targets of the sweep. For a prefix from 1 to 32 the list of targets is computed
  without an overflow; it has no duplicates and holds exactly the addresses of the subnet whose
  last byte is neither 0 nor 255, less those already known and the scanner's own. For a prefix
  of 0 or above 32 the computation panics.\<close>

theorem sweep_hosts_exact:
  "if 1 \<le> unat p \<and> unat p \<le> 32
   then \<exists>hosts. sweep_hosts subnet p known src_ip = Inr hosts \<and> distinct hosts
     \<and> set hosts = subnet_hosts subnet p - known - {src_ip}
   else sweep_hosts subnet p known src_ip = Inl (if unat p = 0 then Shift_Overflow else Arithmetic_Overflow)"
proof (cases "good_prefix p")
  case True
  then show ?thesis
    using sweep_hosts_good [OF True, of subnet known src_ip] by (auto simp: good_prefix_def)
next
  case False
  then show ?thesis
    by (auto simp: good_prefix_def sweep_hosts_def addresses_def netmask_eq)
qed

section \<open>The run of the sweep\<close>

definition sweep_inv :: "(ipv4 \<Rightarrow> bool) \<Rightarrow> ipv4 list \<Rightarrow> sweep_state \<Rightarrow> bool" where
  "sweep_inv hit targets s \<longleftrightarrow>
     length (sw_running s) \<le> max_concurrent
     \<and> distinct (sw_waiting s @ sw_running s)
     \<and> set (sw_waiting s) \<union> set (sw_running s) \<subseteq> set targets
     \<and> sw_found s = {t \<in> set targets - set (sw_waiting s) - set (sw_running s). hit t}"

lemma sweep_inv_start:
  "sweep_inv hit targets s \<Longrightarrow> t \<in> set (sw_waiting s) \<Longrightarrow> length (sw_running s) < max_concurrent \<Longrightarrow>
   sweep_inv hit targets (start_probe t s)"
  by (auto simp: sweep_inv_def start_probe_def dest: in_set_remove1)

lemma sweep_inv_finish:
  "sweep_inv hit targets s \<Longrightarrow> t \<in> set (sw_running s) \<Longrightarrow> sweep_inv hit targets (finish_probe hit t s)"
  by (auto simp: sweep_inv_def finish_probe_def length_remove1 dest: in_set_remove1 notin_set_remove1)

interpretation sweep: invariant_system "\<lambda>s. distinct targets \<and> s = sweep_init targets"
    "sweep_step hit" "sweep_inv hit targets"
  for targets hit
proof
  fix s
  assume "distinct targets \<and> s = sweep_init targets"
  then show "sweep_inv hit targets s" by (auto simp: sweep_inv_def sweep_init_def)
next
  fix s t
  assume "sweep_inv hit targets s" and "sweep_step hit s t"
  then show "sweep_inv hit targets t"
    by (auto elim!: sweep_stepE intro: sweep_inv_start sweep_inv_finish)
qed

lemma sweep_stuck:
  "\<not> (\<exists>t. sweep_step hit s t) \<longleftrightarrow> sw_waiting s = [] \<and> sw_running s = []"
proof
  assume stuck: "\<not> (\<exists>t. sweep_step hit s t)"
  have "sw_running s = []"
    using stuck sweep_step.release [of _ s hit] by (cases "sw_running s") auto
  moreover from this have "sw_waiting s = []"
    using stuck sweep_step.acquire [of _ s hit]
    by (cases "sw_waiting s") (auto simp: max_concurrent_def)
  ultimately show "sw_waiting s = [] \<and> sw_running s = []" by simp
qed (auto elim!: sweep_stepE)

definition sweep_work :: "sweep_state \<Rightarrow> nat" where
  "sweep_work s = 2 * length (sw_waiting s) + length (sw_running s)"

lemma Suc_length_remove1: "x \<in> set xs \<Longrightarrow> Suc (length (remove1 x xs)) = length xs"
  by (induction xs) auto

lemma sweep_progress: "sweep_step hit s t \<Longrightarrow> sweep_work t < sweep_work s"
  by (auto elim!: sweep_stepE dest!: Suc_length_remove1
      simp: sweep_work_def start_probe_def finish_probe_def simp del: length_remove1)

interpretation sweep_ends: finishing_system "sweep_step hit" "\<lambda>_. True"
    "\<lambda>s. sw_waiting s = [] \<and> sw_running s = []" sweep_work for hit
  by unfold_locales (metis sweep_stuck sweep_progress)

lemma sweep_result:
  assumes "distinct targets" "(sweep_step hit)\<^sup>*\<^sup>* (sweep_init targets) s" "sw_waiting s = []" "sw_running s = []"
  shows "sw_found s = {t \<in> set targets. hit t}"
  using sweep.reachable_inv [OF _ assms(2)] assms(1,3,4) by (simp add: sweep_inv_def)

text \<open>C30: the bounded sweep. However the tasks are scheduled, never more than 256 probes run at
  once; every step uses up work, so the sweep ends after at most twice as many steps as there
  are targets; it cannot get stuck before, can be ended from any state, and when it ends the
  result is exactly the set of targets whose probe succeeded.\<close>

theorem sweep_run:
  assumes "distinct targets" and "(sweep_step hit)\<^sup>*\<^sup>* (sweep_init targets) s"
  shows "length (sw_running s) \<le> 256
    \<and> (\<forall>t. sweep_step hit s t \<longrightarrow> sweep_work t < sweep_work s)
    \<and> ((\<exists>t. sweep_step hit s t) \<or> sw_found s = {t \<in> set targets. hit t})
    \<and> (\<exists>n u. n \<le> sweep_work s \<and> (sweep_step hit ^^ n) s u \<and> sw_found u = {t \<in> set targets. hit t})"
proof -
  have "sweep_inv hit targets s" by (rule sweep.reachable_inv [OF _ assms(2)]) (simp add: assms(1))
  then have "length (sw_running s) \<le> 256" by (simp add: sweep_inv_def max_concurrent_def)
  moreover have "(\<exists>t. sweep_step hit s t) \<or> sw_found s = {t \<in> set targets. hit t}"
    using sweep_result [OF assms] sweep_stuck by blast
  moreover obtain u n where u: "n \<le> sweep_work s" "(sweep_step hit ^^ n) s u"
    "sw_waiting u = []" "sw_running u = []"
    using sweep_ends.finishes [of s hit] by blast
  then have "(sweep_step hit)\<^sup>*\<^sup>* (sweep_init targets) u"
    using assms(2) by (meson relpowp_imp_rtranclp rtranclp_trans)
  with u have "sw_found u = {t \<in> set targets. hit t}" using sweep_result [OF assms(1)] by blast
  ultimately show ?thesis using u(1,2) sweep_progress by blast
qed

theorem sweep_run_witness:
  "sw_found (finish_probe (\<lambda>t. t = 7) 7 (start_probe 7 (sweep_init [7])))
     = {t \<in> set [7]. t = 7}"
proof -
  let ?s = "finish_probe (\<lambda>t. t = 7) 7 (start_probe 7 (sweep_init [7]))"
  have "sweep_step (\<lambda>t. t = 7) (sweep_init [7]) (start_probe 7 (sweep_init [7]))"
    by (rule sweep_step.acquire) (simp_all add: sweep_init_def max_concurrent_def)
  moreover have "sweep_step (\<lambda>t. t = 7) (start_probe 7 (sweep_init [7])) ?s"
    by (rule sweep_step.release) (simp add: start_probe_def)
  ultimately have run: "(sweep_step (\<lambda>t. t = 7))\<^sup>*\<^sup>* (sweep_init [7]) ?s"
    by (meson converse_rtranclp_into_rtranclp r_into_rtranclp)
  have "\<not> (\<exists>t. sweep_step (\<lambda>t. t = 7) ?s t)"
    unfolding sweep_stuck by (simp add: finish_probe_def start_probe_def sweep_init_def)
  then show ?thesis
    using sweep_run [OF _ run, THEN conjunct2, THEN conjunct2, THEN conjunct1] by simp
qed

end
