(* ===== verification/Arp_Scan.thy ===== *)
theory Arp_Scan
  imports Packets Interface Subnet Device_Model "HOL-Library.Multiset"
begin

text \<open>
  \<open>discovery/arp.rs\<close>: the request frame, the thread that picks replies out of the frames of a
  datalink channel, the loop that collects them until a quiet window or the hard cap, and the
  scan of a subnet. Instants are milliseconds; what a channel delivers and which branch of
  \<open>select!\<close> wins are arguments.
\<close>

section \<open>Frames\<close>

definition subnet_iter :: "ipv4 \<Rightarrow> byte \<Rightarrow> ipv4 list outcome" where
  "subnet_iter subnet p =
     outcome_bind (addresses subnet p) (\<lambda>ips.
       Inr (filter (\<lambda>ip. octet 3 ip \<noteq> 0 \<and> octet 3 ip \<noteq> 255) ips))"

definition sweep_targets :: "ipv4 \<Rightarrow> byte \<Rightarrow> ipv4 set \<Rightarrow> ipv4 list outcome" where
  "sweep_targets subnet p found =
     outcome_bind (subnet_iter subnet p) (\<lambda>ips. Inr (filter (\<lambda>ip. ip \<notin> found) ips))"

definition mac_zero :: mac where
  "mac_zero = MacAddr6 0 0 0 0 0 0"

definition arp_packet :: "16 word \<Rightarrow> mac \<Rightarrow> ipv4 \<Rightarrow> mac \<Rightarrow> ipv4 \<Rightarrow> bytes" where
  "arp_packet operation sender_mac sender_ip target_mac target_ip =
     u16_bytes 1 @ u16_bytes ethertype_ipv4 @ [6, 4] @ u16_bytes operation
     @ mac_bytes sender_mac @ octets sender_ip @ mac_bytes target_mac @ octets target_ip"

definition ethernet_frame :: "mac \<Rightarrow> mac \<Rightarrow> 16 word \<Rightarrow> bytes \<Rightarrow> bytes" where
  "ethernet_frame destination source etype payload =
     mac_bytes destination @ mac_bytes source @ u16_bytes etype @ payload"

definition op_request :: "16 word" where "op_request = 1"
definition op_reply :: "16 word" where "op_reply = 2"

definition arp_request_frame :: "ipv4 \<Rightarrow> mac \<Rightarrow> ipv4 \<Rightarrow> bytes" where
  "arp_request_frame source_ip source_mac target_ip =
     ethernet_frame mac_broadcast source_mac ethertype_arp
       (arp_packet op_request source_mac source_ip mac_zero target_ip)"

text \<open>What the receiving thread makes of a frame.\<close>

definition arp_reply_of :: "bytes \<Rightarrow> arp_entry option" where
  "arp_reply_of packet =
     (case ethernet_new packet of None \<Rightarrow> None
      | Some ethernet \<Rightarrow>
          if ethertype ethernet = ethertype_arp then
            (case arp_new (eth_payload ethernet) of None \<Rightarrow> None
             | Some arp \<Rightarrow>
                 if arp_operation arp = op_reply then
                   Some \<lparr>entry_ip = arp_sender_ip arp, entry_mac = arp_sender_mac arp\<rparr>
                 else None)
          else None)"

text \<open>The thread reads until its deadline or an error (\<open>None\<close>) and sends what it finds.\<close>

fun receiver_thread :: "bytes option list \<Rightarrow> arp_entry list" where
  "receiver_thread [] = []"
| "receiver_thread (None # rest) = []"
| "receiver_thread (Some packet # rest) =
     (case arp_reply_of packet of None \<Rightarrow> receiver_thread rest
      | Some entry \<Rightarrow> entry # receiver_thread rest)"

section \<open>Collecting the replies\<close>

datatype select_event = Received arp_entry nat | Slept | Deadline_Slept

text \<open>One pass of the loop: the instant it reads first, and the branch of \<open>select!\<close> it takes,
  with the instant recorded for a reply.\<close>

fun receive_loop ::
  "nat \<Rightarrow> nat \<Rightarrow> arp_entry set \<Rightarrow> nat option \<Rightarrow> (nat \<times> select_event) list \<Rightarrow> arp_entry set" where
  "receive_loop hard_deadline quiet entries last_seen [] = entries"
| "receive_loop hard_deadline quiet entries last_seen ((now, event) # rest) =
     (if hard_deadline \<le> now then entries
      else if (case last_seen of None \<Rightarrow> False | Some t \<Rightarrow> quiet \<le> now - t) then entries
      else
        (case event of
           Received entry at \<Rightarrow>
             receive_loop hard_deadline quiet (insert entry entries) (Some at) rest
         | Slept \<Rightarrow> receive_loop hard_deadline quiet entries last_seen rest
         | Deadline_Slept \<Rightarrow> entries))"

definition receive_arp_responses ::
  "nat \<Rightarrow> nat \<Rightarrow> nat \<Rightarrow> (nat \<times> select_event) list \<Rightarrow> arp_entry list \<Rightarrow> arp_entry set" where
  "receive_arp_responses hard_cap quiet start events queued =
     receive_loop (start + hard_cap) quiet {} None events \<union> set queued"

section \<open>The scan\<close>

text \<open>\<open>received\<close> is what the receiving task returned, as the hash set is iterated, or \<open>None\<close>
  when the task failed or its time was over.\<close>

definition scan_subnet ::
  "os_view \<Rightarrow> ipv4 \<Rightarrow> byte \<Rightarrow> string option \<Rightarrow> arp_entry list option \<Rightarrow>
   (bytes list \<times> arp_entry list) outcome" where
  "scan_subnet os subnet p iface received =
     (case find_interface (os_pnet os) iface of None \<Rightarrow> Inr ([], [])
      | Some interface \<Rightarrow>
        (case first_ipv4 interface of None \<Rightarrow> Inr ([], [])
         | Some source_ip \<Rightarrow>
           (case ni_mac interface of None \<Rightarrow> Inr ([], [])
            | Some source_mac \<Rightarrow>
                outcome_bind (subnet_iter subnet p) (\<lambda>targets.
                outcome_bind (sweep_targets subnet p {source_ip}) (\<lambda>retry_targets.
                  Inr (map (arp_request_frame source_ip source_mac) (targets @ retry_targets),
                       sort_key entry_ip (case received of None \<Rightarrow> [] | Some es \<Rightarrow> es)))))))"

section \<open>Properties\<close>

lemma length_arp_packet [simp]: "length (arp_packet op smac sip tmac tip) = 28"
  by (simp add: arp_packet_def)

lemma arp_packet_fields [simp]:
  "arp_operation (arp_packet op smac sip tmac tip) = op"
  "arp_sender_mac (arp_packet op smac sip tmac tip) = smac"
  "arp_sender_ip (arp_packet op smac sip tmac tip) = sip"
  "arp_target_mac (arp_packet op smac sip tmac tip) = tmac"
  "arp_target_ip (arp_packet op smac sip tmac tip) = tip"
  unfolding arp_packet_def
  by (cases smac; cases tmac;
      simp add: word16_at_def u16_bytes_def u16_be_of_bytes arp_operation_def arp_sender_mac_def
        arp_sender_ip_def arp_target_mac_def arp_target_ip_def mac_at_def ipv4_at_def octets_def
        ipv4_new_octets [simplified])+

lemma frame_fields [simp]:
  "length (ethernet_frame dst src et payload) = 14 + length payload"
  "ethertype (ethernet_frame dst src et payload) = et"
  "eth_payload (ethernet_frame dst src et payload) = payload"
  "ethernet_new (ethernet_frame dst src et payload) = Some (ethernet_frame dst src et payload)"
  unfolding ethernet_frame_def
  by (cases dst; cases src;
      simp add: packet_new_def ethertype_def word16_at_def u16_bytes_def u16_be_of_bytes
        eth_payload_def)+

text \<open>ARP frames. The request for an address is a 42-byte broadcast frame in which a receiver
  reads back the operation, the sender's two addresses and the target; the scanner does not take
  it for a reply. The reply with which a host answers is recognised, with the host's address and
  MAC and nothing else, whatever the destination and the target fields are.\<close>

theorem arp_frames:
  "length (arp_request_frame sip smac tip) = 42
   \<and> ethertype (arp_request_frame sip smac tip) = ethertype_arp
   \<and> (let arp = eth_payload (arp_request_frame sip smac tip)
      in arp_operation arp = op_request \<and> arp_sender_mac arp = smac \<and> arp_sender_ip arp = sip
         \<and> arp_target_ip arp = tip)
   \<and> arp_reply_of (arp_request_frame sip smac tip) = None
   \<and> arp_reply_of (ethernet_frame dst smac ethertype_arp (arp_packet op_reply smac tip tmac sip))
       = Some \<lparr>entry_ip = tip, entry_mac = smac\<rparr>"
  by (simp add: arp_request_frame_def arp_reply_of_def packet_new_def op_request_def op_reply_def)

lemma receiver_thread_set: "e \<in> set (receiver_thread packets) \<Longrightarrow>
    \<exists>packet. Some packet \<in> set packets \<and> arp_reply_of packet = Some e"
  by (induction packets rule: receiver_thread.induct) (auto split: option.splits)

lemma subnet_iter_good:
  assumes "good_prefix p"
  obtains ips where "subnet_iter subnet p = Inr ips" and "distinct ips" and "sorted ips"
    and "set ips = subnet_hosts subnet p"
proof -
  let ?ips = "map (\<lambda>i. base_value subnet p + of_nat i) [0..<2 ^ host_bits p]"
  let ?keep = "\<lambda>ip. octet 3 ip \<noteq> 0 \<and> octet 3 ip \<noteq> 255"
  have "subnet_iter subnet p = Inr (filter ?keep ?ips)"
    by (simp only: subnet_iter_def addresses_good [OF assms] outcome_bind_simps)
  moreover have "distinct ?ips" "sorted ?ips"
    using sorted_addresses [of subnet p] by (simp_all only: strict_sorted_iff)
  then have "distinct (filter ?keep ?ips)" "sorted (filter ?keep ?ips)"
    by (simp_all only: distinct_filter sorted_wrt_filter)
  moreover have "set (filter ?keep ?ips) = subnet_hosts subnet p"
    unfolding set_filter set_addresses [OF assms] by (auto simp: subnet_hosts_def host_octet_def)
  ultimately show thesis using that by blast
qed

text \<open>The hosts of a subnet. For a prefix from 1 to 32 the list is computed without an
  overflow, in ascending order, and holds exactly the addresses with the subnet's network part
  whose last byte is neither 0 nor 255; membership is equality of the leading bits. A prefix of
  0, which the command line accepts, or above 32 is a panic.\<close>

theorem subnet_iter_exact:
  "if 1 \<le> unat p \<and> unat p \<le> 32
   then \<exists>ips. subnet_iter subnet p = Inr ips \<and> sorted_wrt (<) ips
     \<and> set ips = {ip. drop_bit (32 - unat p) ip = drop_bit (32 - unat p) subnet
          \<and> octet 3 ip \<notin> {0, 255}}
   else subnet_iter subnet p = Inl (if unat p = 0 then Shift_Overflow else Arithmetic_Overflow)"
proof (cases "good_prefix p")
  case True
  obtain ips where "subnet_iter subnet p = Inr ips" "distinct ips" "sorted ips"
    "set ips = subnet_hosts subnet p"
    by (rule subnet_iter_good [OF True])
  then show ?thesis
    using True by (auto simp: good_prefix_def subnet_hosts_def base_value_eq_iff host_octet_def
        strict_sorted_iff)
next
  case False
  then show ?thesis
    by (auto simp: good_prefix_def subnet_iter_def addresses_def netmask_eq)
qed

lemma count_list_distinct: "distinct xs \<Longrightarrow> x \<in> set xs \<Longrightarrow> count_list xs x = 1"
  by (induction xs) (auto simp: count_notin)

text \<open>C35: the scan. On an interface with an IPv4 address and a MAC, for a prefix from 1 to 32,
  the scan asks for the hosts of the subnet and for nothing else: for the scanner's own address,
  if it is a host of the subnet, once, and for every other host twice; its result is the
  received entries, all of them, ordered by address.\<close>

theorem scan_subnet_complete:
  assumes "find_interface (os_pnet os) iface = Some i" "first_ipv4 i = Some source_ip"
    "ni_mac i = Some source_mac" and "1 \<le> unat p" "unat p \<le> 32"
  shows "\<exists>frames entries. scan_subnet os subnet p iface (Some received) = Inr (frames, entries)
    \<and> set frames = arp_request_frame source_ip source_mac ` subnet_hosts subnet p
    \<and> (\<forall>ip \<in> subnet_hosts subnet p.
         count_list frames (arp_request_frame source_ip source_mac ip)
           = (if ip = source_ip then 1 else 2))
    \<and> mset entries = mset received \<and> sorted (map entry_ip entries)"
proof -
  have "good_prefix p" using assms(4,5) by (simp add: good_prefix_def)
  then obtain ips where ips: "subnet_iter subnet p = Inr ips" "distinct ips" "set ips = subnet_hosts subnet p"
    using subnet_iter_good [of p subnet] by blast
  let ?f = "arp_request_frame source_ip source_mac"
  let ?retry = "filter (\<lambda>ip. ip \<notin> {source_ip}) ips"
  have "?f ip = ?f ip' \<Longrightarrow> ip = ip'" for ip ip'
    using arp_packet_fields(5) frame_fields(3) unfolding arp_request_frame_def by metis
  then have inj: "inj ?f" by (rule injI)
  have scan: "scan_subnet os subnet p iface (Some received)
      = Inr (map ?f (ips @ ?retry), sort_key entry_ip received)"
    by (simp add: scan_subnet_def assms ips sweep_targets_def)
  have "count_list (map ?f (ips @ ?retry)) (?f ip) = (if ip = source_ip then 1 else 2)"
    if "ip \<in> subnet_hosts subnet p" for ip
  proof -
    have "count_list (map ?f xs) (?f ip) = count_list xs ip" for xs
      using inj by (induction xs) (auto dest: injD)
    moreover have "count_list ips ip = 1" "count_list ?retry ip = (if ip = source_ip then 0 else 1)"
      using that ips by (simp_all add: count_list_distinct count_notin)
    ultimately show ?thesis by (simp add: count_list_append)
  qed
  then show ?thesis using scan ips(3) by auto
qed

theorem scan_subnet_complete_witness:
  "\<exists>frames entries. scan_subnet sample_os (ipv4_new 192 168 1 0) 30 (Some ''eth0'')
       (Some [\<lparr>entry_ip = 7, entry_mac = mac_zero\<rparr>, \<lparr>entry_ip = 3, entry_mac = mac_zero\<rparr>])
     = Inr (frames, entries)
   \<and> (\<forall>ip \<in> subnet_hosts (ipv4_new 192 168 1 0) 30.
         count_list frames (arp_request_frame (ipv4_new 192 168 1 10) (MacAddr6 2 0 0 0 0 1) ip)
           = (if ip = ipv4_new 192 168 1 10 then 1 else 2))
   \<and> mset entries = {#\<lparr>entry_ip = 7, entry_mac = mac_zero\<rparr>, \<lparr>entry_ip = 3, entry_mac = mac_zero\<rparr>#}"
proof -
  obtain i where i: "find_interface (os_pnet sample_os) (Some ''eth0'') = Some i"
    "first_ipv4 i = Some (ipv4_new 192 168 1 10)" "ni_mac i = Some (MacAddr6 2 0 0 0 0 1)"
    by (simp add: sample_os_def find_interface_def suitable_def is_ipv4_def first_ipv4_def)
  show ?thesis
    using scan_subnet_complete [OF i, of 30 "ipv4_new 192 168 1 0"
        "[\<lparr>entry_ip = 7, entry_mac = mac_zero\<rparr>, \<lparr>entry_ip = 3, entry_mac = mac_zero\<rparr>]"]
    by auto
qed

section \<open>The collecting loop\<close>

definition event_entries :: "(nat \<times> select_event) list \<Rightarrow> arp_entry set" where
  "event_entries events = {e. \<exists>now at. (now, Received e at) \<in> set events}"

lemma event_entries_simps [simp]:
  "event_entries [] = {}"
  "event_entries ((now, Received e at) # events) = insert e (event_entries events)"
  "event_entries ((now, Slept) # events) = event_entries events"
  "event_entries ((now, Deadline_Slept) # events) = event_entries events"
  by (auto simp: event_entries_def)

text \<open>Where the loop goes on: before the deadline, and no reply lies a quiet window back.\<close>

fun within_window :: "nat \<Rightarrow> nat \<Rightarrow> nat option \<Rightarrow> (nat \<times> select_event) list \<Rightarrow> bool" where
  "within_window d q seen [] = True"
| "within_window d q seen ((now, event) # rest) =
     (now < d \<and> (case seen of None \<Rightarrow> True | Some t \<Rightarrow> now - t < q)
      \<and> (case event of
           Received _ at \<Rightarrow> within_window d q (Some at) rest
         | Slept \<Rightarrow> within_window d q seen rest
         | Deadline_Slept \<Rightarrow> rest = []))"

text \<open>The instant the loop has recorded for its last reply, and where the loop ends: at the
  timer of the hard cap, or at a pass that begins after the cap or a quiet window after the last
  reply.\<close>

fun last_received :: "nat option \<Rightarrow> (nat \<times> select_event) list \<Rightarrow> nat option" where
  "last_received seen [] = seen"
| "last_received seen ((now, event) # rest) =
     last_received (case event of Received _ at \<Rightarrow> Some at | _ \<Rightarrow> seen) rest"

definition window_closed ::
  "nat \<Rightarrow> nat \<Rightarrow> nat option \<Rightarrow> (nat \<times> select_event) list \<Rightarrow> (nat \<times> select_event) list \<Rightarrow> bool" where
  "window_closed d q seen before after \<longleftrightarrow>
     after = [] \<or> (before \<noteq> [] \<and> snd (last before) = Deadline_Slept) \<or> d \<le> fst (hd after)
     \<or> (case last_received seen before of None \<Rightarrow> False | Some t \<Rightarrow> q \<le> fst (hd after) - t)"

lemma window_closed_Cons:
  "window_closed d q seen ((now, event) # before) after \<longleftrightarrow>
     (event = Deadline_Slept \<and> before = [])
     \<or> window_closed d q (case event of Received _ at \<Rightarrow> Some at | _ \<Rightarrow> seen) before after"
  by (auto simp: window_closed_def)

lemma receive_loop_exact:
  "within_window d q seen before \<Longrightarrow> window_closed d q seen before after \<Longrightarrow>
   receive_loop d q entries seen (before @ after) = entries \<union> event_entries before"
proof (induction d q entries seen before rule: receive_loop.induct)
  case (1 d q entries seen)
  then show ?case by (cases after) (auto simp: window_closed_def split: option.splits if_splits)
next
  case (2 d q entries seen now event before)
  then show ?case
    by (cases event) (auto simp: window_closed_Cons split: option.splits)
qed

lemma receive_loop_split:
  "\<exists>before after. events = before @ after \<and> within_window d q seen before
     \<and> window_closed d q seen before after"
proof (induction events arbitrary: seen)
  case Nil
  show ?case by (auto simp: window_closed_def)
next
  case (Cons e rest)
  obtain now event where e: "e = (now, event)" by fastforce
  let ?seen = "case event of Received _ at \<Rightarrow> Some at | _ \<Rightarrow> seen"
  show ?case
  proof (cases "now < d \<and> (case seen of None \<Rightarrow> True | Some t \<Rightarrow> now - t < q)")
    case False
    then have "window_closed d q seen [] (e # rest)"
      by (auto simp: window_closed_def e split: option.splits)
    then show ?thesis by (metis append_Nil within_window.simps(1))
  next
    case open_now: True
    show ?thesis
    proof (cases "event = Deadline_Slept")
      case True
      then have "within_window d q seen [e]" "window_closed d q seen [e] rest"
        using open_now by (auto simp: e window_closed_def)
      then show ?thesis by (metis append_Cons append_Nil)
    next
      case False
      obtain before after where *: "rest = before @ after" "within_window d q ?seen before"
        "window_closed d q ?seen before after"
        using Cons.IH by blast
      have "within_window d q seen (e # before)"
        using open_now False *(2) by (cases event) (auto simp: e)
      moreover have "window_closed d q seen (e # before) after"
        using *(3) by (simp add: e window_closed_Cons)
      ultimately show ?thesis using *(1) by (metis append_Cons)
    qed
  qed
qed



end
