(* ===== verification/Namer.thy ===== *)
theory Namer
  imports Rust_Text
begin

text \<open>
  \<open>identity/namer.rs\<close>: the tag given to a new device, an adjective and a noun chosen by a
  64-bit hash of its key (the multiply-then-add hash of the source, with the FNV constants).
\<close>

definition adjectives :: "string list" where
  "adjectives =
     [''amber'', ''azure'', ''bold'', ''brisk'', ''calm'', ''cedar'', ''clear'', ''coral'',
      ''crisp'', ''dusk'', ''ember'', ''fleet'', ''frost'', ''gold'', ''grave'', ''iron'',
      ''jade'', ''keen'', ''lark'', ''lunar'', ''mesa'', ''mild'', ''misty'', ''noble'',
      ''opal'', ''pale'', ''pine'', ''quiet'', ''rapid'', ''raven'', ''rigid'', ''rocky'',
      ''sage'', ''salt'', ''sharp'', ''silk'', ''slate'', ''solar'', ''stark'', ''steel'',
      ''still'', ''stone'', ''storm'', ''stout'', ''swift'', ''tidal'', ''tawny'', ''thorn'',
      ''vale'', ''vivid'', ''warm'', ''wild'', ''wry'', ''zeal'']"

definition nouns :: "string list" where
  "nouns =
     [''anchor'', ''anvil'', ''arch'', ''arrow'', ''axle'', ''basin'', ''beam'', ''bell'',
      ''blade'', ''bloom'', ''bolt'', ''bough'', ''brook'', ''cape'', ''chain'', ''cliff'',
      ''coil'', ''crest'', ''crown'', ''delta'', ''dome'', ''draft'', ''drift'', ''drum'',
      ''dune'', ''fern'', ''field'', ''flare'', ''flint'', ''forge'', ''gale'', ''gate'',
      ''gear'', ''glen'', ''grove'', ''helm'', ''hull'', ''keel'', ''knoll'', ''lance'',
      ''ledge'', ''loom'', ''mast'', ''mill'', ''moor'', ''notch'', ''orbit'', ''peak'',
      ''pike'', ''plume'', ''pond'', ''quill'', ''rail'', ''reef'', ''ridge'', ''rivet'',
      ''rook'', ''root'', ''rudder'', ''rune'', ''shaft'', ''shore'', ''silt'', ''slab'',
      ''spar'', ''spike'', ''spire'', ''spool'', ''sprig'', ''squad'', ''stave'', ''stem'',
      ''step'', ''tide'', ''torch'', ''trace'', ''trail'', ''twig'', ''vale'', ''vault'',
      ''veil'', ''vent'', ''wake'', ''wall'', ''wave'', ''wedge'', ''well'', ''wire'']"

text \<open>\<open>wrapping_mul\<close> and \<open>wrapping_add\<close> are the operations of the 64-bit word.\<close>

definition hash_key :: "string \<Rightarrow> 64 word" where
  "hash_key key =
     foldl (\<lambda>h c. h * 0x100000001b3 + ucast (byte_of_char c)) 0xcbf29ce484222325 key"

definition generate :: "string \<Rightarrow> string outcome" where
  "generate key =
     (let h = hash_key key
      in outcome_bind (index_at adjectives (unat h mod length adjectives)) (\<lambda>adj.
         outcome_bind (index_at nouns (unat (drop_bit 32 h) mod length nouns)) (\<lambda>noun.
           Inr (adj @ ''-'' @ noun))))"

definition adjective_index :: "string \<Rightarrow> nat" where
  "adjective_index key = unat (hash_key key) mod 54"

definition noun_index :: "string \<Rightarrow> nat" where
  "noun_index key = unat (drop_bit 32 (hash_key key)) mod 88"

definition tag_of :: "string \<Rightarrow> string" where
  "tag_of key = adjectives ! adjective_index key @ ''-'' @ nouns ! noun_index key"

lemma length_adjectives [simp]: "length adjectives = 54"
  by (simp add: adjectives_def)

lemma length_nouns [simp]: "length nouns = 88"
  by (simp add: nouns_def)

lemma distinct_adjectives: "distinct adjectives"
  by code_simp

lemma distinct_nouns: "distinct nouns"
  by code_simp

lemmas distinct_words = distinct_adjectives distinct_nouns

lemma no_dash: "\<forall>w \<in> set adjectives. CHR ''-'' \<notin> set w"
  by code_simp

lemma generate_eq: "generate key = Inr (tag_of key)"
  by (simp add: generate_def Let_def index_at_def tag_of_def adjective_index_def noun_index_def)

lemma index_bounds: "adjective_index key < 54" "noun_index key < 88"
  by (simp_all add: adjective_index_def noun_index_def)

lemma tag_of_eq_iff:
  "tag_of k = tag_of k' \<longleftrightarrow>
   adjective_index k = adjective_index k' \<and> noun_index k = noun_index k'"
proof
  assume eq: "tag_of k = tag_of k'"
  have split: "split_once CHR ''-'' (tag_of j)
      = Some (adjectives ! adjective_index j, nouns ! noun_index j)" for j
    using no_dash index_bounds(1) [of j]
    by (simp add: tag_of_def split_once_append)
  from split [of k] split [of k'] eq
  have "adjectives ! adjective_index k = adjectives ! adjective_index k'"
    "nouns ! noun_index k = nouns ! noun_index k'" by simp_all
  then show "adjective_index k = adjective_index k' \<and> noun_index k = noun_index k'"
    using distinct_words index_bounds by (simp add: nth_eq_iff_index_eq)
qed (simp add: tag_of_def)

lemma range_tag_of:
  "range tag_of \<subseteq> (\<lambda>(a, n). a @ ''-'' @ n) ` (set adjectives \<times> set nouns)"
  using index_bounds by (auto simp: tag_of_def image_iff intro!: bexI)

text \<open>The generated tag. Generation never panics: both list indices are in range. The tag is an
  adjective and a noun of the two lists joined by a hyphen; two keys get the same tag exactly if
  their hashes agree on both indices, and there are at most 4752 tags, so that more devices than
  that cannot all have their own.\<close>

theorem generate_spec:
  "generate key = Inr (tag_of key)
   \<and> (tag_of key = tag_of key' \<longleftrightarrow>
        adjective_index key = adjective_index key' \<and> noun_index key = noun_index key')
   \<and> card (range tag_of) \<le> 4752"
proof -
  have "card (range tag_of) \<le> card ((\<lambda>(a, n). a @ ''-'' @ n) ` (set adjectives \<times> set nouns))"
    by (rule card_mono) (simp, rule range_tag_of)
  also have "\<dots> \<le> card (set adjectives \<times> set nouns)"
    by (rule card_image_le) simp
  also have "\<dots> = 4752"
    by (simp add: card_cartesian_product distinct_card [OF distinct_words(1)]
        distinct_card [OF distinct_words(2)])
  finally show ?thesis by (simp add: generate_eq tag_of_eq_iff)
qed

end
