(* ===== verification/Oui.thy ===== *)
theory Oui
  imports Net_Types
begin

text \<open>
  \<open>identity/oui.rs\<close>: the table of vendors, built once from the lines of the embedded file, and
  the lookup by the first three bytes of a MAC address. The file's text is an argument.
\<close>

definition oui_line :: "string \<Rightarrow> (32 word \<times> string) option" where
  "oui_line line =
     (case split_once CHR '','' line of None \<Rightarrow> None
      | Some (hex, name) \<Rightarrow>
          (case u32_from_hex (trim_str hex) of None \<Rightarrow> None | Some n \<Rightarrow> Some (n, name)))"

fun insert_lines :: "string list \<Rightarrow> (32 word \<rightharpoonup> string) \<Rightarrow> (32 word \<rightharpoonup> string)" where
  "insert_lines [] m = m"
| "insert_lines (line # rest) m =
     insert_lines rest (case oui_line line of None \<Rightarrow> m | Some (n, name) \<Rightarrow> m(n \<mapsto> name))"

definition oui_table :: "string \<Rightarrow> (32 word \<rightharpoonup> string)" where
  "oui_table raw = insert_lines (str_lines raw) Map.empty"

definition oui_of :: "mac \<Rightarrow> 32 word" where
  "oui_of m =
     (let b = mac_bytes m
      in push_bit 16 (ucast (b ! 0)) OR push_bit 8 (ucast (b ! 1)) OR ucast (b ! 2))"

definition oui_lookup :: "string \<Rightarrow> mac \<Rightarrow> string option" where
  "oui_lookup raw m = oui_table raw (oui_of m)"

lemma insert_lines_lookup:
  "insert_lines lines m n =
     (case List.find (\<lambda>l. map_option fst (oui_line l) = Some n) (rev lines) of
        None \<Rightarrow> m n | Some l \<Rightarrow> map_option snd (oui_line l))"
proof (induction lines arbitrary: m)
  case (Cons l lines)
  have find_app: "List.find P (xs @ ys) = (case List.find P xs of None \<Rightarrow> List.find P ys | Some x \<Rightarrow> Some x)"
    for P and xs ys :: "string list"
    by (induction xs) auto
  from Cons show ?case
    by (cases "oui_line l") (auto simp: find_app split: option.splits)
qed simp

lemma oui_of_ipv4: "oui_of (MacAddr6 a b c d e f) = ipv4_new 0 a b c"
  by (auto simp: oui_of_def ipv4_new_def bit_simps intro!: bit_word_eqI)

lemma oui_of_eq_iff:
  "oui_of m = oui_of m' \<longleftrightarrow> take 3 (mac_bytes m) = take 3 (mac_bytes m')"
  by (cases m; cases m') (simp add: oui_of_ipv4 ipv4_new_inject eval_nat_numeral)

text \<open>The vendor of a MAC address is the name on the last line of the file whose number, read
  in hexadecimal, is made of the first three bytes of the address; addresses that share those
  three bytes, and no others, look up the same number.\<close>

theorem oui_lookup_last_line:
  "oui_lookup raw m =
     (case List.find (\<lambda>l. map_option fst (oui_line l) = Some (oui_of m)) (rev (str_lines raw)) of
        None \<Rightarrow> None | Some l \<Rightarrow> map_option snd (oui_line l))
   \<and> (oui_of m = oui_of m' \<longleftrightarrow> take 3 (mac_bytes m) = take 3 (mac_bytes m'))"
  by (simp add: oui_lookup_def oui_table_def insert_lines_lookup oui_of_eq_iff)

end
