(* ===== verification/Registry_File.thy ===== *)
theory Registry_File
  imports Store
begin

text \<open>
  The JSON file that holds the registry between two runs: \<open>Store::load\<close>, \<open>Store::save\<close> and the
  clock of \<open>identity/store.rs\<close>. \<open>serde_json\<close> and the file system are arguments; what is relied on
  of them is \<open>files_law\<close>, and every writer of the file keeps \<open>disk_inv\<close>.
\<close>

section \<open>The registry file\<close>

text \<open>The JSON library reads and prints a registry; a write goes over the old
  contents, and may fail and leave anything, \<open>None\<close> standing for a file that cannot be read.\<close>

record json_codec =
  js_parse :: "string \<Rightarrow> store option"
  js_print :: "store \<Rightarrow> string option"

record disk =
  dk_contents :: "string option"
  dk_dirs_ok :: bool
  dk_write :: "string option \<Rightarrow> string \<Rightarrow> string option \<times> bool"

definition store_load :: "json_codec \<Rightarrow> disk \<Rightarrow> store" where
  "store_load js dk =
     (case Option.bind (dk_contents dk) (js_parse js) of None \<Rightarrow> Map.empty | Some s \<Rightarrow> s)"

definition store_save :: "json_codec \<Rightarrow> store \<Rightarrow> disk \<Rightarrow> disk \<times> bool" where
  "store_save js s dk =
     (if \<not> dk_dirs_ok dk then (dk, False)
      else (case js_print js s of None \<Rightarrow> (dk, False)
            | Some json \<Rightarrow>
                (case dk_write dk (dk_contents dk) json of (contents, ok) \<Rightarrow> (dk\<lparr>dk_contents := contents\<rparr>, ok))))"

definition now_secs :: "nat option \<Rightarrow> 64 word" where
  "now_secs since_epoch = (case since_epoch of None \<Rightarrow> 0 | Some n \<Rightarrow> of_nat n)"

section \<open>What the file keeps\<close>

text \<open>What the JSON library and the file system promise: a registry that is printed is read back; a
  write leaves the text it was given, the old contents, or something that is no registry, and it
  has written the text if it says so.\<close>

definition files_law :: "json_codec \<Rightarrow> disk \<Rightarrow> bool" where
  "files_law js dk \<longleftrightarrow>
     (\<forall>s json. js_print js s = Some json \<longrightarrow> js_parse js json = Some s)
     \<and> (\<forall>old json. fst (dk_write dk old json) \<in> {Some json, old}
            \<or> Option.bind (fst (dk_write dk old json)) (js_parse js) = None)
     \<and> (\<forall>old json. snd (dk_write dk old json) \<longrightarrow> fst (dk_write dk old json) = Some json)"

definition disk_inv :: "json_codec \<Rightarrow> disk \<Rightarrow> bool" where
  "disk_inv js dk \<longleftrightarrow> files_law js dk \<and> store_inv (store_load js dk)"

lemma store_save_cases:
  assumes "store_save js s dk = (dk', ok)"
  obtains (unwritten) "dk' = dk" "\<not> ok"
  | (written) json where "js_print js s = Some json"
      "dk' = dk\<lparr>dk_contents := fst (dk_write dk (dk_contents dk) json)\<rparr>"
      "ok = snd (dk_write dk (dk_contents dk) json)"
  using assms by (auto simp: store_save_def split: if_splits option.splits prod.splits)

lemma files_law_save: "files_law js dk \<Longrightarrow> store_save js s dk = (dk', ok) \<Longrightarrow> files_law js dk'"
  by (erule store_save_cases) (simp_all add: files_law_def)

text \<open>A save that succeeds is what the next load finds; one that fails leaves the old registry, or
  the new one, or none.\<close>

lemma store_save_load:
  assumes law: "files_law js dk" and save: "store_save js s dk = (dk', ok)"
  shows "ok \<Longrightarrow> store_load js dk' = s"
    and "store_load js dk' \<in> {s, store_load js dk, Map.empty}"
proof -
  have cases: "(ok \<longrightarrow> store_load js dk' = s) \<and> store_load js dk' \<in> {s, store_load js dk, Map.empty}"
    using save
  proof (cases rule: store_save_cases)
    case (written json)
    let ?w = "dk_write dk (dk_contents dk) json"
    have parsed: "js_parse js json = Some s" using law written(1) by (simp add: files_law_def)
    have "fst ?w \<in> {Some json, dk_contents dk} \<or> Option.bind (fst ?w) (js_parse js) = None"
      and "snd ?w \<longrightarrow> fst ?w = Some json" using law by (auto simp: files_law_def)
    then show ?thesis using parsed written(2,3) by (auto simp: store_load_def)
  qed simp
  then show "ok \<Longrightarrow> store_load js dk' = s" and "store_load js dk' \<in> {s, store_load js dk, Map.empty}"
    by blast+
qed

lemma store_save_inv:
  "disk_inv js dk \<Longrightarrow> store_inv s \<Longrightarrow> store_save js s dk = (dk', ok) \<Longrightarrow> disk_inv js dk'"
  using files_law_save store_save_load(2) store_inv_empty by (fastforce simp: disk_inv_def)

end
