(* ===== verification/Passive.thy ===== *)
theory Passive
  imports Mdns Packets Interface Subnet Registry_File Oui Namer
begin

text \<open>
  \<open>discovery/passive.rs\<close>: the listener's sources (a raw socket, the kernel's ARP table, mDNS
  traffic) and its event loop, which files what they report in the registry. The sources are
  threads that send entries and service events over channels; the loop is a step relation over
  the events in whatever order \<open>select!\<close> takes them.
\<close>

section \<open>Capabilities and the ARP table\<close>

datatype capability = RawSocket | ArpTable | MdnsOnly

definition detect_capability :: "bool \<Rightarrow> string option \<Rightarrow> capability" where
  "detect_capability raw_socket_available proc_net_arp =
     (if raw_socket_available then RawSocket
      else if proc_net_arp \<noteq> None then ArpTable else MdnsOnly)"

datatype source_thread = Sniff_Raw | Poll_Arp_Table | Listen_Mdns

fun threads_of :: "capability \<Rightarrow> source_thread list" where
  "threads_of RawSocket = [Sniff_Raw]"
| "threads_of ArpTable = [Poll_Arp_Table, Listen_Mdns]"
| "threads_of MdnsOnly = [Listen_Mdns]"

definition arp_table_line :: "string \<Rightarrow> arp_entry option" where
  "arp_table_line line =
     (let parts = split_whitespace line
      in if length parts < 4 then None
         else (case parse_ipv4 (parts ! 0) of None \<Rightarrow> None
               | Some ip \<Rightarrow>
                   (let mac_str = parts ! 3
                    in if length mac_str \<noteq> 17 \<or> mac_str = ''00:00:00:00:00:00'' then None
                       else (case parse_mac mac_str of None \<Rightarrow> None
                             | Some m \<Rightarrow> Some \<lparr>entry_ip = ip, entry_mac = m\<rparr>))))"

definition parse_arp_table :: "string option \<Rightarrow> arp_entry list" where
  "parse_arp_table contents =
     (case contents of None \<Rightarrow> []
      | Some c \<Rightarrow> List.map_filter arp_table_line (drop 1 (str_lines c)))"

text \<open>One poll, and the polls until the shutdown; an entry is sent when it is new.\<close>

fun poll_entries :: "arp_entry list \<Rightarrow> (ipv4 \<times> mac) set \<Rightarrow> (ipv4 \<times> mac) set \<times> arp_entry list" where
  "poll_entries [] seen = (seen, [])"
| "poll_entries (e # es) seen =
     (if (entry_ip e, entry_mac e) \<in> seen then poll_entries es seen
      else (case poll_entries es (insert (entry_ip e, entry_mac e) seen) of
              (seen', sent) \<Rightarrow> (seen', e # sent)))"

fun poll_arp_table :: "string option list \<Rightarrow> (ipv4 \<times> mac) set \<Rightarrow> arp_entry list" where
  "poll_arp_table [] seen = []"
| "poll_arp_table (contents # polls) seen =
     (case poll_entries (parse_arp_table contents) seen of
        (seen', sent) \<Rightarrow> sent @ poll_arp_table polls seen')"

section \<open>mDNS traffic\<close>

definition build_mdns_query :: "string \<Rightarrow> 16 word \<Rightarrow> bytes" where
  "build_mdns_query service transaction_id =
     u16_bytes transaction_id @ [0x00, 0x00] @ [0x00, 0x01] @ [0x00, 0x00] @ [0x00, 0x00]
     @ [0x00, 0x00] @ encode_labels (split_char CHR ''.'' service) @ [0x00] @ [0x00, 0x0C] @ [0x00, 0x01]"

definition listen_services :: "string list" where
  "listen_services =
     [''_services._dns-sd._udp.local'', ''_apple-mobdev2._tcp.local'', ''_device-info._tcp.local'',
      ''_workstation._tcp.local'', ''_http._tcp.local'', ''_googlecast._tcp.local'',
      ''_spotify-connect._tcp.local'', ''_raop._tcp.local'', ''_airplay._tcp.local'',
      ''_companion-link._tcp.local'', ''_homekit._tcp.local'', ''_printer._tcp.local'',
      ''_scanner._tcp.local'', ''_smb._tcp.local'', ''_ssh._tcp.local'', ''_nfs._tcp.local'']"

definition send_mdns_queries :: "datagram list" where
  "send_mdns_queries =
     map (\<lambda>(i, service). \<lparr>dg_to = multicast_addr, dg_port = mdns_port,
            dg_payload = build_mdns_query service (of_nat i)\<rparr>)
       (enumerate 0 listen_services)"

function passive_decode_loop ::
  "bytes \<Rightarrow> nat \<Rightarrow> nat list \<Rightarrow> string list \<Rightarrow> nat option \<Rightarrow> (string \<times> nat) option outcome" where
  "passive_decode_loop data pos visited parts end_pos =
     (if length data \<le> pos then Inr None
      else if pos \<in> set visited then Inr None
      else
        (case index_at data pos of Inl e \<Rightarrow> Inl e
         | Inr byte \<Rightarrow>
           if byte = 0x00 then
             (let end_pos' = or_end end_pos (pos + 1)
              in Inr (Some (join_with ''.'' parts,
                            case end_pos' of Some e \<Rightarrow> e | None \<Rightarrow> pos + 1)))
           else if byte AND 0xC0 = 0xC0 then
             (if length data \<le> pos + 1 then Inr None
              else (case index_at data (pos + 1) of Inl e \<Rightarrow> Inl e
                    | Inr low \<Rightarrow>
                      passive_decode_loop data (unat (u16_be (byte AND 0x3F) low)) (pos # visited) parts
                        (or_end end_pos (pos + 2))))
           else
             (let len = unat byte; start = pos + 1; stop = start + len
              in if length data < stop then Inr None
                 else (case slice data start stop of Inl e \<Rightarrow> Inl e
                       | Inr label \<Rightarrow>
                         passive_decode_loop data stop (pos # visited)
                           (parts @ [from_utf8_lossy label]) end_pos))))"
  by pat_completeness auto
termination
  by (relation "measure (\<lambda>(data, pos, visited, parts, end_pos). card (unvisited data visited))")
    (auto simp: card_unvisited)

declare passive_decode_loop.simps [simp del]

definition passive_decode_label :: "bytes \<Rightarrow> nat \<Rightarrow> (string \<times> nat) option outcome" where
  "passive_decode_label data pos = passive_decode_loop data pos [] [] None"

lemma passive_decode_loop_eq:
  "passive_decode_loop data pos visited parts end_pos = decode_loop data pos visited parts end_pos"
proof (induction data pos visited parts end_pos rule: passive_decode_loop.induct)
  case (1 data pos visited parts end_pos)
  show ?case
  proof (cases "length data \<le> pos \<or> pos \<in> set visited")
    case True
    then show ?thesis by (subst passive_decode_loop.simps, subst decode_loop.simps) auto
  next
    case False
    then have "index_at data pos = Inr (data ! pos)" by (simp add: checked_simps)
    with False 1 show ?thesis
      by (subst passive_decode_loop.simps, subst decode_loop.simps) (auto simp: checked_simps Let_def)
  qed
qed

lemma passive_decode_label_eq: "passive_decode_label = decode_label"
  by (intro ext) (simp add: passive_decode_label_def decode_label_def passive_decode_loop_eq)

definition passive_extract_service_type :: "string \<Rightarrow> string option" where
  "passive_extract_service_type name =
     (if \<not> starts_with name ''_'' then None
      else (case split_char CHR ''.'' name of
              service # proto # _ \<Rightarrow>
                if (proto = ''_tcp'' \<or> proto = ''_udp'') \<and> 1 < length service then
                  (let clean = trim_start_char CHR ''_'' service
                   in if clean \<noteq> [] then Some clean else None)
                else None
            | _ \<Rightarrow> None))"

lemma passive_extract_eq: "passive_extract_service_type = extract_service_type"
  by (intro ext) (simp add: passive_extract_service_type_def extract_service_type_def)

definition note_service :: "string \<Rightarrow> string list \<Rightarrow> string list" where
  "note_service name services =
     (case passive_extract_service_type name of None \<Rightarrow> services | Some svc \<Rightarrow> services @ [svc])"

text \<open>The questions; \<open>Inl\<close> inside is the early return of the services found so far.\<close>

fun passive_questions ::
  "bytes \<Rightarrow> nat \<Rightarrow> nat \<Rightarrow> string list \<Rightarrow> (string list + nat \<times> string list) outcome" where
  "passive_questions data 0 pos services = Inr (Inr (pos, services))"
| "passive_questions data (Suc n) pos services =
     (case passive_decode_label data pos of Inl e \<Rightarrow> Inl e
      | Inr None \<Rightarrow> Inr (Inl services)
      | Inr (Some (name, next)) \<Rightarrow>
          passive_questions data n (next + 4) (note_service name services))"

definition passive_rdata :: "bytes \<Rightarrow> nat \<Rightarrow> 16 word \<Rightarrow> string list \<Rightarrow> string list outcome" where
  "passive_rdata data pos rtype services =
     (if rtype = 0x000C then
        (case passive_decode_label data pos of Inl e \<Rightarrow> Inl e
         | Inr None \<Rightarrow> Inr services
         | Inr (Some (rdata, _)) \<Rightarrow> Inr (note_service rdata services))
      else Inr services)"

fun passive_records :: "bytes \<Rightarrow> nat \<Rightarrow> nat \<Rightarrow> string list \<Rightarrow> string list outcome" where
  "passive_records data 0 pos services = Inr services"
| "passive_records data (Suc n) pos services =
     (if length data \<le> pos then Inr services
      else
        (case passive_decode_label data pos of Inl e \<Rightarrow> Inl e
         | Inr None \<Rightarrow> Inr services
         | Inr (Some (name, pos1)) \<Rightarrow>
             (let services1 = note_service name services
              in if length data < pos1 + 10 then Inr services1
                 else
                   (case read_u16 data pos1 of Inl e \<Rightarrow> Inl e
                    | Inr rtype \<Rightarrow>
                      (case read_u16 data (pos1 + 8) of Inl e \<Rightarrow> Inl e
                       | Inr rdlen \<Rightarrow>
                         (case passive_rdata data (pos1 + 10) rtype services1 of Inl e \<Rightarrow> Inl e
                          | Inr services2 \<Rightarrow>
                              passive_records data n (pos1 + 10 + unat rdlen) services2))))))"

definition parse_mdns_for_services :: "bytes \<Rightarrow> string list outcome" where
  "parse_mdns_for_services data =
     (if length data < 12 then Inr []
      else
        outcome_bind (read_u16 data 4) (\<lambda>questions.
        outcome_bind (read_u16 data 6) (\<lambda>answer_rrs.
        outcome_bind (read_u16 data 8) (\<lambda>authority_rrs.
        outcome_bind (read_u16 data 10) (\<lambda>additional_rrs.
          (let total_rrs = unat answer_rrs + unat authority_rrs + unat additional_rrs
           in outcome_bind (passive_questions data (unat questions) 12 []) (\<lambda>q.
                (case q of Inl services \<Rightarrow> Inr services
                 | Inr (pos, services) \<Rightarrow>
                     outcome_bind (passive_records data total_rrs pos services)
                       (\<lambda>services'. Inr (retain_new [] services'))))))))))"

text \<open>What the listener sends for one datagram: a service event, if it names services, and an
  entry with the broadcast address for the MAC it does not know.\<close>

record service_event =
  sev_ip :: ipv4
  sev_services :: "string list"

definition mdns_datagram :: "bytes \<Rightarrow> ipv4 \<Rightarrow> (service_event option \<times> arp_entry) outcome" where
  "mdns_datagram data src_ip =
     outcome_bind (parse_mdns_for_services data) (\<lambda>services.
       Inr (if services \<noteq> [] then Some \<lparr>sev_ip = src_ip, sev_services = services\<rparr> else None,
            \<lparr>entry_ip = src_ip, entry_mac = mac_broadcast\<rparr>))"

text \<open>The loop of \<open>listen_mdns\<close>: what \<open>recv_from\<close> gives, and whether 30 seconds have passed
  since the last round of queries. The value is the datagrams sent, the service events and the
  entries. A datagram from an IPv6 sender skips the check for the queries.\<close>

fun mdns_iterations ::
  "(recv \<times> bool) list \<Rightarrow> (datagram list \<times> service_event list \<times> arp_entry list) outcome" where
  "mdns_iterations [] = Inr ([], [], [])"
| "mdns_iterations ((Datagram data None, due) # rest) = mdns_iterations rest"
| "mdns_iterations ((Datagram data (Some src_ip), due) # rest) =
     outcome_bind (mdns_datagram data src_ip) (\<lambda>(ev, entry).
     outcome_bind (mdns_iterations rest) (\<lambda>(sent, evs, entries).
       Inr ((if due then send_mdns_queries else []) @ sent,
            (case ev of None \<Rightarrow> evs | Some e \<Rightarrow> e # evs), entry # entries)))"
| "mdns_iterations ((Recv_Error, due) # rest) =
     outcome_bind (mdns_iterations rest) (\<lambda>(sent, evs, entries).
       Inr ((if due then send_mdns_queries else []) @ sent, evs, entries))"

definition listen_mdns ::
  "(recv \<times> bool) list option \<Rightarrow> (datagram list \<times> service_event list \<times> arp_entry list) outcome" where
  "listen_mdns socket =
     (case socket of None \<Rightarrow> Inr ([], [], [])
      | Some iterations \<Rightarrow>
          outcome_bind (mdns_iterations iterations) (\<lambda>(sent, evs, entries).
            Inr (send_mdns_queries @ sent, evs, entries)))"

section \<open>The raw socket\<close>

definition passive_ip_in_subnet :: "ipv4 \<Rightarrow> ipv4 \<Rightarrow> byte \<Rightarrow> bool outcome" where
  "passive_ip_in_subnet ip base p =
     outcome_bind (netmask p) (\<lambda>m. Inr ((ip AND m) = (base AND m)))"

interpretation passive_members: subnet_membership passive_ip_in_subnet
  by unfold_locales (simp add: passive_ip_in_subnet_def)

definition subnet_from_pnet :: "network_interface \<Rightarrow> (ipv4 \<times> byte) option outcome" where
  "subnet_from_pnet i =
     (case List.map_filter v4_of (ni_ips i) of [] \<Rightarrow> Inr None
      | (v4, p) # _ \<Rightarrow> outcome_bind (netmask p) (\<lambda>m. Inr (Some (v4 AND m, p))))"

definition sniff_interface :: "network_interface list \<Rightarrow> string option \<Rightarrow> network_interface option" where
  "sniff_interface pnet name =
     (case Option.bind name (\<lambda>n. List.find (\<lambda>i. ni_name i = n \<and> suitable i) pnet) of
        Some i \<Rightarrow> Some i
      | None \<Rightarrow> List.find suitable pnet)"

type_synonym sniffed = "(ipv4 \<times> mac) set \<times> arp_entry list"

definition emit :: "ipv4 \<Rightarrow> mac \<Rightarrow> sniffed \<Rightarrow> sniffed" where
  "emit ip m st =
     (if (ip, m) \<in> fst st then st
      else (insert (ip, m) (fst st), snd st @ [\<lparr>entry_ip = ip, entry_mac = m\<rparr>]))"

definition allowed_ip :: "(ipv4 \<times> byte) option \<Rightarrow> ipv4 \<Rightarrow> bool outcome" where
  "allowed_ip local_subnet ip =
     (case local_subnet of None \<Rightarrow> Inr True | Some (b, p) \<Rightarrow> passive_ip_in_subnet ip b p)"

definition report_if :: "bool \<Rightarrow> (ipv4 \<times> byte) option \<Rightarrow> ipv4 \<Rightarrow> mac \<Rightarrow> sniffed \<Rightarrow> sniffed outcome" where
  "report_if candidate local_subnet ip m st =
     (if candidate then
        outcome_bind (allowed_ip local_subnet ip) (\<lambda>ok. Inr (if ok then emit ip m st else st))
      else Inr st)"

definition sniff_frame :: "(ipv4 \<times> byte) option \<Rightarrow> bytes \<Rightarrow> sniffed \<Rightarrow> sniffed outcome" where
  "sniff_frame local_subnet packet st =
     (case ethernet_new packet of None \<Rightarrow> Inr st
      | Some eth \<Rightarrow>
        (let src_mac = mac_at eth 6
         in if is_nil_mac src_mac \<or> is_broadcast_mac src_mac then Inr st
            else if ethertype eth = ethertype_arp then
              (case arp_new (eth_payload eth) of None \<Rightarrow> Inr st
               | Some arp \<Rightarrow>
                 (let sip = arp_sender_ip arp; smac = arp_sender_mac arp;
                      tip = arp_target_ip arp; tmac = arp_target_mac arp
                  in outcome_bind
                       (report_if (\<not> is_unspecified sip \<and> \<not> is_loopback sip \<and> \<not> is_nil_mac smac)
                          local_subnet sip smac st)
                       (report_if (\<not> is_unspecified tip \<and> \<not> is_loopback tip \<and> \<not> is_nil_mac tmac)
                          local_subnet tip tmac)))
            else if ethertype eth = ethertype_ipv4 then
              (case ipv4_packet_new (eth_payload eth) of None \<Rightarrow> Inr st
               | Some ipv4 \<Rightarrow>
                 (let src_ip = ip_source ipv4
                  in report_if (\<not> is_unspecified src_ip \<and> \<not> is_loopback src_ip \<and> \<not> is_multicast src_ip)
                       local_subnet src_ip src_mac st))
            else Inr (emit 0 src_mac st)))"

text \<open>The frames until the shutdown; \<open>None\<close> is a read error. A panic ends the thread, which
  has sent by then what it had found.\<close>

fun sniff_frames :: "(ipv4 \<times> byte) option \<Rightarrow> bytes option list \<Rightarrow> sniffed \<Rightarrow> sniffed outcome" where
  "sniff_frames local_subnet [] st = Inr st"
| "sniff_frames local_subnet (None # rest) st = sniff_frames local_subnet rest st"
| "sniff_frames local_subnet (Some packet # rest) st =
     outcome_bind (sniff_frame local_subnet packet st) (sniff_frames local_subnet rest)"

definition sniff_raw ::
  "network_interface list \<Rightarrow> string option \<Rightarrow> bytes option list option \<Rightarrow> arp_entry list outcome" where
  "sniff_raw pnet name channel =
     (case sniff_interface pnet name of None \<Rightarrow> Inr []
      | Some i \<Rightarrow>
          outcome_bind (subnet_from_pnet i) (\<lambda>local_subnet.
            (case channel of None \<Rightarrow> Inr []
             | Some packets \<Rightarrow>
                 outcome_bind (sniff_frames local_subnet packets ({}, [])) (\<lambda>st. Inr (snd st)))))"

section \<open>The event loop\<close>

text \<open>The lines printed: text, or text before a list of strings. The latter is printed by \<open>{:?}\<close>,
  which escapes by the tables of Unicode; it is kept as a list.\<close>

datatype listen_line = Text_Line string | Debug_Line string "string list"

definition new_line :: "ipv4 \<Rightarrow> mac \<Rightarrow> string option \<Rightarrow> string option \<Rightarrow> listen_line" where
  "new_line ip m vendor tag =
     Text_Line (''NEW  '' @ join_with ''  ''
       [pad 16 (show_ipv4 ip), pad 18 (show_mac m), pad 26 (or_dash vendor), pad 22 (or_dash tag)])"

definition svc_line :: "ipv4 \<Rightarrow> string list \<Rightarrow> listen_line" where
  "svc_line ip services = Debug_Line (''SVC  '' @ pad 16 (show_ipv4 ip) @ ''  '') services"

record listener =
  ls_store :: store
  ls_disk :: disk
  ls_saved :: bool
  ls_seen :: "ipv4 \<rightharpoonup> mac"
  ls_lines :: "listen_line list"

text \<open>The registry is saved after each event that changes it; a save that fails is passed over.
  \<open>ls_saved\<close> is the result of the last save.\<close>

definition write_back :: "json_codec \<Rightarrow> listener \<Rightarrow> listener" where
  "write_back js s =
     (case store_save js (ls_store s) (ls_disk s) of (dk, ok) \<Rightarrow> s\<lparr>ls_disk := dk, ls_saved := ok\<rparr>)"

definition on_entry ::
  "json_codec \<Rightarrow> string \<Rightarrow> stored list \<Rightarrow> 64 word \<Rightarrow> arp_entry \<Rightarrow> listener \<Rightarrow> listener outcome" where
  "on_entry js oui vals now e s =
     (if is_unspecified (entry_ip e) \<and> \<not> is_broadcast_mac (entry_mac e) then Inr s
      else if ls_seen s (entry_ip e) \<noteq> None then Inr s
      else
        (let device = (device_from e)\<lparr>dev_vendor := oui_lookup oui (entry_mac e)\<rparr>
         in outcome_bind (upsert vals now tag_of device (ls_store s)) (\<lambda>(store, r).
              Inr (write_back js
                (s\<lparr>ls_store := store, ls_seen := (ls_seen s)(entry_ip e \<mapsto> entry_mac e),
                   ls_lines := ls_lines s @ [new_line (entry_ip e) (entry_mac e) (dev_vendor device) (rec_tag r)]\<rparr>)))))"

definition on_services ::
  "json_codec \<Rightarrow> string \<Rightarrow> stored list \<Rightarrow> 64 word \<Rightarrow> service_event \<Rightarrow> listener \<Rightarrow> listener outcome" where
  "on_services js oui vals now ev s =
     (case ls_seen s (sev_ip ev) of None \<Rightarrow> Inr s
      | Some m \<Rightarrow>
          (let device =
             \<lparr>dev_ip = sev_ip ev, dev_mac = Some m, dev_vendor = oui_lookup oui m,
              dev_hostname = None, dev_os_hint = None, dev_services = sev_services ev,
              dev_via = Arp, dev_category = None, dev_tag = None\<rparr>
           in outcome_bind (upsert vals now tag_of device (ls_store s)) (\<lambda>(store, _).
                Inr (write_back js
                  (s\<lparr>ls_store := store, ls_lines := ls_lines s @ [svc_line (sev_ip ev) (sev_services ev)]\<rparr>)))))"

inductive listen_step :: "json_codec \<Rightarrow> string \<Rightarrow> listener \<Rightarrow> listener \<Rightarrow> bool" for js oui where
  entry: "values_of vals (ls_store s) \<Longrightarrow> on_entry js oui vals now e s = Inr s' \<Longrightarrow>
    listen_step js oui s s'"
| services: "values_of vals (ls_store s) \<Longrightarrow> on_services js oui vals now ev s = Inr s' \<Longrightarrow>
    listen_step js oui s s'"

inductive_cases listen_stepE: "listen_step js oui s s'"

definition listen_init :: "json_codec \<Rightarrow> disk \<Rightarrow> listener" where
  "listen_init js dk = \<lparr>ls_store = store_load js dk, ls_disk = dk, ls_saved = True, ls_seen = Map.empty,
     ls_lines = []\<rparr>"

section \<open>The two parsers of mDNS packets\<close>

interpretation listen_query: query_builder build_mdns_query "0x0C"
  by unfold_locales (simp add: build_mdns_query_def)

lemma build_mdns_query_eq: "build_mdns_query = build_ptr_query"
  by (intro ext) (simp add: listen_query.layout ptr.layout)

lemma note_service_eq: "note_service = push_service"
  by (intro ext) (simp add: note_service_def push_service_def passive_extract_eq)

lemma passive_questions_eq:
  "passive_questions data n pos svcs = Inr (Inr r) \<Longrightarrow> question_loop data n pos svcs = Inr r"
  by (induction n arbitrary: pos svcs)
    (auto simp: passive_decode_label_eq note_service_eq split: sum.splits option.splits)

lemma rdata_step_services:
  "rdata_step data pos rtype rdlen name ns svcs = Inr (ns', svcs') \<Longrightarrow>
   passive_rdata data pos rtype svcs = Inr svcs'"
  by (auto simp: rdata_step_def passive_rdata_def ptr_rdata_def passive_decode_label_eq
      note_service_eq Let_def outcome_bind_Inr_iff split: if_splits sum.splits option.splits list.splits)

lemma passive_records_eq:
  "record_loop data n pos ns svcs = Inr (ns', svcs') \<Longrightarrow>
   passive_records data n pos svcs = Inr svcs'"
proof (induction n arbitrary: pos ns svcs)
  case (Suc n)
  obtain r where dec: "decode_label data pos = Inr r" using decode_label_returns by blast
  show ?case
  proof (cases r)
    case None
    with dec Suc.prems show ?thesis by (auto simp: passive_decode_label_eq split: if_splits)
  next
    case (Some p)
    with dec Suc show ?thesis
      by (cases p)
        (auto simp: passive_decode_label_eq note_service_eq Let_def dest!: rdata_step_services
          split: if_splits sum.splits)
  qed
qed simp

definition record_count :: "bytes \<Rightarrow> nat" where
  "record_count data =
     unat (u16_be (data ! 6) (data ! 7)) + unat (u16_be (data ! 8) (data ! 9))
     + unat (u16_be (data ! 10) (data ! 11))"

text \<open>C25: the listener's parser and the resolver's. The listener carries its own copies of the
  query builder, the name decoder and the service extraction; they are the same functions. On a
  packet with at least one record, all of whose questions can be decoded, the listener finds the
  very services the resolver finds.\<close>

theorem passive_parser_agrees:
  assumes "12 \<le> length data" and "record_count data \<noteq> 0"
    and "passive_questions data (unat (u16_be (data ! 4) (data ! 5))) 12 [] = Inr (Inr q)"
  shows "build_mdns_query = build_ptr_query \<and> passive_decode_label = decode_label
    \<and> (\<exists>r. parse_mdns_records data = Inr r \<and> parse_mdns_for_services data = Inr (pr_services r))"
proof -
  obtain pos svcs where q: "q = (pos, svcs)" by fastforce
  have ql: "question_loop data (unat (u16_be (data ! 4) (data ! 5))) 12 [] = Inr (pos, svcs)"
    using assms(3) by (auto simp: q dest: passive_questions_eq)
  have "good_services (Inr (pos, svcs))"
    using question_loop_good [of "[]" data "unat (u16_be (data ! 4) (data ! 5))" 12] ql by simp
  then have "good_services (record_loop data (record_count data) pos [] svcs)"
    by (intro record_loop_good) simp
  then obtain ns svcs' where rl: "record_loop data (record_count data) pos [] svcs = Inr (ns, svcs')"
    by (rule good_servicesE)
  have "parse_mdns_records data = Inr \<lparr>pr_names = ns, pr_services = retain_new [] svcs'\<rparr>"
    using assms(1,2) ql rl
    by (auto simp: parse_mdns_records_def read_u16_Inr Let_def record_count_def)
  moreover have "parse_mdns_for_services data = Inr (retain_new [] svcs')"
    using assms(1,3) passive_records_eq [OF rl]
    by (simp add: parse_mdns_for_services_def read_u16_Inr Let_def record_count_def q)
  ultimately show ?thesis by (simp add: build_mdns_query_eq passive_decode_label_eq)
qed

text \<open>A packet with no question and one PTR record, from the service enumeration to the type of
  printers.\<close>

definition ptr_answer :: bytes where
  "ptr_answer =
     [0, 0, 0x84, 0, 0, 0, 0, 1, 0, 0, 0, 0]
     @ encode_labels [''_ipp'', ''_tcp'', ''local''] @ [0]
     @ [0, 0x0C, 0, 1, 0, 0, 0, 10, 0, 2] @ [0xC0, 12]"

theorem passive_parser_agrees_witness:
  "\<exists>r. parse_mdns_records ptr_answer = Inr r \<and> parse_mdns_for_services ptr_answer = Inr (pr_services r)"
proof (rule passive_parser_agrees [THEN conjunct2, THEN conjunct2])
  show "12 \<le> length ptr_answer" "record_count ptr_answer \<noteq> 0"
    by (simp_all add: ptr_answer_def record_count_def u16_be_def)
  show "passive_questions ptr_answer (unat (u16_be (ptr_answer ! 4) (ptr_answer ! 5))) 12 [] = Inr (Inr (12, []))"
    by (simp add: ptr_answer_def u16_be_def)
qed

section \<open>Queries taken for services\<close>

text \<open>The listener counts the names of questions. A host that asks who offers a service is
  reported as offering it; the resolver, given the same packet, finds nothing.\<close>

theorem query_taken_for_service:
  assumes "\<forall>l \<in> set (split_char CHR ''.'' name). l \<noteq> [] \<and> text_ok l"
    and "extract_service_type name = Some svc"
  shows "parse_mdns_for_services (build_mdns_query name tid) = Inr [svc]
    \<and> parse_mdns_records (build_mdns_query name tid) = Inr no_records"
proof -
  let ?q = "build_mdns_query name tid"
  have filt: "filter (\<lambda>l. l \<noteq> []) (split_char CHR ''.'' name) = split_char CHR ''.'' name"
    using assms(1) by (simp add: filter_id_conv)
  have dec: "decode_label ?q 12 = Inr (Some (name, length ?q - 4))"
    using listen_query.decode_build [of name tid] assms(1) filt by (simp add: join_split)
  have hd: "take 12 ?q = u16_bytes tid @ [0, 0, 0, 1, 0, 0, 0, 0, 0, 0]"
    by (simp add: listen_query.layout u16_bytes_def)
  have at: "?q ! 4 = 0" "?q ! 5 = 1" "?q ! 6 = 0" "?q ! 7 = 0" "?q ! 8 = 0" "?q ! 9 = 0"
    "?q ! 10 = 0" "?q ! 11 = 0" and len: "16 \<le> length ?q"
    by (simp_all add: listen_query.layout u16_bytes_def)
  have zero: "u16_be 0 0 = 0" "u16_be 0 1 = 1" by (simp_all add: u16_be_def)
  have "passive_questions ?q 1 12 [] = Inr (Inr (length ?q, [svc]))"
    using dec len assms(2) by (simp add: passive_decode_label_eq note_service_eq push_service_def)
  then have "parse_mdns_for_services ?q = Inr [svc]"
    using len at by (simp add: parse_mdns_for_services_def read_u16_Inr zero Let_def)
  moreover have "parse_mdns_records ?q = Inr no_records"
    using len at by (simp add: parse_mdns_records_def read_u16_Inr zero Let_def)
  ultimately show ?thesis by simp
qed

lemma googlecast_query:
  "parse_mdns_for_services (build_mdns_query ''_googlecast._tcp.local'' 5) = Inr [''googlecast'']"
proof (rule query_taken_for_service [THEN conjunct1])
  have "split_char CHR ''.'' ''_googlecast._tcp.local'' = [''_googlecast'', ''_tcp'', ''local'']"
    by code_simp
  moreover have "text_ok ''_googlecast''" "text_ok ''_tcp''" "text_ok ''local''"
    by (rule text_ok_ascii; auto)+
  ultimately show "\<forall>l \<in> set (split_char CHR ''.'' ''_googlecast._tcp.local''). l \<noteq> [] \<and> text_ok l"
    by simp
  show "extract_service_type ''_googlecast._tcp.local'' = Some ''googlecast''"
    by code_simp
qed

section \<open>What the raw socket reports\<close>

definition entry_pair :: "arp_entry \<Rightarrow> ipv4 \<times> mac" where
  "entry_pair e = (entry_ip e, entry_mac e)"

text \<open>An entry names a local address that is neither unspecified nor loopback, or carries no
  address but a source MAC; the MAC is never all zeros.\<close>

definition report_ok :: "(ipv4 \<times> byte) option \<Rightarrow> arp_entry \<Rightarrow> bool" where
  "report_ok local_subnet e \<longleftrightarrow>
     \<not> is_nil_mac (entry_mac e)
     \<and> (is_unspecified (entry_ip e)
        \<or> \<not> is_loopback (entry_ip e)
          \<and> (case local_subnet of None \<Rightarrow> True | Some (b, p) \<Rightarrow> base_value (entry_ip e) p = base_value b p))"

definition good_subnet :: "(ipv4 \<times> byte) option \<Rightarrow> bool" where
  "good_subnet local_subnet \<longleftrightarrow> (case local_subnet of None \<Rightarrow> True | Some (_, p) \<Rightarrow> good_prefix p)"

definition sniff_inv :: "(ipv4 \<times> byte) option \<Rightarrow> sniffed \<Rightarrow> bool" where
  "sniff_inv local_subnet st \<longleftrightarrow>
     fst st = entry_pair ` set (snd st) \<and> distinct (map entry_pair (snd st))
     \<and> (\<forall>e \<in> set (snd st). report_ok local_subnet e)"

lemma sniff_inv_emit:
  "sniff_inv net st \<Longrightarrow> report_ok net \<lparr>entry_ip = ip, entry_mac = m\<rparr> \<Longrightarrow> sniff_inv net (emit ip m st)"
  by (auto simp: sniff_inv_def emit_def entry_pair_def)

lemma allowed_ip_good:
  "good_subnet net \<Longrightarrow> allowed_ip net ip =
     Inr (case net of None \<Rightarrow> True | Some (b, p) \<Rightarrow> base_value ip p = base_value b p)"
  by (auto simp: allowed_ip_def good_subnet_def passive_members.member_good base_value_eq_iff
      split: option.splits)

definition reports :: "(ipv4 \<times> byte) option \<Rightarrow> sniffed \<Rightarrow> sniffed outcome \<Rightarrow> bool" where
  "reports net st r \<longleftrightarrow>
     (\<exists>st'. r = Inr st' \<and> sniff_inv net st' \<and> prefix (snd st) (snd st'))"

lemma reports_Inr [simp]:
  "reports net st (Inr st') \<longleftrightarrow> sniff_inv net st' \<and> prefix (snd st) (snd st')"
  by (simp add: reports_def)

lemma reportsE:
  assumes "reports net st r"
  obtains st' where "r = Inr st'" "sniff_inv net st'" "prefix (snd st) (snd st')"
  using assms unfolding reports_def by blast

lemma prefix_emit: "prefix (snd st) (snd (emit ip m st))"
  by (simp add: emit_def)

lemma report_if_reports:
  assumes "good_subnet net" "sniff_inv net st"
    and "candidate \<Longrightarrow> \<not> is_loopback ip \<and> \<not> is_nil_mac m"
  shows "reports net st (report_if candidate net ip m st)"
  using assms prefix_emit [of st ip m]
  by (auto simp: report_if_def allowed_ip_good report_ok_def intro!: sniff_inv_emit
      split: option.splits)

lemma sniff_frame_reports:
  assumes "good_subnet net" "sniff_inv net st"
  shows "reports net st (sniff_frame net packet st)"
proof -
  have stay: "reports net st (Inr st)" using assms(2) by simp
  have mac_only: "reports net st (Inr (emit 0 m st))" if "\<not> is_nil_mac m" for m
    using assms that prefix_emit [of st 0 m]
    by (auto simp: report_ok_def is_unspecified_def intro!: sniff_inv_emit)
  have arp: "reports net st (outcome_bind
      (report_if (\<not> is_unspecified sip \<and> \<not> is_loopback sip \<and> \<not> is_nil_mac smac) net sip smac st)
      (report_if (\<not> is_unspecified tip \<and> \<not> is_loopback tip \<and> \<not> is_nil_mac tmac) net tip tmac))"
    for sip smac tip tmac
  proof -
    obtain st1 where "report_if (\<not> is_unspecified sip \<and> \<not> is_loopback sip \<and> \<not> is_nil_mac smac) net sip smac st = Inr st1"
      and st1: "sniff_inv net st1" "prefix (snd st) (snd st1)"
      using report_if_reports [OF assms, of "\<not> is_unspecified sip \<and> \<not> is_loopback sip \<and> \<not> is_nil_mac smac" sip smac]
      by (auto elim: reportsE)
    moreover have "reports net st1
        (report_if (\<not> is_unspecified tip \<and> \<not> is_loopback tip \<and> \<not> is_nil_mac tmac) net tip tmac st1)"
      using assms(1) st1(1) by (rule report_if_reports) simp
    ultimately show ?thesis by (auto elim!: reportsE intro: prefix_order.trans)
  qed
  have ip: "reports net st
      (report_if (\<not> is_unspecified i \<and> \<not> is_loopback i \<and> \<not> is_multicast i) net i m st)"
    if "\<not> is_nil_mac m" for i m
    using assms by (rule report_if_reports) (simp add: that)
  show ?thesis
    unfolding sniff_frame_def Let_def
    by (auto simp del: reports_Inr intro: stay mac_only arp ip split: option.split)
qed

lemma sniff_frames_reports:
  "good_subnet net \<Longrightarrow> sniff_inv net st \<Longrightarrow> reports net st (sniff_frames net packets st)"
proof (induction net packets st rule: sniff_frames.induct)
  case (3 net packet rest st)
  obtain st1 where st1: "sniff_frame net packet st = Inr st1" "sniff_inv net st1" "prefix (snd st) (snd st1)"
    using sniff_frame_reports [OF 3(2,3), of packet] by (rule reportsE)
  with 3 have "reports net st1 (sniff_frames net rest st1)" by simp
  with st1 show ?case by (auto elim!: reportsE intro: prefix_order.trans)
qed simp_all

text \<open>C26: the raw socket. On an interface whose prefix is from 1 to 32, whatever frames arrive,
  the sniffer does not panic; it reports no address and MAC pair twice, no MAC of zeros, and no
  address that is loopback or outside the interface's subnet.\<close>

theorem sniff_frames_sound:
  assumes "1 \<le> unat p" "unat p \<le> 32"
  shows "\<exists>seen out. sniff_frames (Some (base, p)) packets ({}, []) = Inr (seen, out)
    \<and> distinct (map (\<lambda>e. (entry_ip e, entry_mac e)) out)
    \<and> (\<forall>e \<in> set out. \<not> is_nil_mac (entry_mac e)
        \<and> (is_unspecified (entry_ip e) \<or> \<not> is_loopback (entry_ip e)
             \<and> drop_bit (32 - unat p) (entry_ip e) = drop_bit (32 - unat p) base))"
proof -
  have "good_subnet (Some (base, p))" using assms by (simp add: good_subnet_def good_prefix_def)
  moreover have "sniff_inv (Some (base, p)) ({}, [])" by (simp add: sniff_inv_def)
  ultimately obtain st where "sniff_frames (Some (base, p)) packets ({}, []) = Inr st"
    "sniff_inv (Some (base, p)) st"
    using sniff_frames_reports [of "Some (base, p)" "({}, [])" packets] by (auto elim: reportsE)
  then show ?thesis
    by (cases st) (auto simp: sniff_inv_def report_ok_def entry_pair_def [abs_def] base_value_eq_iff)
qed

theorem sniff_frames_sound_witness:
  "\<exists>seen out. sniff_frames (Some (ipv4_new 192 168 1 0, 24)) [Some (replicate 60 1), None] ({}, []) = Inr (seen, out)
    \<and> distinct (map (\<lambda>e. (entry_ip e, entry_mac e)) out)"
  using sniff_frames_sound [of 24 "ipv4_new 192 168 1 0" "[Some (replicate 60 1), None]"] by auto

section \<open>The ARP table\<close>

lemma poll_entries_spec:
  "poll_entries es seen = (seen', sent) \<Longrightarrow>
   seen' = seen \<union> entry_pair ` set es \<and> distinct (map entry_pair sent)
   \<and> set sent \<subseteq> set es \<and> entry_pair ` set sent = entry_pair ` set es - seen"
proof (induction es arbitrary: seen seen' sent)
  case (Cons e es)
  show ?case
  proof (cases "entry_pair e \<in> seen")
    case True
    with Cons.prems have "poll_entries es seen = (seen', sent)" by (simp add: entry_pair_def)
    from Cons.IH [OF this] True show ?thesis by auto
  next
    case False
    with Cons.prems obtain sent' where run: "poll_entries es (insert (entry_pair e) seen) = (seen', sent')"
      and "sent = e # sent'"
      by (auto simp: entry_pair_def split: prod.splits)
    with Cons.IH [OF run] False show ?thesis by auto
  qed
qed simp

lemma entry_pair_inj: "entry_pair e = entry_pair e' \<longleftrightarrow> e = e'"
  by (cases e; cases e') (simp add: entry_pair_def)

lemma poll_arp_table_spec:
  "distinct (map entry_pair (poll_arp_table polls seen))
   \<and> entry_pair ` set (poll_arp_table polls seen)
     = (\<Union>c \<in> set polls. entry_pair ` set (parse_arp_table c)) - seen"
proof (induction polls arbitrary: seen)
  case (Cons contents polls)
  obtain seen' sent where run: "poll_entries (parse_arp_table contents) seen = (seen', sent)" by fastforce
  note spec = poll_entries_spec [OF run]
  have IH: "distinct (map entry_pair (poll_arp_table polls seen'))"
    "entry_pair ` set (poll_arp_table polls seen')
     = (\<Union>c \<in> set polls. entry_pair ` set (parse_arp_table c)) - seen'"
    using Cons.IH [of seen'] by simp_all
  have "entry_pair ` set sent \<inter> entry_pair ` set (poll_arp_table polls seen') = {}"
    using spec IH(2) by auto
  moreover have "entry_pair ` (set sent \<union> set (poll_arp_table polls seen'))
      = (\<Union>c \<in> set (contents # polls). entry_pair ` set (parse_arp_table c)) - seen"
    unfolding image_Un IH(2) using spec by auto
  ultimately show ?case using spec IH(1) run by simp
qed simp

text \<open>The polls of the ARP table. Over any number of polls every complete line with a usable
  address is sent exactly once, however often it is read.\<close>

theorem poll_arp_table_exact:
  "distinct (poll_arp_table polls {})
   \<and> set (poll_arp_table polls {}) = (\<Union>c \<in> set polls. set (parse_arp_table c))"
proof -
  have inj: "inj entry_pair" by (simp add: inj_def entry_pair_inj)
  have "entry_pair ` set (poll_arp_table polls {})
      = entry_pair ` (\<Union>c \<in> set polls. set (parse_arp_table c))"
    using poll_arp_table_spec [of polls "{}"] by (simp add: image_UN)
  then have "set (poll_arp_table polls {}) = (\<Union>c \<in> set polls. set (parse_arp_table c))"
    by (simp only: inj_image_eq_iff [OF inj])
  then show ?thesis using poll_arp_table_spec [of polls "{}"] by (simp add: distinct_map)
qed

section \<open>Invariants of the event loop\<close>

lemma upsert_entry_result:
  "upsert_entry key m ip now g d s = Inr (s', r) \<Longrightarrow> s' = s(key \<mapsto> r) \<and> rec_last_ip r = ip"
  by (auto simp: upsert_entry_def Let_def record_sighting_eq outcome_bind_Inr_iff split: if_splits)

text \<open>Both registries are consistent, and the file holds the one in memory unless the last save failed.\<close>

definition files_ok :: "json_codec \<Rightarrow> listener \<Rightarrow> bool" where
  "files_ok js s \<longleftrightarrow>
     store_inv (ls_store s) \<and> disk_inv js (ls_disk s)
     \<and> (ls_saved s \<longrightarrow> store_load js (ls_disk s) = ls_store s)"

lemma write_back_simps [simp]:
  "ls_store (write_back js s) = ls_store s" "ls_seen (write_back js s) = ls_seen s"
  "ls_lines (write_back js s) = ls_lines s"
  by (simp_all add: write_back_def split: prod.split)

lemma files_ok_write_back:
  assumes "store_inv (ls_store s)" "disk_inv js (ls_disk s)"
  shows "files_ok js (write_back js s)"
proof -
  obtain dk ok where save: "store_save js (ls_store s) (ls_disk s) = (dk, ok)" by fastforce
  have "files_law js (ls_disk s)" using assms(2) by (simp add: disk_inv_def)
  from store_save_load(1) [OF this save] store_save_inv [OF assms(2,1) save] assms(1) show ?thesis
    by (simp add: files_ok_def write_back_def save)
qed

text \<open>The registry holds just what was heard: each record is filed under the MAC of the address
  it was last seen at, and each MAC heard has its record.\<close>

definition heard_only :: "listener \<Rightarrow> bool" where
  "heard_only s \<longleftrightarrow>
     store_inv (ls_store s)
     \<and> (\<forall>k r. ls_store s k = Some r \<longrightarrow>
          (\<exists>ip m. ls_seen s ip = Some m \<and> k = mac_key m \<and> rec_last_ip r = show_ipv4 ip))
     \<and> (\<forall>ip m. ls_seen s ip = Some m \<longrightarrow> mac_key m \<in> dom (ls_store s))"

lemma heard_only_write_back [simp]: "heard_only (write_back js s) \<longleftrightarrow> heard_only s"
  by (simp add: heard_only_def)

lemma heard_only_lines [simp]: "heard_only (s\<lparr>ls_lines := lines\<rparr>) \<longleftrightarrow> heard_only s"
  by (simp add: heard_only_def)

lemma on_entry_cases:
  assumes "on_entry js oui vals now e s = Inr s'"
  obtains (same) "s' = s"
  | (fresh) store r where "ls_seen s (entry_ip e) = None"
      "upsert vals now tag_of ((device_from e)\<lparr>dev_vendor := oui_lookup oui (entry_mac e)\<rparr>) (ls_store s)
         = Inr (store, r)"
      "s' = write_back js
         (s\<lparr>ls_store := store, ls_seen := (ls_seen s)(entry_ip e \<mapsto> entry_mac e),
           ls_lines := ls_lines s @ [new_line (entry_ip e) (entry_mac e) (oui_lookup oui (entry_mac e)) (rec_tag r)]\<rparr>)"
proof -
  have "s' = s \<or> (\<exists>store r. ls_seen s (entry_ip e) = None
      \<and> upsert vals now tag_of ((device_from e)\<lparr>dev_vendor := oui_lookup oui (entry_mac e)\<rparr>) (ls_store s)
         = Inr (store, r)
      \<and> s' = write_back js
         (s\<lparr>ls_store := store, ls_seen := (ls_seen s)(entry_ip e \<mapsto> entry_mac e),
           ls_lines := ls_lines s @ [new_line (entry_ip e) (entry_mac e) (oui_lookup oui (entry_mac e)) (rec_tag r)]\<rparr>))"
    using assms unfolding on_entry_def Let_def
    by (simp split: if_splits) (auto simp: outcome_bind_Inr_iff)
  then show thesis using same fresh by blast
qed

definition service_device :: "string \<Rightarrow> mac \<Rightarrow> service_event \<Rightarrow> device" where
  "service_device oui m ev =
     \<lparr>dev_ip = sev_ip ev, dev_mac = Some m, dev_vendor = oui_lookup oui m, dev_hostname = None,
      dev_os_hint = None, dev_services = sev_services ev, dev_via = Arp, dev_category = None,
      dev_tag = None\<rparr>"

lemma on_services_cases:
  assumes "on_services js oui vals now ev s = Inr s'"
  obtains (same) "s' = s"
  | (known) m store r where "ls_seen s (sev_ip ev) = Some m"
      "upsert vals now tag_of (service_device oui m ev) (ls_store s) = Inr (store, r)"
      "s' = write_back js
         (s\<lparr>ls_store := store, ls_lines := ls_lines s @ [svc_line (sev_ip ev) (sev_services ev)]\<rparr>)"
  using assms
  by (auto simp: on_services_def service_device_def Let_def outcome_bind_Inr_iff split: option.splits)

lemma listen_step_files: "files_ok js s \<Longrightarrow> listen_step js oui s s' \<Longrightarrow> files_ok js s'"
  by (erule listen_stepE; erule on_entry_cases on_services_cases)
    (auto simp: files_ok_def [of js s] intro!: files_ok_write_back dest: upsert_step)

lemma heard_holders:
  assumes "heard_only s"
  shows "holders ip (ls_store s) \<subseteq> mac_key ` set_option (ls_seen s ip)"
proof
  fix k
  assume "k \<in> holders ip (ls_store s)"
  then obtain r where "ls_store s k = Some r" "rec_last_ip r = show_ipv4 ip"
    by (auto simp: holders_def)
  with assms obtain ip' m where "ls_seen s ip' = Some m" "k = mac_key m" "show_ipv4 ip = show_ipv4 ip'"
    unfolding heard_only_def by metis
  then show "k \<in> mac_key ` set_option (ls_seen s ip)" by (simp add: show_ipv4_inj)
qed

lemma heard_only_update:
  assumes "heard_only s" "ls_seen s ip = None \<or> ls_seen s ip = Some m"
    and "store_inv (s'(mac_key m \<mapsto> r))" "s' = ls_store s" "rec_last_ip r = show_ipv4 ip"
  shows "heard_only (s\<lparr>ls_store := s'(mac_key m \<mapsto> r), ls_seen := (ls_seen s)(ip \<mapsto> m)\<rparr>)"
  using assms by (auto simp: heard_only_def mac_key_inj) (metis mac_key_inj option.distinct(1) option.inject)+

lemma heard_upsert:
  assumes "heard_only s" "values_of vals (ls_store s)" "dev_mac d = Some m"
    and "ls_seen s (dev_ip d) = None \<or> ls_seen s (dev_ip d) = Some m"
    and "upsert vals now g d (ls_store s) = Inr (store, r)"
  shows "heard_only (s\<lparr>ls_store := store, ls_seen := (ls_seen s)(dev_ip d \<mapsto> m)\<rparr>)"
proof -
  have inv: "store_inv (ls_store s)" using assms(1) by (simp add: heard_only_def)
  have "holders (dev_ip d) (ls_store s) \<subseteq> {mac_key m}"
    using heard_holders [OF assms(1), of "dev_ip d"] assms(4) by auto
  then have "upsert_entry (mac_key m) (Some m) (show_ipv4 (dev_ip d)) now g d (ls_store s) = Inr (store, r)"
    using upsert_own_key [OF inv assms(2,3)] assms(5) by simp
  then have "store = (ls_store s)(mac_key m \<mapsto> r)" "rec_last_ip r = show_ipv4 (dev_ip d)"
    by (auto dest: upsert_entry_result)
  then show ?thesis
    using heard_only_update [OF assms(1,4)] upsert_step [OF inv assms(2,5)] by simp
qed

lemma listen_step_heard: "heard_only s \<Longrightarrow> listen_step js oui s s' \<Longrightarrow> heard_only s'"
proof (erule listen_stepE)
  fix vals now saved e
  assume heard: "heard_only s" and vals: "values_of vals (ls_store s)"
    and run: "on_entry js oui vals now e s = Inr s'"
  from run show "heard_only s'"
  proof (cases rule: on_entry_cases)
    case (fresh store r)
    then show ?thesis
      using heard_upsert [OF heard vals, of "(device_from e)\<lparr>dev_vendor := oui_lookup oui (entry_mac e)\<rparr>"]
      by simp
  qed (use heard in simp)
next
  fix vals now saved ev
  assume heard: "heard_only s" and vals: "values_of vals (ls_store s)"
    and run: "on_services js oui vals now ev s = Inr s'"
  from run show "heard_only s'"
  proof (cases rule: on_services_cases)
    case (known m store r)
    then have "heard_only (s\<lparr>ls_store := store, ls_seen := (ls_seen s)(sev_ip ev \<mapsto> m)\<rparr>)"
      using heard_upsert [OF heard vals, of "service_device oui m ev"]
      by (simp add: service_device_def)
    moreover have "(ls_seen s)(sev_ip ev \<mapsto> m) = ls_seen s" using known(1) by (rule map_upd_triv)
    ultimately show ?thesis using known(3) by simp
  qed (use heard in simp)
qed

interpretation listening: invariant_system "\<lambda>s. \<exists>dk. disk_inv js dk \<and> s = listen_init js dk"
    "listen_step js oui" "files_ok js" for js oui
proof
  show "\<exists>dk. disk_inv js dk \<and> s = listen_init js dk \<Longrightarrow> files_ok js s" for s
    by (auto simp: files_ok_def listen_init_def disk_inv_def)
qed (rule listen_step_files)

interpretation listening_afresh: invariant_system
    "\<lambda>s. \<exists>dk. store_load js dk = Map.empty \<and> s = listen_init js dk" "listen_step js oui" heard_only
  for js oui
proof
  show "\<exists>dk. store_load js dk = Map.empty \<and> s = listen_init js dk \<Longrightarrow> heard_only s" for s
    by (auto simp: heard_only_def listen_init_def store_inv_empty)
qed (rule listen_step_heard)

text \<open>The event loop keeps the registry consistent. From a file with a consistent registry, and
  in whatever order entries and service events arrive, the registry in memory and the one a
  later run would load stay consistent, even if saves fail; and unless the last save
  failed, the file holds the registry in memory.\<close>

theorem listen_keeps_registry_consistent:
  assumes "disk_inv js dk" and "(listen_step js oui)\<^sup>*\<^sup>* (listen_init js dk) s"
  shows "store_inv (ls_store s) \<and> store_inv (store_load js (ls_disk s))
    \<and> (ls_saved s \<longrightarrow> store_load js (ls_disk s) = ls_store s)"
proof -
  have "files_ok js s" using listening.reachable_inv [OF _ assms(2)] assms(1) by blast
  then show ?thesis by (simp add: files_ok_def disk_inv_def)
qed

text \<open>C28: listening with an empty registry. The records are exactly those of the MAC addresses
  heard: each is filed under its MAC, and its last address is one at which that MAC was heard.
  The mDNS source knows no MAC and gives the broadcast address for every host, so that however
  many hosts it hears of, the registry ends with a single record for all of them.\<close>

theorem listen_records_heard_macs:
  assumes "store_load js dk = Map.empty" and "(listen_step js oui)\<^sup>*\<^sup>* (listen_init js dk) s"
  shows "dom (ls_store s) = mac_key ` ran (ls_seen s)
    \<and> (\<forall>k r. ls_store s k = Some r \<longrightarrow>
         (\<exists>ip m. ls_seen s ip = Some m \<and> k = mac_key m \<and> rec_last_ip r = show_ipv4 ip))
    \<and> ((\<forall>ip \<in> dom (ls_seen s). \<exists>data ev. mdns_datagram data ip
          = Inr (ev, \<lparr>entry_ip = ip, entry_mac = the (ls_seen s ip)\<rparr>))
        \<longrightarrow> dom (ls_store s) \<subseteq> {mac_key mac_broadcast})"
proof -
  have heard: "heard_only s" using listening_afresh.reachable_inv [OF _ assms(2)] assms(1) by blast
  then have dom: "dom (ls_store s) = mac_key ` ran (ls_seen s)"
    by (fastforce simp: heard_only_def ran_def)
  moreover have "dom (ls_store s) \<subseteq> {mac_key mac_broadcast}"
    if mdns: "\<forall>ip \<in> dom (ls_seen s). \<exists>data ev. mdns_datagram data ip
          = Inr (ev, \<lparr>entry_ip = ip, entry_mac = the (ls_seen s ip)\<rparr>)"
  proof -
    have "m = mac_broadcast" if "ls_seen s ip = Some m" for ip m
      using mdns that by (force simp: mdns_datagram_def outcome_bind_Inr_iff)
    then show ?thesis unfolding dom by (auto simp: ran_def)
  qed
  ultimately show ?thesis using heard by (simp add: heard_only_def)
qed

definition mdns_entry :: "ipv4 \<Rightarrow> arp_entry" where
  "mdns_entry ip = \<lparr>entry_ip = ip, entry_mac = mac_broadcast\<rparr>"

lemma broadcast_is_broadcast [simp]: "is_broadcast_mac mac_broadcast"
  by (simp add: is_broadcast_mac_iff)

text \<open>A first run, on a file system that writes what it is given, with a library that prints nothing
  but the empty text and reads nothing.\<close>

definition blank_disk :: disk where
  "blank_disk = \<lparr>dk_contents = None, dk_dirs_ok = True, dk_write = (\<lambda>_ json. (Some json, True))\<rparr>"

definition no_json :: json_codec where
  "no_json = \<lparr>js_parse = (\<lambda>_. None), js_print = (\<lambda>_. None)\<rparr>"

lemma blank_load [simp]: "store_load js blank_disk = Map.empty"
  by (simp add: store_load_def blank_disk_def)

lemma no_json_law: "files_law no_json blank_disk"
  by (simp add: files_law_def no_json_def blank_disk_def)

lemma first_mdns_host:
  "\<exists>s r. on_entry js oui [] 7 (mdns_entry 5) (listen_init js blank_disk) = Inr s
     \<and> ls_store s = [mac_key mac_broadcast \<mapsto> r] \<and> rec_last_ip r = show_ipv4 5
     \<and> rec_key r = mac_key mac_broadcast \<and> rec_seen_count r = 1
     \<and> ls_seen s = [5 \<mapsto> mac_broadcast]"
  by (simp add: on_entry_def listen_init_def mdns_entry_def upsert_def existing_by_ip_def
      upsert_entry_def record_sighting_eq fresh_record_def Let_def)
    (rule exI, rule conjI, rule refl, simp add: enrich_def)

lemma second_mdns_host:
  assumes "ls_store s = [mac_key mac_broadcast \<mapsto> r]" "rec_last_ip r = show_ipv4 5"
    "rec_key r = mac_key mac_broadcast" "rec_seen_count r = 1" "ls_seen s = [5 \<mapsto> mac_broadcast]"
  shows "\<exists>s'. on_entry js oui [r] 8 (mdns_entry 6) s = Inr s'
     \<and> ls_seen s' = [5 \<mapsto> mac_broadcast, 6 \<mapsto> mac_broadcast]"
  using assms
  by (simp add: on_entry_def mdns_entry_def upsert_def existing_by_ip_def show_ipv4_inj
      upsert_entry_def record_sighting_eq Let_def)

text \<open>Two hosts are heard over mDNS and end as one record.\<close>

lemma two_mdns_hosts:
  "\<exists>s. (listen_step js oui)\<^sup>*\<^sup>* (listen_init js blank_disk) s
     \<and> ls_seen s = [5 \<mapsto> mac_broadcast, 6 \<mapsto> mac_broadcast]"
proof -
  obtain s r where s: "on_entry js oui [] 7 (mdns_entry 5) (listen_init js blank_disk) = Inr s"
      "ls_store s = [mac_key mac_broadcast \<mapsto> r]" "rec_last_ip r = show_ipv4 5"
      "rec_key r = mac_key mac_broadcast" "rec_seen_count r = 1" "ls_seen s = [5 \<mapsto> mac_broadcast]"
    using first_mdns_host by blast
  obtain s' where s': "on_entry js oui [r] 8 (mdns_entry 6) s = Inr s'"
      "ls_seen s' = [5 \<mapsto> mac_broadcast, 6 \<mapsto> mac_broadcast]"
    using second_mdns_host [OF s(2-6)] by blast
  have "values_of [] (ls_store (listen_init js blank_disk))" by (simp add: values_of_def listen_init_def)
  then have "listen_step js oui (listen_init js blank_disk) s" using s(1) by (rule listen_step.entry)
  moreover have "values_of [r] (ls_store s)" unfolding s(2) by (rule values_of_single)
  then have "listen_step js oui s s'" using s'(1) by (rule listen_step.entry)
  ultimately show ?thesis using s'(2) by (meson converse_rtranclp_into_rtranclp r_into_rtranclp)
qed

theorem listen_keeps_registry_consistent_witness:
  "\<exists>s. (listen_step no_json [])\<^sup>*\<^sup>* (listen_init no_json blank_disk) s \<and> ls_seen s 6 = Some mac_broadcast
     \<and> store_inv (ls_store s) \<and> store_inv (store_load no_json (ls_disk s))"
proof -
  obtain s where s: "(listen_step no_json [])\<^sup>*\<^sup>* (listen_init no_json blank_disk) s"
    "ls_seen s = [5 \<mapsto> mac_broadcast, 6 \<mapsto> mac_broadcast]"
    using two_mdns_hosts by blast
  have "disk_inv no_json blank_disk" by (simp add: disk_inv_def no_json_law store_inv_empty)
  from listen_keeps_registry_consistent [OF this s(1)] s show ?thesis by auto
qed

lemma mdns_any_datagram:
  "mdns_datagram [] ip = Inr (None, \<lparr>entry_ip = ip, entry_mac = mac_broadcast\<rparr>)"
  by (simp add: mdns_datagram_def parse_mdns_for_services_def)

theorem listen_records_heard_macs_witness:
  "\<exists>s. (listen_step no_json [])\<^sup>*\<^sup>* (listen_init no_json blank_disk) s \<and> dom (ls_seen s) = {5, 6}
     \<and> dom (ls_store s) = {mac_key mac_broadcast}"
proof -
  obtain s where s: "(listen_step no_json [])\<^sup>*\<^sup>* (listen_init no_json blank_disk) s"
    "ls_seen s = [5 \<mapsto> mac_broadcast, 6 \<mapsto> mac_broadcast]"
    using two_mdns_hosts by blast
  have "\<forall>ip \<in> dom (ls_seen s). \<exists>data ev. mdns_datagram data ip
      = Inr (ev, \<lparr>entry_ip = ip, entry_mac = the (ls_seen s ip)\<rparr>)"
    using s(2) by (auto intro!: exI [of _ "[]"] exI [of _ None] simp: mdns_any_datagram)
  with listen_records_heard_macs [OF blank_load s(1)] have "dom (ls_store s) \<subseteq> {mac_key mac_broadcast}"
    and "dom (ls_store s) = mac_key ` ran (ls_seen s)" by blast+
  moreover have "mac_broadcast \<in> ran (ls_seen s)" by (simp add: s(2))
  ultimately have "dom (ls_store s) = {mac_key mac_broadcast}" by blast
  moreover have "dom (ls_seen s) = {5, 6}" by (auto simp: s(2))
  ultimately show ?thesis using s(1) by blast
qed

end
