(* ===== verification/Survey.thy ===== *)
theory Survey
  imports Mdns Packets Interface Subnet Sweep Arp_Scan
begin

text \<open>
  \<open>discovery/survey.rs\<close>: the three layers of a survey, the gateways heard on the wire, what
  they tell over UPnP, and the subnets that lie next to the local one; then the probe of every
  candidate and the merged, ranked result. The \<open>url\<close> crate and the TCP exchange are arguments,
  as are the datagrams the SSDP socket receives. Hash maps and sets whose iteration order the
  code leaves open are lists in the order of insertion; nothing proved depends on that order.
\<close>

section \<open>Data\<close>

datatype subnet_source = GatewayRoute | DhcpOffer | UpnpDiscovery | AdjacentSweep | CommonPrivate

record discovered_subnet =
  ds_network :: ipv4
  ds_prefix :: byte
  ds_host_count :: "nat option"
  ds_source :: subnet_source
  ds_gateway :: "ipv4 option"

record gateway_info =
  gw_ip :: ipv4
  gw_mac :: mac
  gw_subnet :: "(ipv4 \<times> byte) option"

type_synonym candidate = "ipv4 \<times> byte \<times> subnet_source"

section \<open>Subnets\<close>

definition network_base :: "ipv4 \<Rightarrow> byte \<Rightarrow> ipv4 outcome" where
  "network_base ip p = outcome_bind (netmask p) (\<lambda>m. Inr (ip AND m))"

definition ip_in_subnet :: "ipv4 \<Rightarrow> ipv4 \<Rightarrow> byte \<Rightarrow> bool outcome" where
  "ip_in_subnet ip base p = outcome_bind (netmask p) (\<lambda>m. Inr ((ip AND m) = (base AND m)))"

interpretation survey_subnets: subnet_arithmetic network_base ip_in_subnet
  by unfold_locales (simp_all add: network_base_def ip_in_subnet_def)

definition subnet_from_interface :: "network_interface \<Rightarrow> (ipv4 \<times> byte) option outcome" where
  "subnet_from_interface i =
     (case List.map_filter v4_of (ni_ips i) of [] \<Rightarrow> Inr None
      | (v4, p) # _ \<Rightarrow> outcome_bind (netmask p) (\<lambda>m. Inr (Some (v4 AND m, p))))"

definition mask_to_prefix :: "ipv4 \<Rightarrow> byte" where
  "mask_to_prefix m = of_nat (count_ones m)"

section \<open>Gateways on the wire\<close>

record wiretap =
  wt_gateways :: "(ipv4 \<times> mac) list"
  wt_dhcp :: "ipv4 list"

definition or_insert :: "'k \<Rightarrow> 'v \<Rightarrow> ('k \<times> 'v) list \<Rightarrow> ('k \<times> 'v) list" where
  "or_insert k v m = (if map_of m k = None then m @ [(k, v)] else m)"

definition insert_new :: "'a \<Rightarrow> 'a list \<Rightarrow> 'a list" where
  "insert_new x xs = (if x \<in> set xs then xs else xs @ [x])"

definition in_local :: "(ipv4 \<times> byte) option \<Rightarrow> ipv4 \<Rightarrow> bool outcome" where
  "in_local local_subnet ip =
     (case local_subnet of None \<Rightarrow> Inr True | Some (b, p) \<Rightarrow> ip_in_subnet ip b p)"

definition gateway_octet :: "ipv4 \<Rightarrow> bool" where
  "gateway_octet ip \<longleftrightarrow> octet 3 ip = 1 \<or> octet 3 ip = 254"

text \<open>The sender's membership is tested once, for both fields of the packet.\<close>

definition tap_arp :: "(ipv4 \<times> byte) option \<Rightarrow> bytes \<Rightarrow> wiretap \<Rightarrow> wiretap outcome" where
  "tap_arp local_subnet arp wt =
     (let sender = arp_sender_ip arp; target = arp_target_ip arp; sender_mac = arp_sender_mac arp
      in if sender_mac = mac_zero then Inr wt
         else
           outcome_bind (in_local local_subnet sender) (\<lambda>ok.
             (let wt1 =
                (if ok \<and> sender \<noteq> 0 \<and> gateway_octet sender
                 then wt\<lparr>wt_gateways := or_insert sender sender_mac (wt_gateways wt)\<rparr> else wt)
              in if ok \<and> target \<noteq> 0 \<and> gateway_octet target \<and> arp_target_mac arp \<noteq> mac_zero
                 then Inr (wt1\<lparr>wt_gateways := or_insert target (arp_target_mac arp) (wt_gateways wt1)\<rparr>)
                 else Inr wt1)))"

definition tap_ipv4 :: "bytes \<Rightarrow> wiretap \<Rightarrow> wiretap" where
  "tap_ipv4 ipv4 wt =
     (if ip_protocol ipv4 = proto_udp then
        (case udp_new (ip_payload ipv4) of None \<Rightarrow> wt
         | Some udp \<Rightarrow>
             if udp_source udp = 67 \<or> udp_destination udp = 67 then
               (let src = ip_source ipv4; dst = ip_destination ipv4;
                    d1 = (if is_unspecified src then wt_dhcp wt else insert_new src (wt_dhcp wt));
                    d2 = (if is_unspecified dst then d1 else insert_new dst d1)
                in wt\<lparr>wt_dhcp := d2\<rparr>)
             else wt)
      else wt)"

definition tap_frame :: "(ipv4 \<times> byte) option \<Rightarrow> bytes \<Rightarrow> wiretap \<Rightarrow> wiretap outcome" where
  "tap_frame local_subnet packet wt =
     (case ethernet_new packet of None \<Rightarrow> Inr wt
      | Some eth \<Rightarrow>
          if ethertype eth = ethertype_arp then
            (case arp_new (eth_payload eth) of None \<Rightarrow> Inr wt
             | Some arp \<Rightarrow> tap_arp local_subnet arp wt)
          else if ethertype eth = ethertype_ipv4 then
            (case ipv4_packet_new (eth_payload eth) of None \<Rightarrow> Inr wt
             | Some ipv4 \<Rightarrow> Inr (tap_ipv4 ipv4 wt))
          else Inr wt)"

fun tap_frames :: "(ipv4 \<times> byte) option \<Rightarrow> bytes option list \<Rightarrow> wiretap \<Rightarrow> wiretap outcome" where
  "tap_frames local_subnet [] wt = Inr wt"
| "tap_frames local_subnet (None # rest) wt = tap_frames local_subnet rest wt"
| "tap_frames local_subnet (Some packet # rest) wt =
     outcome_bind (tap_frame local_subnet packet wt) (tap_frames local_subnet rest)"

definition gateway_candidates :: "(ipv4 \<times> byte) option \<Rightarrow> wiretap \<Rightarrow> gateway_info list" where
  "gateway_candidates local_subnet wt =
     map (\<lambda>(ip, m). \<lparr>gw_ip = ip, gw_mac = m, gw_subnet = local_subnet\<rparr>) (wt_gateways wt)
     @ map (\<lambda>ip. \<lparr>gw_ip = ip, gw_mac = mac_zero, gw_subnet = local_subnet\<rparr>)
         (filter (\<lambda>ip. ip \<notin> fst ` set (wt_gateways wt)) (wt_dhcp wt))"

definition detect_gateways_passive ::
  "network_interface list \<Rightarrow> string \<Rightarrow> bytes option list option \<Rightarrow> gateway_info list outcome" where
  "detect_gateways_passive pnet iface_name channel =
     (case List.find (\<lambda>i. ni_name i = iface_name \<and> ni_up i \<and> \<not> ni_loopback i) pnet of
        None \<Rightarrow> Inr []
      | Some i \<Rightarrow>
          outcome_bind (subnet_from_interface i) (\<lambda>local_subnet.
            (case channel of None \<Rightarrow> Inr []
             | Some packets \<Rightarrow>
                 outcome_bind (tap_frames local_subnet packets \<lparr>wt_gateways = [], wt_dhcp = []\<rparr>)
                   (\<lambda>wt. Inr (gateway_candidates local_subnet wt)))))"

section \<open>UPnP\<close>

definition crlf :: string where
  "crlf = [CHR 0x0D, CHR 0x0A]"

definition quote :: string where
  "quote = [CHR 0x22]"

definition upnp_soap_body :: "string \<Rightarrow> string \<Rightarrow> string \<Rightarrow> string" where
  "upnp_soap_body action service args =
     ''<?xml version='' @ quote @ ''1.0'' @ quote @ ''?>'' @ crlf
     @ ''<s:Envelope xmlns:s='' @ quote @ ''http://schemas.xmlsoap.org/soap/envelope/'' @ quote
     @ '' s:encodingStyle='' @ quote @ ''http://schemas.xmlsoap.org/soap/encoding/'' @ quote @ ''>'' @ crlf
     @ ''<s:Body>'' @ crlf
     @ ''<u:'' @ action @ '' xmlns:u='' @ quote @ service @ quote @ ''>'' @ crlf
     @ args @ crlf @ ''</u:'' @ action @ ''>'' @ crlf @ ''</s:Body>'' @ crlf @ ''</s:Envelope>'' @ crlf"

text \<open>What the code uses of a parsed URL, and the TCP exchange: connecting, writing and reading
  all the response as UTF-8, or nothing.\<close>

record parsed_url =
  url_host :: "string option"
  url_port :: "16 word option"
  url_path :: string

record upnp_env =
  env_parse_url :: "string \<Rightarrow> parsed_url option"
  env_exchange :: "ipv4 \<Rightarrow> 16 word \<Rightarrow> string \<Rightarrow> string option"

definition soap_request :: "parsed_url \<Rightarrow> string \<Rightarrow> 16 word \<Rightarrow> string \<Rightarrow> string" where
  "soap_request u host port soap =
     (let name = last (split_char CHR ''/'' (url_path u))
      in ''POST '' @ url_path u @ '' HTTP/1.1'' @ crlf
         @ ''Host: '' @ host @ '':'' @ show_nat (unat port) @ crlf
         @ ''Content-Type: text/xml; charset='' @ quote @ ''utf-8'' @ quote @ crlf
         @ ''SOAPAction: '' @ quote @ name @ ''#'' @ name @ quote @ crlf
         @ ''Content-Length: '' @ show_nat (length soap) @ crlf
         @ ''Connection: close'' @ crlf @ crlf @ soap)"

definition upnp_http_post :: "upnp_env \<Rightarrow> string \<Rightarrow> string \<Rightarrow> string option" where
  "upnp_http_post env url soap =
     Option.bind (env_parse_url env url) (\<lambda>u.
     Option.bind (url_host u) (\<lambda>host.
     (let port = (case url_port u of None \<Rightarrow> 80 | Some p \<Rightarrow> p)
      in Option.bind (parse_ipv4 host) (\<lambda>ip.
         Option.bind (env_exchange env ip port (soap_request u host port soap)) (\<lambda>response.
         map_option (\<lambda>body_start. drop (body_start + 4) response)
           (find_str response (crlf @ crlf)))))))"

definition location_urls :: "string \<Rightarrow> string list outcome" where
  "location_urls d =
     outcome_bind
       (map_outcome (\<lambda>line. slice line 9 (length line))
          (filter (\<lambda>line. starts_with (to_lowercase line) ''location:'') (str_lines d)))
       (\<lambda>urls. Inr (map trim_str urls))"

fun ssdp_locations :: "ipv4 \<Rightarrow> recv list \<Rightarrow> string list outcome" where
  "ssdp_locations gateway [] = Inr []"
| "ssdp_locations gateway (Recv_Error # rest) = Inr []"
| "ssdp_locations gateway (Datagram data src # rest) =
     (if src = Some gateway then
        outcome_bind (location_urls (from_utf8_lossy data)) (\<lambda>urls.
        outcome_bind (ssdp_locations gateway rest) (\<lambda>more_urls. Inr (urls @ more_urls)))
      else ssdp_locations gateway rest)"

definition common_ports :: "nat list" where
  "common_ports = [5000, 49152, 49153, 49154, 49155, 1780, 8080]"

definition root_desc :: string where
  "root_desc = ''rootDesc.xml''"

fun probe_root_desc :: "upnp_env \<Rightarrow> ipv4 \<Rightarrow> nat list \<Rightarrow> string option" where
  "probe_root_desc env gateway [] = None"
| "probe_root_desc env gateway (port # ports) =
     (let test_url = ''http://'' @ show_ipv4 gateway @ '':'' @ show_nat port @ ''/'' @ root_desc
      in case upnp_http_post env test_url [] of
           Some body \<Rightarrow>
             if str_contains body ''InternetGatewayDevice'' \<or> str_contains body ''WANDevice''
             then Some (trim_end_matches root_desc test_url)
             else probe_root_desc env gateway ports
         | None \<Rightarrow> probe_root_desc env gateway ports)"

definition discover_upnp_services ::
  "upnp_env \<Rightarrow> ipv4 \<Rightarrow> recv list option \<Rightarrow> string list outcome" where
  "discover_upnp_services env gateway socket =
     (case socket of None \<Rightarrow> Inr []
      | Some events \<Rightarrow>
          outcome_bind (ssdp_locations gateway events) (\<lambda>locations.
            if locations = [] then
              (case probe_root_desc env gateway common_ports of None \<Rightarrow> Inr [] | Some u \<Rightarrow> Inr [u])
            else Inr locations))"

definition extract_xml_value :: "string \<Rightarrow> string \<Rightarrow> string option" where
  "extract_xml_value xml tag =
     (let open_tag = ''<'' @ tag @ ''>''; close_tag = ''</'' @ tag @ ''>''
      in Option.bind (find_str xml open_tag) (\<lambda>i.
         (let start = i + length open_tag
          in Option.bind (find_str (drop start xml) close_tag) (\<lambda>stop.
               Some (take stop (drop start xml))))))"

definition base_url :: "string \<Rightarrow> string" where
  "base_url url =
     (if ends_with url root_desc then trim_end_matches root_desc url
      else if ends_with url ''/'' then url else url @ ''/'')"

definition soap_call :: "upnp_env \<Rightarrow> string \<Rightarrow> string \<Rightarrow> string \<Rightarrow> string \<Rightarrow> string option" where
  "soap_call env base service control_path action =
     upnp_http_post env (trim_end_matches ''/'' base @ control_path)
       (upnp_soap_body action (''urn:schemas-upnp-org:service:'' @ service) [])"

definition wan_services :: "(string \<times> string \<times> string) list" where
  "wan_services =
     [(''WANIPConnection:1'', ''/WANIPConnCtrlURL'', ''GetExternalIPAddress''),
      (''WANPPPConnection:1'', ''/WANPPPConnCtrlURL'', ''GetExternalIPAddress'')]"

definition lan_services :: "(string \<times> string \<times> string) list" where
  "lan_services =
     [(''LANHostConfigManagement:1'', ''/LANHostCfgURL'', ''GetSubnetMask''),
      (''LANHostConfigManagement:1'', ''/LANHostCfgURL'', ''GetIPRoutersList''),
      (''Layer3Forwarding:1'', ''/L3FwdURL'', ''GetDefaultConnectionService'')]"

definition wan_prefixes :: "byte list" where
  "wan_prefixes = [24, 28, 29, 30]"

definition external_ip :: "string \<Rightarrow> ipv4 option" where
  "external_ip response = Option.bind (extract_xml_value response ''NewExternalIPAddress'') parse_ipv4"

definition wan_response :: "string \<Rightarrow> candidate list outcome" where
  "wan_response response =
     outcome_bind
       (case external_ip response of None \<Rightarrow> Inr []
        | Some wan_ip \<Rightarrow>
            if \<not> is_unspecified wan_ip \<and> \<not> is_private wan_ip then
              map_outcome (\<lambda>p. outcome_bind (network_base wan_ip p) (\<lambda>b. Inr (b, p, UpnpDiscovery)))
                wan_prefixes
            else Inr [])
       (\<lambda>xs. outcome_bind
          (case Option.bind (extract_xml_value response ''NewSubnetMask'') parse_ipv4 of
             None \<Rightarrow> Inr []
           | Some m \<Rightarrow>
               (case external_ip response of None \<Rightarrow> Inr []
                | Some wan_ip \<Rightarrow>
                    outcome_bind (network_base wan_ip (mask_to_prefix m))
                      (\<lambda>b. Inr [(b, mask_to_prefix m, UpnpDiscovery)])))
          (\<lambda>ys. Inr (xs @ ys)))"

definition router_list :: "string \<Rightarrow> string \<Rightarrow> candidate list" where
  "router_list action response =
     (if action = ''GetIPRoutersList'' then
        (case extract_xml_value response ''NewIPRouters'' of None \<Rightarrow> []
         | Some routers \<Rightarrow>
             concat (map (\<lambda>ip_str. case parse_ipv4 (trim_str ip_str) of None \<Rightarrow> []
                        | Some r \<Rightarrow> [(r, 24, UpnpDiscovery), (r, 16, UpnpDiscovery)])
               (split_char CHR '','' routers)))
      else [])"

definition concat_outcome :: "'a list outcome list \<Rightarrow> 'a list outcome" where
  "concat_outcome ms = outcome_bind (map_outcome id ms) (\<lambda>xss. Inr (concat xss))"

definition query_base :: "upnp_env \<Rightarrow> string \<Rightarrow> candidate list outcome" where
  "query_base env base =
     outcome_bind
       (concat_outcome (map (\<lambda>(service, path, action).
          case soap_call env base service path action of None \<Rightarrow> Inr []
          | Some response \<Rightarrow> wan_response response) wan_services))
       (\<lambda>xs. Inr (xs @ concat (map (\<lambda>(service, path, action).
          case soap_call env base service path action of None \<Rightarrow> []
          | Some response \<Rightarrow> router_list action response) lan_services)))"

definition query_upnp_wan :: "upnp_env \<Rightarrow> ipv4 \<Rightarrow> recv list option \<Rightarrow> candidate list outcome" where
  "query_upnp_wan env gateway socket =
     outcome_bind (discover_upnp_services env gateway socket) (\<lambda>services.
       concat_outcome (map (query_base env) (map base_url services)))"

text \<open>\<open>query_upnp_routes\<close> asks for the kind of the WAN link and only prints it; the URLs it asks
  are kept, the list of subnets stays empty.\<close>

definition query_upnp_routes ::
  "upnp_env \<Rightarrow> ipv4 \<Rightarrow> recv list option \<Rightarrow> (string option list \<times> candidate list) outcome" where
  "query_upnp_routes env gateway socket =
     outcome_bind (discover_upnp_services env gateway socket) (\<lambda>services.
       Inr (map (\<lambda>base. Option.bind
                   (soap_call env base ''WANCommonInterfaceConfig:1'' ''/WANCommonIfCfgURL''
                      ''GetCommonLinkProperties'')
                   (\<lambda>response. extract_xml_value response ''NewWANAccessType''))
              (map base_url services), []))"

definition probe_gateway_upnp ::
  "upnp_env \<Rightarrow> ipv4 \<Rightarrow> recv list option \<Rightarrow> recv list option \<Rightarrow> candidate list outcome" where
  "probe_gateway_upnp env gateway wan_socket routes_socket =
     outcome_bind (query_upnp_wan env gateway wan_socket) (\<lambda>wan.
     outcome_bind (query_upnp_routes env gateway routes_socket) (\<lambda>(_, routes).
       Inr (wan @ routes)))"

section \<open>Adjacent subnets\<close>

definition byte_of :: "nat \<Rightarrow> byte" where
  "byte_of n = of_nat n"

text \<open>The candidate pairs; \<open>saturating_sub\<close> is subtraction on \<open>nat\<close>.\<close>

definition adjacent_seconds :: "nat \<Rightarrow> nat list" where
  "adjacent_seconds second = [second - 1, second, second + 1]"

fun adjacent_rows :: "nat \<Rightarrow> nat \<Rightarrow> nat list \<Rightarrow> (nat \<times> nat) list \<Rightarrow> (nat \<times> nat) list" where
  "adjacent_rows second third [] candidates = candidates"
| "adjacent_rows second third (i # is) candidates =
     (if 3 \<le> length candidates \<and> (i < third - 1 \<or> third + 1 < i)
      then adjacent_rows second third is candidates
      else adjacent_rows second third is
             (candidates @ map (\<lambda>b. (b, i)) (adjacent_seconds second)))"

definition adjacent_pairs :: "nat \<Rightarrow> nat \<Rightarrow> (nat \<times> nat) list" where
  "adjacent_pairs second third =
     adjacent_rows second third [0..<256]
       (map (\<lambda>b. (b, third)) (filter (\<lambda>b. b \<le> 255) (adjacent_seconds second)))"

definition common_private :: "(byte \<times> byte \<times> byte) list" where
  "common_private =
     [(10, 0, 0), (10, 0, 1), (10, 0, 10), (10, 10, 0), (10, 10, 10),
      (172, 16, 0), (172, 16, 1), (172, 17, 0),
      (192, 168, 0), (192, 168, 1), (192, 168, 10), (192, 168, 100)]"

fun push_common :: "ipv4 \<Rightarrow> (byte \<times> byte \<times> byte) list \<Rightarrow> candidate list \<Rightarrow> candidate list" where
  "push_common base [] subnets = subnets"
| "push_common base ((a, b, c) # rest) subnets =
     (let network = ipv4_new a b c 0;
          is_current = (octet 0 base = a \<and> octet 1 base = b \<and> octet 2 base = c)
      in push_common base rest
           (if \<not> is_current \<and> network \<notin> fst ` set subnets
            then subnets @ [(network, 24, CommonPrivate)] else subnets))"

definition adjacent_subnets_from :: "ipv4 \<Rightarrow> byte \<Rightarrow> candidate list" where
  "adjacent_subnets_from base p =
     (if p \<noteq> 24 then [(base, p, AdjacentSweep)]
      else
        (let second = unat (octet 1 base); third = unat (octet 2 base);
             seen = retain_new [] (adjacent_pairs second third);
             subnets = map (\<lambda>(b, c). (ipv4_new (octet 0 base) (byte_of b) (byte_of c) 0, 24, AdjacentSweep))
                         (filter (\<lambda>(b, c). \<not> (b = second \<and> c = third)) seen)
         in push_common base common_private subnets))"

section \<open>The survey\<close>

record survey_maps =
  sm_subnets :: "((ipv4 \<times> byte) \<times> subnet_source) list"
  sm_gateways :: "((ipv4 \<times> byte) \<times> ipv4) list"

definition add_candidate :: "ipv4 option \<Rightarrow> candidate \<Rightarrow> survey_maps \<Rightarrow> survey_maps" where
  "add_candidate gateway c sm =
     (case c of (net, p, source) \<Rightarrow>
        \<lparr>sm_subnets = or_insert (net, p) source (sm_subnets sm),
         sm_gateways = (case gateway of None \<Rightarrow> sm_gateways sm
                        | Some g \<Rightarrow> or_insert (net, p) g (sm_gateways sm))\<rparr>)"

fun add_gateway_routes :: "gateway_info list \<Rightarrow> survey_maps \<Rightarrow> survey_maps" where
  "add_gateway_routes [] sm = sm"
| "add_gateway_routes (gw # gws) sm =
     add_gateway_routes gws
       (case gw_subnet gw of None \<Rightarrow> sm
        | Some (net, p) \<Rightarrow> add_candidate (Some (gw_ip gw)) (net, p, GatewayRoute) sm)"

fun add_upnp :: "(ipv4 \<times> candidate list) list \<Rightarrow> survey_maps \<Rightarrow> survey_maps" where
  "add_upnp [] sm = sm"
| "add_upnp ((gw, cs) # rest) sm = add_upnp rest (fold (add_candidate (Some gw)) cs sm)"

definition local_subnet_of :: "network_interface option \<Rightarrow> (ipv4 \<times> byte) outcome" where
  "local_subnet_of iface =
     (case Option.bind iface (\<lambda>i. Option.bind (List.find is_ipv4 (ni_ips i)) v4_of) of
        None \<Rightarrow> Inr (ipv4_new 192 168 1 0, 24)
      | Some (v4, p) \<Rightarrow> outcome_bind (network_base v4 p) (\<lambda>b. Inr (b, p)))"

fun source_rank :: "subnet_source \<Rightarrow> nat" where
  "source_rank GatewayRoute = 0"
| "source_rank DhcpOffer = 1"
| "source_rank UpnpDiscovery = 2"
| "source_rank AdjacentSweep = 3"
| "source_rank CommonPrivate = 4"

text \<open>The candidates of the three layers, and the result: the probes in the order they end (those
  that panicked are missing), ranked by a stable sort.\<close>

definition survey_candidates ::
  "gateway_info list \<Rightarrow> (ipv4 \<times> candidate list) list \<Rightarrow> ipv4 \<times> byte \<Rightarrow> survey_maps" where
  "survey_candidates gateways upnp local_subnet =
     fold (add_candidate None) (adjacent_subnets_from (fst local_subnet) (snd local_subnet))
       (add_upnp upnp (add_gateway_routes gateways \<lparr>sm_subnets = [], sm_gateways = []\<rparr>))"

definition survey_entry :: "survey_maps \<Rightarrow> (ipv4 \<times> byte) \<times> nat option \<Rightarrow> discovered_subnet" where
  "survey_entry sm r =
     (case r of ((net, p), hosts) \<Rightarrow>
        \<lparr>ds_network = net, ds_prefix = p, ds_host_count = hosts,
         ds_source = the (map_of (sm_subnets sm) (net, p)),
         ds_gateway = map_of (sm_gateways sm) (net, p)\<rparr>)"

definition survey_result :: "survey_maps \<Rightarrow> ((ipv4 \<times> byte) \<times> nat option) list \<Rightarrow> discovered_subnet list" where
  "survey_result sm completed =
     sort_key (\<lambda>d. source_rank (ds_source d)) (map (survey_entry sm) completed)"

text \<open>The whole survey: UPnP interrogates each gateway in the main task, where a panic ends the
  program, while a panic of the passive layer leaves no gateways.\<close>

definition survey ::
  "os_view \<Rightarrow> string option \<Rightarrow> bytes option list option \<Rightarrow>
   (ipv4 \<Rightarrow> candidate list outcome) \<Rightarrow> (survey_maps \<Rightarrow> ((ipv4 \<times> byte) \<times> nat option) list) \<Rightarrow>
   discovered_subnet list outcome" where
  "survey os iface channel upnp probe =
     (case find_interface (os_pnet os) iface of None \<Rightarrow> Inr []
      | Some i \<Rightarrow>
        (let gateways = (case detect_gateways_passive (os_pnet os) (ni_name i) channel of
                           Inl _ \<Rightarrow> [] | Inr gs \<Rightarrow> gs)
         in outcome_bind
              (map_outcome (\<lambda>gw. outcome_bind (upnp (gw_ip gw)) (\<lambda>cs. Inr (gw_ip gw, cs))) gateways)
              (\<lambda>answers. outcome_bind (local_subnet_of (find_interface (os_pnet os) iface))
                (\<lambda>local_subnet.
                   (let sm = survey_candidates gateways answers local_subnet
                    in Inr (survey_result sm (probe sm)))))))"

section \<open>Properties of the subnet arithmetic\<close>

text \<open>The survey's subnet arithmetic. Both functions return for a prefix from 1 to 32 and panic
  for any other; an address belongs to a subnet exactly if the two have the same base, and a
  base is its own base.\<close>

theorem survey_subnet_arithmetic:
  assumes "1 \<le> unat p" "unat p \<le> 32"
  shows "(ip_in_subnet ip base p = Inr True \<longleftrightarrow> network_base ip p = network_base base p)
    \<and> returns (ip_in_subnet ip base p)
    \<and> (\<exists>b. network_base ip p = Inr b \<and> network_base b p = Inr b \<and> ip_in_subnet ip b p = Inr True)
    \<and> network_base ip 0 = Inl Shift_Overflow \<and> network_base ip 33 = Inl Arithmetic_Overflow"
proof -
  have good: "good_prefix p" using assms by (simp add: good_prefix_def)
  obtain b where b: "network_base ip p = Inr b"
    using survey_subnets.base_good [OF good] by blast
  have "network_base ip 0 = Inl Shift_Overflow" "network_base ip 33 = Inl Arithmetic_Overflow"
    by (simp_all add: network_base_def netmask_eq)
  with b survey_subnets.member_iff_base [OF good] survey_subnets.member_returns [of ip base p] good
    survey_subnets.base_idem [OF b] survey_subnets.base_member [OF b]
  show ?thesis by blast
qed

section \<open>Extracting XML values\<close>

lemma find_str_parts: "find_str s p = Some i \<Longrightarrow> s = take i s @ p @ drop (i + length p) s"
proof -
  assume "find_str s p = Some i"
  then have "take (length p) (drop i s) = p" by (simp add: find_str_Some)
  then show ?thesis by (metis append_take_drop_id drop_drop add.commute)
qed

lemma find_str_first: "find_str s p = Some i \<Longrightarrow> p \<noteq> [] \<Longrightarrow> \<not> str_contains (take i s) p"
proof (induction s arbitrary: i)
  case (Cons c s)
  show ?case
  proof (cases "prefix p (c # s)")
    case False
    with Cons obtain j where "find_str s p = Some j" "i = Suc j" by auto
    moreover have "\<not> prefix p (c # take j s)"
    proof
      assume "prefix p (c # take j s)"
      moreover have "prefix (c # take j s) (c # s)" by (simp add: take_is_prefix)
      ultimately have "prefix p (c # s)" by (rule prefix_order.trans)
      with False show False by simp
    qed
    ultimately show ?thesis using Cons by auto
  qed (use Cons in auto)
qed auto

lemma find_str_here: "h \<notin> set u \<Longrightarrow> find_str (u @ (h # p) @ v) (h # p) = Some (length u)"
  by (induction u) auto

text \<open>Reading a value out of a UPnP response. The value found stands between the first opening
  tag and the first closing tag behind it; and if the text before the tag and the value have no
  angle bracket, the value between the tags is the one found.\<close>

theorem extract_xml_value_spec:
  "(extract_xml_value xml tag = Some v \<longrightarrow>
      (\<exists>pre post. xml = pre @ ''<'' @ tag @ ''>'' @ v @ ''</'' @ tag @ ''>'' @ post
         \<and> \<not> str_contains v (''</'' @ tag @ ''>'')))
   \<and> (CHR ''<'' \<notin> set pre \<and> CHR ''<'' \<notin> set v \<longrightarrow>
      extract_xml_value (pre @ ''<'' @ tag @ ''>'' @ v @ ''</'' @ tag @ ''>'' @ post) tag = Some v)"
proof (intro conjI impI)
  let ?open = "''<'' @ tag @ ''>''" and ?close = "''</'' @ tag @ ''>''"
  assume "extract_xml_value xml tag = Some v"
  then obtain i stop where i: "find_str xml ?open = Some i"
    and stop: "find_str (drop (i + length ?open) xml) ?close = Some stop"
    and v: "v = take stop (drop (i + length ?open) xml)"
    by (auto simp: extract_xml_value_def Let_def split: bind_splits)
  from find_str_parts [OF i] find_str_parts [OF stop]
  have "xml = take i xml @ ?open @ v @ ?close @ drop (stop + length ?close) (drop (i + length ?open) xml)"
    unfolding v by metis
  moreover have "\<not> str_contains v ?close" using find_str_first [OF stop] v by simp
  ultimately show "\<exists>pre post. xml = pre @ ''<'' @ tag @ ''>'' @ v @ ''</'' @ tag @ ''>'' @ post
      \<and> \<not> str_contains v (''</'' @ tag @ ''>'')"
    by (metis append_assoc)
next
  let ?rest = "v @ ''</'' @ tag @ ''>'' @ post"
  assume "CHR ''<'' \<notin> set pre \<and> CHR ''<'' \<notin> set v"
  then have "find_str (pre @ (CHR ''<'' # tag @ ''>'') @ ?rest) (CHR ''<'' # tag @ ''>'') = Some (length pre)"
    and "find_str (v @ (CHR ''<'' # CHR ''/'' # tag @ ''>'') @ post) (CHR ''<'' # CHR ''/'' # tag @ ''>'')
      = Some (length v)"
    by (simp_all only: find_str_here simp_thms)
  then show "extract_xml_value (pre @ ''<'' @ tag @ ''>'' @ v @ ''</'' @ tag @ ''>'' @ post) tag = Some v"
    by (simp add: extract_xml_value_def Let_def)
qed

section \<open>A subnet mask of zeros\<close>

lemma external_ipI:
  "extract_xml_value r ''NewExternalIPAddress'' = Some (show_ipv4 ip) \<Longrightarrow> external_ip r = Some ip"
  by (simp add: external_ip_def parse_show_ipv4)

text \<open>A gateway can end the survey. A UPnP response with a private external address and the
  subnet mask 0.0.0.0, which gives the prefix 0, makes the interrogation panic, and because it
  runs in the main task the whole survey with it.\<close>

theorem zero_mask_ends_survey:
  assumes "extract_xml_value r ''NewExternalIPAddress'' = Some (show_ipv4 ip)" "is_private ip"
    and "extract_xml_value r ''NewSubnetMask'' = Some (show_ipv4 0)"
    and "find_interface (os_pnet os) iface = Some i"
    and "detect_gateways_passive (os_pnet os) (ni_name i) channel = Inr (gw # gws)"
    and "upnp (gw_ip gw) = wan_response r"
  shows "wan_response r = Inl Shift_Overflow \<and> survey os iface channel upnp probe = Inl Shift_Overflow"
proof -
  have "mask_to_prefix 0 = 0" by (simp add: mask_to_prefix_def count_ones_def)
  then have resp: "wan_response r = Inl Shift_Overflow"
    using assms(2,3)
    by (simp add: wan_response_def external_ipI [OF assms(1)] parse_show_ipv4 network_base_def netmask_eq)
  then show ?thesis using assms(4-6) by (simp add: survey_def)
qed

text \<open>A gateway announces itself by ARP and answers with the mask 0.0.0.0.\<close>

definition mask_response :: string where
  "mask_response =
     ''<NewExternalIPAddress>10.0.0.9</NewExternalIPAddress><NewSubnetMask>0.0.0.0</NewSubnetMask>''"

lemma mask_response_values:
  "extract_xml_value mask_response ''NewExternalIPAddress'' = Some (show_ipv4 (ipv4_new 10 0 0 9))"
  "extract_xml_value mask_response ''NewSubnetMask'' = Some (show_ipv4 0)"
  by code_simp+

definition gateway_frame :: bytes where
  "gateway_frame =
     ethernet_frame mac_broadcast (MacAddr6 2 0 0 0 0 9) ethertype_arp
       (arp_packet op_request (MacAddr6 2 0 0 0 0 9) (ipv4_new 192 168 1 1) mac_zero (ipv4_new 192 168 1 10))"

lemma sample_interface:
  obtains i where "find_interface (os_pnet sample_os) None = Some i" "ni_name i = ''eth0''"
    "subnet_from_interface i = Inr (Some (ipv4_new 192 168 1 0, 24))"
    "List.find (\<lambda>j. ni_name j = ''eth0'' \<and> ni_up j \<and> \<not> ni_loopback j) (os_pnet sample_os) = Some i"
proof -
  have "ipv4_new 192 168 1 10 AND NOT (mask 8) = ipv4_new 192 168 1 0"
    by (simp add: ipv4_new_def mask_eq_exp_minus_1)
  then show thesis
    by (intro that [of "os_pnet sample_os ! 1"])
      (simp_all add: sample_os_def find_interface_def suitable_def is_ipv4_def
        subnet_from_interface_def List.map_filter_simps netmask_eq)
qed

lemma gateway_heard:
  assumes "subnet_from_interface i = Inr (Some (ipv4_new 192 168 1 0, 24))"
    and "List.find (\<lambda>j. ni_name j = ''eth0'' \<and> ni_up j \<and> \<not> ni_loopback j) (os_pnet sample_os) = Some i"
  shows "detect_gateways_passive (os_pnet sample_os) ''eth0'' (Some [Some gateway_frame])
    = Inr [\<lparr>gw_ip = ipv4_new 192 168 1 1, gw_mac = MacAddr6 2 0 0 0 0 9,
            gw_subnet = Some (ipv4_new 192 168 1 0, 24)\<rparr>]"
proof -
  have "ip_in_subnet (ipv4_new 192 168 1 1) (ipv4_new 192 168 1 0) 24 = Inr True"
    by (simp add: ip_in_subnet_def netmask_eq ipv4_new_def mask_eq_exp_minus_1)
  moreover have "ipv4_new 192 168 1 1 \<noteq> 0" "ipv4_new 192 168 1 10 \<noteq> 0"
    by (simp_all add: ipv4_new_def)
  ultimately show ?thesis
    using assms
    by (simp add: detect_gateways_passive_def gateway_frame_def tap_frame_def packet_new_def
        tap_arp_def in_local_def gateway_octet_def or_insert_def gateway_candidates_def
        mac_zero_def)
qed

theorem zero_mask_ends_survey_witness:
  "survey sample_os None (Some [Some gateway_frame]) (\<lambda>_. wan_response mask_response) (\<lambda>_. [])
     = Inl Shift_Overflow"
proof -
  obtain i where i: "find_interface (os_pnet sample_os) None = Some i" "ni_name i = ''eth0''"
    "subnet_from_interface i = Inr (Some (ipv4_new 192 168 1 0, 24))"
    "List.find (\<lambda>j. ni_name j = ''eth0'' \<and> ni_up j \<and> \<not> ni_loopback j) (os_pnet sample_os) = Some i"
    by (rule sample_interface)
  have "is_private (ipv4_new 10 0 0 9)" by (simp add: is_private_def)
  then show ?thesis
    using zero_mask_ends_survey [OF mask_response_values(1) _ mask_response_values(2) i(1)]
      gateway_heard [OF i(3,4)] i(2) by (metis (no_types))
qed

section \<open>Adjacent subnets\<close>

lemma adjacent_rows_long:
  "3 \<le> length cands \<Longrightarrow>
   set (adjacent_rows s t is cands) =
     set cands \<union> {(b, i). i \<in> set is \<and> t - 1 \<le> i \<and> i \<le> t + 1 \<and> b \<in> {s - 1, s, s + 1}}"
proof (induction "is" arbitrary: cands)
  case (Cons i "is")
  then show ?case by (auto simp: adjacent_seconds_def)
qed simp

lemma adjacent_pairs_inner:
  assumes "s < 255" "t < 256"
  shows "set (adjacent_pairs s t) = {(b, i). b \<in> {s - 1, s, s + 1} \<and> t - 1 \<le> i \<and> i \<le> t + 1 \<and> i < 256}"
  using assms unfolding adjacent_pairs_def
  by (subst adjacent_rows_long) (auto simp: adjacent_seconds_def)

definition current_network :: "ipv4 \<Rightarrow> ipv4" where
  "current_network base = ipv4_new (octet 0 base) (octet 1 base) (octet 2 base) 0"

lemma push_common_Cons:
  "push_common base ((a, b, c) # rest) subnets =
     push_common base rest
       (if ipv4_new a b c 0 \<noteq> current_network base \<and> ipv4_new a b c 0 \<notin> fst ` set subnets
        then subnets @ [(ipv4_new a b c 0, 24, CommonPrivate)] else subnets)"
proof -
  have "(octet 0 base = a \<and> octet 1 base = b \<and> octet 2 base = c) \<longleftrightarrow> ipv4_new a b c 0 = current_network base"
    by (auto simp: current_network_def ipv4_new_inject)
  moreover have "(\<exists>s \<in> set subnets. fst s = ipv4_new a b c 0) \<longleftrightarrow> ipv4_new a b c 0 \<in> fst ` set subnets"
    by force
  ultimately show ?thesis by (simp add: Let_def)
qed

lemma push_common_networks:
  "fst ` set (push_common base cs subnets) = fst ` set subnets
     \<union> ((\<lambda>(a, b, c). ipv4_new a b c 0) ` set cs - {current_network base})"
proof (induction cs arbitrary: subnets)
  case (Cons t rest)
  obtain a b c where t: "t = (a, b, c)" by (cases t)
  show ?case unfolding t push_common_Cons Cons.IH by auto
qed simp

lemma push_common_distinct:
  "distinct (map fst subnets) \<Longrightarrow> distinct (map fst (push_common base cs subnets))"
proof (induction cs arbitrary: subnets)
  case (Cons t rest)
  obtain a b c where t: "t = (a, b, c)" by (cases t)
  show ?case unfolding t push_common_Cons by (rule Cons.IH) (use Cons.prems in simp)
qed simp

lemma push_common_adjacent:
  "(n, p, AdjacentSweep) \<in> set (push_common base cs subnets) \<longleftrightarrow> (n, p, AdjacentSweep) \<in> set subnets"
proof (induction cs arbitrary: subnets)
  case (Cons t rest)
  obtain a b c where t: "t = (a, b, c)" by (cases t)
  show ?case unfolding t push_common_Cons Cons.IH by simp
qed simp

lemma push_common_prefix:
  "\<forall>c \<in> set subnets. fst (snd c) = 24 \<Longrightarrow> \<forall>c \<in> set (push_common base cs subnets). fst (snd c) = 24"
proof (induction cs arbitrary: subnets)
  case (Cons t rest)
  obtain a b c where t: "t = (a, b, c)" by (cases t)
  show ?case unfolding t push_common_Cons by (rule Cons.IH) (use Cons.prems in simp)
qed simp

lemma byte_of_eq: "byte_of b = byte_of b' \<longleftrightarrow> b mod 256 = b' mod 256"
  by (simp add: byte_of_def word_unat_eq_iff unat_of_nat)

lemma unat_byte_of: "b < 256 \<Longrightarrow> unat (byte_of b) = b"
  by (simp add: byte_of_def unat_of_nat)

lemma byte_of_unat [simp]: "byte_of (unat (b :: byte)) = b"
  by (simp add: byte_of_def)

definition near :: "byte \<Rightarrow> byte \<Rightarrow> bool" where
  "near b c \<longleftrightarrow> unat b \<le> unat c + 1 \<and> unat c \<le> unat b + 1"

text \<open>The candidates next to the local subnet, before the common private ones are added.\<close>

definition adjacent_list :: "ipv4 \<Rightarrow> candidate list" where
  "adjacent_list base =
     map (\<lambda>(b, c). (ipv4_new (octet 0 base) (byte_of b) (byte_of c) 0, 24, AdjacentSweep))
       (filter (\<lambda>(b, c). \<not> (b = unat (octet 1 base) \<and> c = unat (octet 2 base)))
         (retain_new [] (adjacent_pairs (unat (octet 1 base)) (unat (octet 2 base)))))"

lemma adjacent_subnets_24:
  "adjacent_subnets_from base 24 = push_common base common_private (adjacent_list base)"
  by (simp add: adjacent_subnets_from_def adjacent_list_def Let_def)

lemma adjacent_list_networks:
  assumes "octet 1 base \<noteq> 255"
  shows "fst ` set (adjacent_list base) =
      {ipv4_new (octet 0 base) b c 0 | b c. near b (octet 1 base) \<and> near c (octet 2 base)}
      - {current_network base}"
    and "distinct (map fst (adjacent_list base))"
proof -
  let ?s = "unat (octet 1 base)" and ?t = "unat (octet 2 base)"
  have s: "?s < 255"
    using assms byte_le_255 [of "octet 1 base"] by (simp add: word_unat_eq_iff)
  note pairs = adjacent_pairs_inner [OF s byte_less_256 [of "octet 2 base"]]
  have small: "b < 256 \<and> c < 256" if "(b, c) \<in> set (adjacent_pairs ?s ?t)" for b c
    using that s unfolding pairs by auto
  have "inj_on (\<lambda>(b, c). ipv4_new (octet 0 base) (byte_of b) (byte_of c) 0) (set (adjacent_pairs ?s ?t))"
    using small by (auto simp: inj_on_def ipv4_new_inject byte_of_eq)
  then show "distinct (map fst (adjacent_list base))"
    unfolding adjacent_list_def map_map
    by (intro distinct_map [THEN iffD2] conjI distinct_filter distinct_retain_new)
      (auto simp: set_retain_new case_prod_beta' comp_def elim: inj_on_subset)
  show "fst ` set (adjacent_list base) =
      {ipv4_new (octet 0 base) b c 0 | b c. near b (octet 1 base) \<and> near c (octet 2 base)}
      - {current_network base}" (is "?L = ?R")
  proof (intro set_eqI iffI)
    fix n
    assume "n \<in> ?L"
    then obtain b c where bc: "(b, c) \<in> set (adjacent_pairs ?s ?t)" "\<not> (b = ?s \<and> c = ?t)"
      and n: "n = ipv4_new (octet 0 base) (byte_of b) (byte_of c) 0"
      by (auto simp: adjacent_list_def set_retain_new)
    have "near (byte_of b) (octet 1 base)" "near (byte_of c) (octet 2 base)"
      using bc(1) small [OF bc(1)] unfolding pairs by (auto simp: near_def unat_byte_of)
    moreover have "n \<noteq> current_network base"
    proof
      assume "n = current_network base"
      then have "byte_of b = octet 1 base" "byte_of c = octet 2 base"
        by (simp_all add: n current_network_def ipv4_new_inject)
      then have "b = ?s" "c = ?t" using small [OF bc(1)] unat_byte_of by metis+
      then show False using bc(2) by simp
    qed
    ultimately show "n \<in> ?R" using n by auto
  next
    fix n
    assume "n \<in> ?R"
    then obtain b c where n: "n = ipv4_new (octet 0 base) b c 0"
      and bc: "near b (octet 1 base)" "near c (octet 2 base)"
        "\<not> (b = octet 1 base \<and> c = octet 2 base)"
      by (auto simp: current_network_def)
    have "(unat b, unat c) \<in> set (adjacent_pairs ?s ?t)"
      using bc s byte_less_256 [of c] unfolding pairs by (auto simp: near_def simp del: byte_less_256)
    moreover have "\<not> (unat b = ?s \<and> unat c = ?t)" using bc(3) by (simp add: word_unat_eq_iff)
    ultimately show "n \<in> ?L"
      unfolding adjacent_list_def by (force simp: set_retain_new n image_iff)
  qed
qed

text \<open>The candidates next to a /24. Unless the second byte of the local network is 255, the
  adjacent candidates are exactly the /24 networks whose second and third bytes differ by at
  most one from the local ones, without the local network; together with the common private
  networks no candidate comes twice, the local network is never one, and all are /24.\<close>

theorem adjacent_subnets_exact:
  assumes "octet 1 base \<noteq> 255"
  shows "{n. (n, 24, AdjacentSweep) \<in> set (adjacent_subnets_from base 24)} =
      {ipv4_new (octet 0 base) b c 0 | b c. near b (octet 1 base) \<and> near c (octet 2 base)}
      - {current_network base}
    \<and> distinct (map fst (adjacent_subnets_from base 24))
    \<and> current_network base \<notin> fst ` set (adjacent_subnets_from base 24)
    \<and> (\<forall>c \<in> set (adjacent_subnets_from base 24). fst (snd c) = 24)"
proof -
  have "{n. (n, 24, AdjacentSweep) \<in> set (adjacent_list base)} = fst ` set (adjacent_list base)"
    by (force simp: adjacent_list_def)
  moreover have "\<forall>c \<in> set (adjacent_list base). fst (snd c) = 24" by (auto simp: adjacent_list_def)
  ultimately show ?thesis
    unfolding adjacent_subnets_24 push_common_adjacent push_common_networks
    using adjacent_list_networks [OF assms] by (simp add: push_common_distinct push_common_prefix)
qed

theorem adjacent_subnets_exact_witness:
  "(ipv4_new 192 169 2 0, 24, AdjacentSweep) \<in> set (adjacent_subnets_from (ipv4_new 192 168 1 0) 24)"
proof -
  have "octet 1 (ipv4_new 192 168 1 0) \<noteq> 255" by simp
  from adjacent_subnets_exact [OF this, THEN conjunct1]
  have "ipv4_new 192 169 2 0 \<in> {n. (n, 24, AdjacentSweep) \<in> set (adjacent_subnets_from (ipv4_new 192 168 1 0) 24)}"
    by (auto simp: near_def current_network_def ipv4_new_inject)
  then show ?thesis by simp
qed

text \<open>For a second byte of 255 the bound on the second byte is only applied to the first three
  candidates: 256 is truncated to 0, and the networks of another range are swept as adjacent.\<close>

lemma adjacent_wraps:
  "(ipv4_new 10 0 0 0, 24, AdjacentSweep) \<in> set (adjacent_subnets_from (ipv4_new 10 255 7 0) 24)"
proof -
  have "(256, 0) \<in> set (adjacent_pairs 255 7)"
  proof -
    have "[0..<256] = 0 # [1..<256 :: nat]" by (simp add: upt_rec)
    then show ?thesis
      unfolding adjacent_pairs_def by (simp add: adjacent_seconds_def adjacent_rows_long)
  qed
  moreover have "byte_of 256 = 0" "byte_of 0 = 0" by (simp_all add: byte_of_def)
  ultimately have "(ipv4_new 10 0 0 0, 24, AdjacentSweep) \<in> set (adjacent_list (ipv4_new 10 255 7 0))"
    by (force simp: adjacent_list_def set_retain_new image_iff)
  then show ?thesis unfolding adjacent_subnets_24 push_common_adjacent .
qed

end
