(* ===== verification/Survey_Results.thy ===== *)
theory Survey_Results
  imports Survey
begin

text \<open>
  What a survey reports and whom it asks: the layers as an order on the sources, the claims of the
  three layers in the order they are made and the first-come rule of the two maps, and the exact
  set of the gateways the passive layer hears.
\<close>

section \<open>Ranking the candidates\<close>

text \<open>The layers as an order: a source found by an earlier layer comes first.\<close>

instantiation subnet_source :: linorder
begin

definition less_eq_subnet_source :: "subnet_source \<Rightarrow> subnet_source \<Rightarrow> bool" where
  "less_eq_subnet_source a b \<longleftrightarrow> source_rank a \<le> source_rank b"

definition less_subnet_source :: "subnet_source \<Rightarrow> subnet_source \<Rightarrow> bool" where
  "less_subnet_source a b \<longleftrightarrow> source_rank a < source_rank b"

lemma source_rank_inject: "source_rank a = source_rank b \<longleftrightarrow> a = b"
  by (cases a; cases b) simp_all

instance
  by standard
    (auto simp: less_eq_subnet_source_def less_subnet_source_def simp flip: source_rank_inject)

end

lemma map_of_or_insert: "map_of (or_insert k v m) = [k \<mapsto> v] ++ map_of m"
  by (auto simp: or_insert_def map_add_def fun_eq_iff split: option.splits)

lemma distinct_or_insert: "distinct (map fst m) \<Longrightarrow> distinct (map fst (or_insert k v m))"
  by (auto simp: or_insert_def map_of_eq_None_iff)

text \<open>Everything the layers say, in the order they say it: who names a subnet, and as what.\<close>

type_synonym subnet_claim = "ipv4 option \<times> candidate"

definition layer_claims ::
  "gateway_info list \<Rightarrow> (ipv4 \<times> candidate list) list \<Rightarrow> ipv4 \<times> byte \<Rightarrow> subnet_claim list" where
  "layer_claims gateways answers local_subnet =
     concat (map (\<lambda>gw. case gw_subnet gw of None \<Rightarrow> []
                  | Some (n, p) \<Rightarrow> [(Some (gw_ip gw), (n, p, GatewayRoute))]) gateways)
     @ concat (map (\<lambda>(g, cs). map (Pair (Some g)) cs) answers)
     @ map (Pair None) (adjacent_subnets_from (fst local_subnet) (snd local_subnet))"

definition claim_source :: "subnet_claim \<Rightarrow> (ipv4 \<times> byte) \<times> subnet_source" where
  "claim_source c = (case c of (_, n, p, s) \<Rightarrow> ((n, p), s))"

definition claim_gateway :: "subnet_claim \<Rightarrow> ((ipv4 \<times> byte) \<times> ipv4) option" where
  "claim_gateway c = (case c of (g, n, p, _) \<Rightarrow> map_option (Pair (n, p)) g)"

definition add_claims :: "subnet_claim list \<Rightarrow> survey_maps \<Rightarrow> survey_maps" where
  "add_claims cs = fold (\<lambda>(g, c). add_candidate g c) cs"

lemma add_claims_simps [simp]:
  "add_claims [] sm = sm"
  "add_claims ((g, c) # cs) sm = add_claims cs (add_candidate g c sm)"
  "add_claims (cs @ ds) sm = add_claims ds (add_claims cs sm)"
  by (simp_all add: add_claims_def)

lemma add_claims_Pair: "add_claims (map (Pair g) cs) sm = fold (add_candidate g) cs sm"
  by (induction cs arbitrary: sm) simp_all

lemma survey_candidates_claims:
  "survey_candidates gateways answers local_subnet
     = add_claims (layer_claims gateways answers local_subnet) \<lparr>sm_subnets = [], sm_gateways = []\<rparr>"
proof -
  have routes: "add_gateway_routes gs sm = add_claims (concat (map (\<lambda>gw. case gw_subnet gw of None \<Rightarrow> []
      | Some (n, p) \<Rightarrow> [(Some (gw_ip gw), (n, p, GatewayRoute))]) gs)) sm" for gs sm
    by (induction gs arbitrary: sm) (auto split: option.splits)
  have upnp: "add_upnp as sm = add_claims (concat (map (\<lambda>(g, cs). map (Pair (Some g)) cs) as)) sm" for as sm
    by (induction as arbitrary: sm) (auto simp: add_claims_Pair)
  show ?thesis
    by (simp add: survey_candidates_def layer_claims_def routes upnp add_claims_Pair)
qed

text \<open>The first claim about a subnet decides its source, the first that names a gateway its gateway.\<close>

lemma add_claims_lookup:
  "map_of (sm_subnets (add_claims cs sm)) = map_of (map claim_source cs) ++ map_of (sm_subnets sm)"
  "map_of (sm_gateways (add_claims cs sm)) = map_of (List.map_filter claim_gateway cs) ++ map_of (sm_gateways sm)"
  "distinct (map fst (sm_subnets sm)) \<Longrightarrow> distinct (map fst (sm_subnets (add_claims cs sm)))"
proof (induction cs arbitrary: sm)
  case (Cons c cs)
  obtain g n p s where c: "c = (g, n, p, s)" by (cases c)
  { case 1 then show ?case
      by (auto simp: c Cons.IH(1) claim_source_def add_candidate_def map_of_or_insert map_add_def fun_eq_iff split: option.splits) }
  { case 2 then show ?case
      by (auto simp: c Cons.IH(2) claim_gateway_def add_candidate_def map_of_or_insert map_add_def fun_eq_iff List.map_filter_simps split: option.splits) }
  { case 3 then show ?case
      by (simp add: c Cons.IH(3) add_candidate_def distinct_or_insert) }
qed (simp_all add: List.map_filter_simps)

lemma survey_candidates_lookup:
  "map_of (sm_subnets (survey_candidates gws as ls)) = map_of (map claim_source (layer_claims gws as ls))"
  "map_of (sm_gateways (survey_candidates gws as ls)) = map_of (List.map_filter claim_gateway (layer_claims gws as ls))"
  "distinct (map fst (sm_subnets (survey_candidates gws as ls)))"
  by (simp_all add: survey_candidates_claims add_claims_lookup)

lemma push_common_sources:
  "\<forall>c \<in> set subnets. snd (snd c) \<in> {AdjacentSweep, CommonPrivate} \<Longrightarrow>
   \<forall>c \<in> set (push_common base cs subnets). snd (snd c) \<in> {AdjacentSweep, CommonPrivate}"
proof (induction cs arbitrary: subnets)
  case (Cons t rest)
  obtain a b c where t: "t = (a, b, c)" by (cases t)
  show ?case unfolding t push_common_Cons by (rule Cons.IH) (use Cons.prems in auto)
qed simp

lemma adjacent_sources:
  "c \<in> set (adjacent_subnets_from base p) \<Longrightarrow> snd (snd c) \<in> {AdjacentSweep, CommonPrivate}"
proof (cases "p = 24")
  case True
  assume "c \<in> set (adjacent_subnets_from base p)"
  moreover have "\<forall>c \<in> set (adjacent_list base). snd (snd c) \<in> {AdjacentSweep, CommonPrivate}"
    by (auto simp: adjacent_list_def)
  ultimately show ?thesis
    using push_common_sources unfolding True adjacent_subnets_24 by blast
qed (simp add: adjacent_subnets_from_def)

text \<open>What a claim can be: a detected gateway's subnet, a UPnP answer of one, or a neighbour.\<close>

lemma layer_claims_cases:
  assumes "(g, n, p, s) \<in> set (layer_claims gws as ls)"
    and "\<forall>(g, cs) \<in> set as. g \<in> gw_ip ` set gws \<and> (\<forall>c \<in> set cs. snd (snd c) = UpnpDiscovery)"
  obtains gw where "gw \<in> set gws" "g = Some (gw_ip gw)" "s = GatewayRoute" "gw_subnet gw = Some (n, p)"
  | gw where "gw \<in> set gws" "g = Some (gw_ip gw)" "s = UpnpDiscovery"
  | "g = None" "s \<in> {AdjacentSweep, CommonPrivate}"
  using assms adjacent_sources [of "(n, p, s)"]
  by (fastforce simp: layer_claims_def split: option.splits)

lemma survey_candidate_source:
  assumes "map_of (sm_subnets (survey_candidates gws as ls)) k = Some s"
    and "\<forall>(g, cs) \<in> set as. g \<in> gw_ip ` set gws \<and> (\<forall>c \<in> set cs. snd (snd c) = UpnpDiscovery)"
  shows "s \<noteq> DhcpOffer \<and> (s = GatewayRoute \<longrightarrow> Some k \<in> gw_subnet ` set gws)"
proof -
  from assms(1) have "(k, s) \<in> claim_source ` set (layer_claims gws as ls)"
    unfolding survey_candidates_lookup by (auto dest: map_of_SomeD)
  then obtain g n p where "(g, n, p, s) \<in> set (layer_claims gws as ls)" "k = (n, p)"
    by (auto simp: claim_source_def)
  then show ?thesis
    by (elim layer_claims_cases [OF _ assms(2)]) (auto simp: image_iff intro: sym)
qed

lemma survey_candidate_gateway:
  assumes "map_of (sm_gateways (survey_candidates gws as ls)) k = Some g"
    and "\<forall>(g, cs) \<in> set as. g \<in> gw_ip ` set gws \<and> (\<forall>c \<in> set cs. snd (snd c) = UpnpDiscovery)"
  shows "g \<in> gw_ip ` set gws"
proof -
  from assms(1) have "(k, g) \<in> set (List.map_filter claim_gateway (layer_claims gws as ls))"
    unfolding survey_candidates_lookup by (auto dest: map_of_SomeD)
  then obtain s where "(Some g, fst k, snd k, s) \<in> set (layer_claims gws as ls)"
    by (auto simp: List.map_filter_def claim_gateway_def)
  then show ?thesis by (elim layer_claims_cases [OF _ assms(2)]) auto
qed

lemma claim_gateways_none:
  "(\<And>c. c \<in> set cs \<Longrightarrow> fst c = None) \<Longrightarrow> List.map_filter claim_gateway cs = []"
proof (induction cs)
  case (Cons c cs)
  have "fst c = None" by (rule Cons.prems) simp
  with Cons show ?case by (cases c) (simp add: claim_gateway_def List.map_filter_simps)
qed (simp add: List.map_filter_simps)

lemma claim_gateways_all:
  "(\<And>c. c \<in> set cs \<Longrightarrow> fst c \<noteq> None) \<Longrightarrow>
   map fst (List.map_filter claim_gateway cs) = map fst (map claim_source cs)"
proof (induction cs)
  case (Cons c cs)
  have "fst c \<noteq> None" by (rule Cons.prems) simp
  with Cons show ?case
    by (cases c; cases "fst c") (simp_all add: claim_gateway_def claim_source_def List.map_filter_simps)
qed (simp add: List.map_filter_simps)

text \<open>A gateway is known for exactly the subnets of the first two layers.\<close>

lemma survey_candidate_gateway_iff:
  assumes "map_of (sm_subnets (survey_candidates gws as ls)) k = Some s"
    and "\<forall>(g, cs) \<in> set as. g \<in> gw_ip ` set gws \<and> (\<forall>c \<in> set cs. snd (snd c) = UpnpDiscovery)"
  shows "map_of (sm_gateways (survey_candidates gws as ls)) k \<noteq> None
    \<longleftrightarrow> s = GatewayRoute \<or> s = UpnpDiscovery"
proof -
  obtain xs ys where split: "layer_claims gws as ls = xs @ ys"
    and xs: "\<And>c. c \<in> set xs \<Longrightarrow> fst c \<noteq> None" and ys: "\<And>c. c \<in> set ys \<Longrightarrow> fst c = None"
    by (rule that [of "concat (map (\<lambda>gw. case gw_subnet gw of None \<Rightarrow> []
                  | Some (n, p) \<Rightarrow> [(Some (gw_ip gw), (n, p, GatewayRoute))]) gws)
          @ concat (map (\<lambda>(g, cs). map (Pair (Some g)) cs) as)"
        "map (Pair None) (adjacent_subnets_from (fst ls) (snd ls))"])
      (auto simp: layer_claims_def split: option.splits)
  have mem: "(k, s) \<in> claim_source ` set zs \<Longrightarrow> set zs \<subseteq> set (layer_claims gws as ls) \<Longrightarrow>
      \<exists>c \<in> set zs. (s = GatewayRoute \<or> s = UpnpDiscovery \<longleftrightarrow> fst c \<noteq> None)" for zs
  proof -
    assume "(k, s) \<in> claim_source ` set zs" "set zs \<subseteq> set (layer_claims gws as ls)"
    then obtain g n p where "(g, n, p, s) \<in> set zs" "(g, n, p, s) \<in> set (layer_claims gws as ls)"
      by (auto simp: claim_source_def)
    then show ?thesis by (elim layer_claims_cases [OF _ assms(2)]) force+
  qed
  have gw: "map_of (List.map_filter claim_gateway ys) k = None"
    "map_of (List.map_filter claim_gateway xs) k = None \<longleftrightarrow> map_of (map claim_source xs) k = None"
    using claim_gateways_none [of ys] claim_gateways_all [of xs] xs ys
    by (simp_all add: map_of_eq_None_iff flip: set_map)
  show ?thesis
  proof (cases "map_of (map claim_source xs) k")
    case None
    then have "map_of (map claim_source ys) k = Some s"
      using assms(1) unfolding survey_candidates_lookup split by (simp add: map_add_def)
    then have "(k, s) \<in> claim_source ` set ys" by (auto dest: map_of_SomeD)
    then show ?thesis
      using mem [of ys] None gw ys unfolding survey_candidates_lookup split
      by (auto simp: map_add_def List.map_filter_def)
  next
    case (Some s')
    then have "s' = s" using assms(1) unfolding survey_candidates_lookup split by (simp add: map_add_def)
    then have "(k, s) \<in> claim_source ` set xs" using Some by (auto dest: map_of_SomeD)
    then show ?thesis
      using mem [of xs] Some gw xs unfolding survey_candidates_lookup split
      by (auto simp: map_add_def List.map_filter_def)
  qed
qed

lemma map_outcome_mem:
  "map_outcome f xs = Inr ys \<Longrightarrow> y \<in> set ys \<Longrightarrow> \<exists>x \<in> set xs. f x = Inr y"
  by (induction xs arbitrary: ys) (auto split: sum.splits)

lemma concat_outcome_mem:
  assumes "concat_outcome ms = Inr ys" "y \<in> set ys"
  obtains xs where "Inr xs \<in> set ms" "y \<in> set xs"
proof -
  from assms obtain xss xs where "map_outcome id ms = Inr xss" "xs \<in> set xss" "y \<in> set xs"
    by (auto simp: concat_outcome_def outcome_bind_Inr_iff)
  then show thesis using map_outcome_mem [of id ms xss xs] that by force
qed

lemma wan_response_source:
  assumes "wan_response r = Inr cs" "c \<in> set cs"
  shows "snd (snd c) = UpnpDiscovery"
proof -
  have known: "snd (snd c) = UpnpDiscovery"
    if "map_outcome (\<lambda>p. outcome_bind (network_base ip p) (\<lambda>b. Inr (b, p, UpnpDiscovery))) ps = Inr xs"
      "c \<in> set xs" for ip ps xs
    using map_outcome_mem [OF that] by (auto simp: outcome_bind_Inr_iff)
  from assms(1) obtain xs ys where cs: "cs = xs @ ys"
    and xs: "(case external_ip r of None \<Rightarrow> Inr []
        | Some wan_ip \<Rightarrow> if \<not> is_unspecified wan_ip \<and> \<not> is_private wan_ip then
              map_outcome (\<lambda>p. outcome_bind (network_base wan_ip p) (\<lambda>b. Inr (b, p, UpnpDiscovery))) wan_prefixes
            else Inr []) = Inr xs"
    and ys: "(case Option.bind (extract_xml_value r ''NewSubnetMask'') parse_ipv4 of None \<Rightarrow> Inr []
        | Some m \<Rightarrow> (case external_ip r of None \<Rightarrow> Inr []
            | Some wan_ip \<Rightarrow> outcome_bind (network_base wan_ip (mask_to_prefix m))
                (\<lambda>b. Inr [(b, mask_to_prefix m, UpnpDiscovery)]))) = Inr ys"
    unfolding wan_response_def outcome_bind_Inr_iff
    by (elim exE conjE) (rule that [rotated], assumption, assumption, simp)
  have "c \<in> set xs \<Longrightarrow> ?thesis"
    using xs by (auto split: option.splits if_splits dest!: known)
  moreover have "c \<in> set ys \<Longrightarrow> ?thesis"
    using ys by (auto simp: outcome_bind_Inr_iff split: option.splits)
  ultimately show ?thesis using assms(2) unfolding cs set_append by blast
qed

lemma router_list_source: "c \<in> set (router_list action r) \<Longrightarrow> snd (snd c) = UpnpDiscovery"
proof -
  have one: "y \<in> set (case parse_ipv4 w of None \<Rightarrow> [] | Some a \<Rightarrow> [(a, 24, UpnpDiscovery), (a, 16, UpnpDiscovery)])
      \<Longrightarrow> snd (snd y) = UpnpDiscovery" for y :: candidate and w
    by (cases "parse_ipv4 w") auto
  assume c: "c \<in> set (router_list action r)"
  show ?thesis
  proof (cases "action = ''GetIPRoutersList''")
    case True
    show ?thesis
    proof (cases "extract_xml_value r ''NewIPRouters''")
      case None
      with True c show ?thesis by (simp add: router_list_def)
    next
      case (Some routers)
      with True c obtain w where "c \<in> set (case parse_ipv4 (trim_str w) of None \<Rightarrow> []
          | Some a \<Rightarrow> [(a, 24, UpnpDiscovery), (a, 16, UpnpDiscovery)])"
        by (auto simp only: router_list_def if_True simp_thms option.case set_concat set_map)
      then show ?thesis by (rule one)
    qed
  next
    case False
    with c show ?thesis by (simp add: router_list_def)
  qed
qed

lemma query_base_source:
  assumes "query_base env base = Inr cs" "c \<in> set cs"
  shows "snd (snd c) = UpnpDiscovery"
proof -
  from assms(1) obtain xs ys where xs: "concat_outcome (map (\<lambda>(service, path, action).
      case soap_call env base service path action of None \<Rightarrow> Inr []
      | Some response \<Rightarrow> wan_response response) wan_services) = Inr xs"
    and ys: "ys = concat (map (\<lambda>(service, path, action).
      case soap_call env base service path action of None \<Rightarrow> []
      | Some response \<Rightarrow> router_list action response) lan_services)" and cs: "cs = xs @ ys"
    by (auto simp: query_base_def outcome_bind_Inr_iff)
  from assms(2) consider "c \<in> set xs" | "c \<in> set ys" unfolding cs set_append by blast
  then show ?thesis
  proof cases
    case 1
    with xs obtain zs where "c \<in> set zs" "Inr zs \<in> set (map (\<lambda>(service, path, action).
      case soap_call env base service path action of None \<Rightarrow> Inr []
      | Some response \<Rightarrow> wan_response response) wan_services)"
      by (elim concat_outcome_mem)
    then show ?thesis by (auto dest!: sym [of "Inr _"] intro: wan_response_source split: option.splits)
  next
    case 2
    then show ?thesis by (auto simp: ys split: option.splits intro: router_list_source)
  qed
qed

lemma probe_gateway_upnp_source:
  assumes "probe_gateway_upnp env g wan_socket routes_socket = Inr cs" "c \<in> set cs"
  shows "snd (snd c) = UpnpDiscovery"
proof -
  from assms obtain services where
    "concat_outcome (map (query_base env) (map base_url services)) = Inr cs"
    by (auto simp: probe_gateway_upnp_def query_upnp_wan_def query_upnp_routes_def outcome_bind_Inr_iff)
  with assms(2) show ?thesis by (auto elim!: concat_outcome_mem dest!: sym [of "Inr _"] intro: query_base_source)
qed

text \<open>What a survey is made of.\<close>

definition heard_gateways ::
  "network_interface list \<Rightarrow> string \<Rightarrow> bytes option list option \<Rightarrow> gateway_info list" where
  "heard_gateways pnet name channel =
     (case detect_gateways_passive pnet name channel of Inl _ \<Rightarrow> [] | Inr gs \<Rightarrow> gs)"

definition upnp_answers ::
  "(ipv4 \<Rightarrow> candidate list outcome) \<Rightarrow> gateway_info list \<Rightarrow> (ipv4 \<times> candidate list) list outcome" where
  "upnp_answers upnp gws = map_outcome (\<lambda>gw. outcome_bind (upnp (gw_ip gw)) (\<lambda>cs. Inr (gw_ip gw, cs))) gws"

lemma surveyE:
  assumes "survey os iface channel upnp probe = Inr ds" "find_interface (os_pnet os) iface = Some i"
  obtains gws as ls where "gws = heard_gateways (os_pnet os) (ni_name i) channel"
    "upnp_answers upnp gws = Inr as" "local_subnet_of (Some i) = Inr ls"
    "\<forall>(g, cs) \<in> set as. g \<in> gw_ip ` set gws \<and> upnp g = Inr cs"
    "ds = survey_result (survey_candidates gws as ls) (probe (survey_candidates gws as ls))"
proof -
  from assms obtain gws as ls where
    g: "gws = heard_gateways (os_pnet os) (ni_name i) channel"
    and a: "upnp_answers upnp gws = Inr as" and l: "local_subnet_of (Some i) = Inr ls"
    and d: "ds = survey_result (survey_candidates gws as ls) (probe (survey_candidates gws as ls))"
    unfolding heard_gateways_def upnp_answers_def by (auto simp: survey_def Let_def outcome_bind_Inr_iff)
  have "\<forall>(g, cs) \<in> set as. g \<in> gw_ip ` set gws \<and> upnp g = Inr cs"
    using map_outcome_mem [OF a [unfolded upnp_answers_def]] by (fastforce simp: outcome_bind_Inr_iff)
  then show thesis using that g a l d by blast
qed

lemma gateway_subnet:
  assumes "detect_gateways_passive pnet name channel = Inr gws" "gw \<in> set gws" "gw_subnet gw = Some k"
  shows "\<exists>j \<in> set pnet. ni_name j = name \<and> subnet_from_interface j = Inr (Some k)"
proof -
  from assms(1) consider "gws = []"
    | j local_subnet wt where "List.find (\<lambda>i. ni_name i = name \<and> ni_up i \<and> \<not> ni_loopback i) pnet = Some j"
        "subnet_from_interface j = Inr local_subnet" "gws = gateway_candidates local_subnet wt"
    unfolding detect_gateways_passive_def by (auto simp: outcome_bind_Inr_iff split: option.splits)
  then show ?thesis
  proof cases
    case 2
    then show ?thesis
      using assms(2,3) find_Some_mem [OF 2(1)] by (auto simp: gateway_candidates_def)
  qed (use assms(2) in simp)
qed

lemma candidate_origin:
  assumes gws: "gws = heard_gateways (os_pnet os) name channel"
    and ans: "\<forall>(g, cs) \<in> set as. g \<in> gw_ip ` set gws \<and> (\<forall>c \<in> set cs. snd (snd c) = UpnpDiscovery)"
    and s: "map_of (sm_subnets (survey_candidates gws as ls)) k = Some s"
  shows "s \<noteq> DhcpOffer
    \<and> (s = GatewayRoute \<longrightarrow> (\<exists>j \<in> set (os_pnet os). ni_name j = name \<and> subnet_from_interface j = Inr (Some k)))
    \<and> (map_of (sm_gateways (survey_candidates gws as ls)) k \<noteq> None \<longleftrightarrow> s = GatewayRoute \<or> s = UpnpDiscovery)
    \<and> (\<forall>g. map_of (sm_gateways (survey_candidates gws as ls)) k = Some g \<longrightarrow>
         (\<exists>gws. detect_gateways_passive (os_pnet os) name channel = Inr gws \<and> g \<in> gw_ip ` set gws))"
proof -
  have known: "detect_gateways_passive (os_pnet os) name channel = Inr gws" if "gw \<in> set gws" for gw
    using that gws by (auto simp: heard_gateways_def split: sum.splits)
  note source = survey_candidate_source [OF s ans]
  have "\<exists>j \<in> set (os_pnet os). ni_name j = name \<and> subnet_from_interface j = Inr (Some k)" if "s = GatewayRoute"
  proof -
    have "Some k \<in> gw_subnet ` set gws" using source that by blast
    then obtain gw where "gw \<in> set gws" "gw_subnet gw = Some k" by (metis imageE)
    then show ?thesis using gateway_subnet known by blast
  qed
  moreover have "\<exists>gws. detect_gateways_passive (os_pnet os) name channel = Inr gws \<and> g \<in> gw_ip ` set gws"
    if "map_of (sm_gateways (survey_candidates gws as ls)) k = Some g" for g
    using survey_candidate_gateway [OF that ans] known by blast
  ultimately show ?thesis using source survey_candidate_gateway_iff [OF s ans] by blast
qed

lemma survey_result_entry:
  assumes "d \<in> set (survey_result sm rs)" "fst ` set rs \<subseteq> fst ` set (sm_subnets sm)"
  shows "map_of (sm_subnets sm) (ds_network d, ds_prefix d) = Some (ds_source d)
    \<and> ds_gateway d = map_of (sm_gateways sm) (ds_network d, ds_prefix d)"
proof -
  from assms(1) obtain k h where "(k, h) \<in> set rs" and d: "d = survey_entry sm (k, h)"
    by (auto simp: survey_result_def)
  then have "k \<in> fst ` set (sm_subnets sm)" using assms(2) by force
  then obtain s where "map_of (sm_subnets sm) k = Some s"
    by (cases "map_of (sm_subnets sm) k") (auto simp: map_of_eq_None_iff)
  then show ?thesis by (cases k) (simp add: d survey_entry_def)
qed

lemma candidate_keys:
  "fst ` set (sm_subnets (survey_candidates gws as ls)) = fst ` claim_source ` set (layer_claims gws as ls)"
  using arg_cong [OF survey_candidates_lookup(1) [of gws as ls], of dom]
  by (simp add: dom_map_of_conv_image_fst image_image)


text \<open>A gateway is heard on the wire and does not answer UPnP; every probe counts two hosts.\<close>

definition deaf_upnp :: upnp_env where
  "deaf_upnp = \<lparr>env_parse_url = (\<lambda>_. None), env_exchange = (\<lambda>_ _ _. None)\<rparr>"

definition count_two :: "survey_maps \<Rightarrow> ((ipv4 \<times> byte) \<times> nat option) list" where
  "count_two sm = map (\<lambda>c. (fst c, Some 2)) (sm_subnets sm)"

lemma quiet_survey_returns:
  "\<exists>ds. survey sample_os None (Some [Some gateway_frame])
     (\<lambda>g. probe_gateway_upnp deaf_upnp g None None) count_two = Inr ds"
proof -
  obtain i where i: "find_interface (os_pnet sample_os) None = Some i" "ni_name i = ''eth0''"
    "subnet_from_interface i = Inr (Some (ipv4_new 192 168 1 0, 24))"
    "List.find (\<lambda>j. ni_name j = ''eth0'' \<and> ni_up j \<and> \<not> ni_loopback j) (os_pnet sample_os) = Some i"
    by (rule sample_interface)
  have "probe_gateway_upnp deaf_upnp g None None = Inr []" for g
    by (simp add: probe_gateway_upnp_def query_upnp_wan_def query_upnp_routes_def
        discover_upnp_services_def concat_outcome_def)
  moreover have "returns (local_subnet_of (Some i))"
    using i(1) by (auto simp: local_subnet_of_def sample_os_def find_interface_def suitable_def
        is_ipv4_def network_base_def netmask_eq)
  ultimately show ?thesis
    using i gateway_heard [OF i(3,4)] by (auto simp: survey_def returns_iff Let_def)
qed


section \<open>Who is taken for a gateway\<close>

text \<open>What a frame says, without the state of the tap: an ARP packet of a sender in the local subnet
  names an address that ends in 1 or 254, and a DHCP message names both of its addresses.\<close>

definition arp_names :: "(ipv4 \<times> byte) option \<Rightarrow> bytes \<Rightarrow> ipv4 \<Rightarrow> bool" where
  "arp_names local_subnet packet ip \<longleftrightarrow>
     (\<exists>eth arp. ethernet_new packet = Some eth \<and> ethertype eth = ethertype_arp
        \<and> arp_new (eth_payload eth) = Some arp \<and> arp_sender_mac arp \<noteq> mac_zero
        \<and> in_local local_subnet (arp_sender_ip arp) = Inr True \<and> ip \<noteq> 0 \<and> gateway_octet ip
        \<and> (ip = arp_sender_ip arp \<or> ip = arp_target_ip arp \<and> arp_target_mac arp \<noteq> mac_zero))"

definition dhcp_names :: "bytes \<Rightarrow> ipv4 \<Rightarrow> bool" where
  "dhcp_names packet ip \<longleftrightarrow>
     (\<exists>eth ipv4 udp. ethernet_new packet = Some eth \<and> ethertype eth = ethertype_ipv4
        \<and> ipv4_packet_new (eth_payload eth) = Some ipv4 \<and> ip_protocol ipv4 = proto_udp
        \<and> udp_new (ip_payload ipv4) = Some udp \<and> (udp_source udp = 67 \<or> udp_destination udp = 67)
        \<and> ip \<noteq> 0 \<and> (ip = ip_source ipv4 \<or> ip = ip_destination ipv4))"

definition tap_ok :: "wiretap \<Rightarrow> bool" where
  "tap_ok wt \<longleftrightarrow> distinct (map fst (wt_gateways wt)) \<and> distinct (wt_dhcp wt)"

lemma or_insert_keys: "fst ` set (or_insert k v m) = insert k (fst ` set m)"
  by (force simp: or_insert_def map_of_eq_None_iff)

lemma insert_new_simps [simp]:
  "set (insert_new x xs) = insert x (set xs)" "distinct (insert_new x xs) \<longleftrightarrow> distinct xs"
  by (auto simp: insert_new_def)

definition insert_if :: "bool \<Rightarrow> ipv4 \<Rightarrow> mac \<Rightarrow> wiretap \<Rightarrow> wiretap" where
  "insert_if b ip m wt = (if b then wt\<lparr>wt_gateways := or_insert ip m (wt_gateways wt)\<rparr> else wt)"

lemma insert_if_simps:
  "fst ` set (wt_gateways (insert_if b ip m wt)) = fst ` set (wt_gateways wt) \<union> {x. b \<and> x = ip}"
  "wt_dhcp (insert_if b ip m wt) = wt_dhcp wt"
  "tap_ok wt \<Longrightarrow> tap_ok (insert_if b ip m wt)"
  by (auto simp: insert_if_def or_insert_keys tap_ok_def distinct_or_insert)

lemma tap_arp_insert:
  assumes "arp_sender_mac arp \<noteq> mac_zero"
  shows "tap_arp local_subnet arp wt = outcome_bind (in_local local_subnet (arp_sender_ip arp)) (\<lambda>ok.
    Inr (insert_if (ok \<and> arp_target_ip arp \<noteq> 0 \<and> gateway_octet (arp_target_ip arp) \<and> arp_target_mac arp \<noteq> mac_zero)
           (arp_target_ip arp) (arp_target_mac arp)
        (insert_if (ok \<and> arp_sender_ip arp \<noteq> 0 \<and> gateway_octet (arp_sender_ip arp))
           (arp_sender_ip arp) (arp_sender_mac arp) wt)))"
  using assms
  by (cases "in_local local_subnet (arp_sender_ip arp)") (simp_all add: tap_arp_def Let_def insert_if_def)

lemma tap_arp_exact:
  assumes "tap_arp local_subnet arp wt = Inr wt'"
  shows "fst ` set (wt_gateways wt') = fst ` set (wt_gateways wt) \<union>
      {ip. arp_sender_mac arp \<noteq> mac_zero \<and> in_local local_subnet (arp_sender_ip arp) = Inr True
        \<and> ip \<noteq> 0 \<and> gateway_octet ip
        \<and> (ip = arp_sender_ip arp \<or> ip = arp_target_ip arp \<and> arp_target_mac arp \<noteq> mac_zero)}
    \<and> wt_dhcp wt' = wt_dhcp wt \<and> (tap_ok wt \<longrightarrow> tap_ok wt')"
proof (cases "arp_sender_mac arp = mac_zero")
  case True
  then show ?thesis using assms by (simp add: tap_arp_def Let_def)
next
  case False
  then obtain ok where ok: "in_local local_subnet (arp_sender_ip arp) = Inr ok"
    using assms by (auto simp: tap_arp_insert outcome_bind_Inr_iff)
  have wt': "wt' = insert_if (ok \<and> arp_target_ip arp \<noteq> 0 \<and> gateway_octet (arp_target_ip arp)
        \<and> arp_target_mac arp \<noteq> mac_zero) (arp_target_ip arp) (arp_target_mac arp)
      (insert_if (ok \<and> arp_sender_ip arp \<noteq> 0 \<and> gateway_octet (arp_sender_ip arp))
         (arp_sender_ip arp) (arp_sender_mac arp) wt)"
    using assms unfolding tap_arp_insert [OF False] ok by simp
  have local: "in_local local_subnet (arp_sender_ip arp) = Inr True \<longleftrightarrow> ok" using ok by simp
  have "tap_ok wt \<longrightarrow> tap_ok wt'" unfolding wt' by (simp add: insert_if_simps(3))
  then show ?thesis
    unfolding wt' insert_if_simps(1,2) local Un_assoc
    using False by (intro conjI arg_cong [where f = "(\<union>) _"]) auto
qed

lemma tap_ipv4_exact:
  "wt_gateways (tap_ipv4 ipv4 wt) = wt_gateways wt"
  "set (wt_dhcp (tap_ipv4 ipv4 wt)) = set (wt_dhcp wt) \<union>
     {ip. ip_protocol ipv4 = proto_udp \<and> (\<exists>udp. udp_new (ip_payload ipv4) = Some udp
        \<and> (udp_source udp = 67 \<or> udp_destination udp = 67))
        \<and> ip \<noteq> 0 \<and> (ip = ip_source ipv4 \<or> ip = ip_destination ipv4)}"
  "tap_ok wt \<Longrightarrow> tap_ok (tap_ipv4 ipv4 wt)"
  by (auto simp: tap_ipv4_def tap_ok_def Let_def is_unspecified_def split: option.splits)

lemma tap_frame_exact:
  assumes "tap_frame local_subnet packet wt = Inr wt'"
  shows "fst ` set (wt_gateways wt') = fst ` set (wt_gateways wt) \<union> Collect (arp_names local_subnet packet)"
    and "set (wt_dhcp wt') = set (wt_dhcp wt) \<union> Collect (dhcp_names packet)"
    and "tap_ok wt \<Longrightarrow> tap_ok wt'"
proof -
  have types: "ethertype_arp \<noteq> ethertype_ipv4" by (simp add: ethertype_arp_def ethertype_ipv4_def)
  from assms consider
    (arp) eth arp where "ethernet_new packet = Some eth" "ethertype eth = ethertype_arp"
      "arp_new (eth_payload eth) = Some arp" "tap_arp local_subnet arp wt = Inr wt'"
  | (ipv4) eth ipv4 where "ethernet_new packet = Some eth" "ethertype eth = ethertype_ipv4"
      "ipv4_packet_new (eth_payload eth) = Some ipv4" "wt' = tap_ipv4 ipv4 wt"
  | (none) "wt' = wt" "\<And>ip. \<not> arp_names local_subnet packet ip" "\<And>ip. \<not> dhcp_names packet ip"
    using types
    by (auto simp: tap_frame_def arp_names_def dhcp_names_def split: option.splits if_splits)
  then have "fst ` set (wt_gateways wt') = fst ` set (wt_gateways wt) \<union> Collect (arp_names local_subnet packet)
    \<and> set (wt_dhcp wt') = set (wt_dhcp wt) \<union> Collect (dhcp_names packet) \<and> (tap_ok wt \<longrightarrow> tap_ok wt')"
  proof cases
    case arp
    then show ?thesis
      using tap_arp_exact [OF arp(4)] types by (auto simp: arp_names_def dhcp_names_def)
  next
    case ipv4
    then show ?thesis
      using tap_ipv4_exact types by (auto simp: arp_names_def dhcp_names_def)
  next
    case none
    have empty: "Collect (arp_names local_subnet packet) = {}" "Collect (dhcp_names packet) = {}"
      using none(2,3) by blast+
    show ?thesis unfolding none(1) empty by simp
  qed
  then show "fst ` set (wt_gateways wt') = fst ` set (wt_gateways wt) \<union> Collect (arp_names local_subnet packet)"
    and "set (wt_dhcp wt') = set (wt_dhcp wt) \<union> Collect (dhcp_names packet)"
    and "tap_ok wt \<Longrightarrow> tap_ok wt'" by blast+
qed

lemma tap_frames_exact:
  "tap_frames local_subnet packets wt = Inr wt' \<Longrightarrow>
     fst ` set (wt_gateways wt') = fst ` set (wt_gateways wt) \<union> {ip. \<exists>p. Some p \<in> set packets \<and> arp_names local_subnet p ip}
     \<and> set (wt_dhcp wt') = set (wt_dhcp wt) \<union> {ip. \<exists>p. Some p \<in> set packets \<and> dhcp_names p ip}
     \<and> (tap_ok wt \<longrightarrow> tap_ok wt')"
proof (induction local_subnet packets wt arbitrary: wt' rule: tap_frames.induct)
  case (3 local_subnet packet rest wt)
  then obtain wt1 where "tap_frame local_subnet packet wt = Inr wt1" "tap_frames local_subnet rest wt1 = Inr wt'"
    by (auto simp: outcome_bind_Inr_iff)
  with 3 tap_frame_exact [of local_subnet packet wt wt1] show ?case by auto
qed auto

text \<open>C39: the gateways a survey asks over UPnP are exactly the addresses the frames name, each once: those
  ending in 1 or 254 in the ARP packets of local senders, and both addresses of every DHCP
  message, so also the broadcast address and the clients. All carry the interface's subnet.\<close>

theorem gateway_candidates_exact:
  assumes "detect_gateways_passive pnet name (Some packets) = Inr gws"
    and "List.find (\<lambda>i. ni_name i = name \<and> ni_up i \<and> \<not> ni_loopback i) pnet = Some i"
    and "subnet_from_interface i = Inr local_subnet"
  shows "gw_ip ` set gws =
      {ip. \<exists>p. Some p \<in> set packets \<and> (arp_names local_subnet p ip \<or> dhcp_names p ip)}
    \<and> distinct (map gw_ip gws) \<and> (\<forall>gw \<in> set gws. gw_subnet gw = local_subnet)"
proof -
  obtain wt where t: "tap_frames local_subnet packets \<lparr>wt_gateways = [], wt_dhcp = []\<rparr> = Inr wt"
    and gws: "gws = gateway_candidates local_subnet wt"
    using assms by (auto simp: detect_gateways_passive_def outcome_bind_Inr_iff)
  from tap_frames_exact [OF t] have
    g: "fst ` set (wt_gateways wt) = {ip. \<exists>p. Some p \<in> set packets \<and> arp_names local_subnet p ip}"
    and d: "set (wt_dhcp wt) = {ip. \<exists>p. Some p \<in> set packets \<and> dhcp_names p ip}" and ok: "tap_ok wt"
    by (simp_all add: tap_ok_def)
  have ips: "map gw_ip gws = map fst (wt_gateways wt)
      @ filter (\<lambda>ip. ip \<notin> fst ` set (wt_gateways wt)) (wt_dhcp wt)"
    by (simp add: gws gateway_candidates_def comp_def case_prod_beta)
  have "gw_ip ` set gws = fst ` set (wt_gateways wt) \<union> set (wt_dhcp wt)"
    using arg_cong [OF ips, of set] by auto
  moreover have "distinct (map gw_ip gws)" using ok unfolding ips by (auto simp: tap_ok_def)
  moreover have "\<forall>gw \<in> set gws. gw_subnet gw = local_subnet" by (auto simp: gws gateway_candidates_def)
  ultimately show ?thesis unfolding g d by blast
qed

theorem gateway_candidates_exact_witness:
  "{ip. \<exists>p. Some p \<in> set [Some gateway_frame]
     \<and> (arp_names (Some (ipv4_new 192 168 1 0, 24)) p ip \<or> dhcp_names p ip)} = {ipv4_new 192 168 1 1}"
proof -
  obtain i where "subnet_from_interface i = Inr (Some (ipv4_new 192 168 1 0, 24))"
    "List.find (\<lambda>j. ni_name j = ''eth0'' \<and> ni_up j \<and> \<not> ni_loopback j) (os_pnet sample_os) = Some i"
    by (rule sample_interface)
  from gateway_candidates_exact [OF gateway_heard [OF this] this(2,1)]
  show ?thesis by (elim conjE, elim subst) simp
qed

end
