(* ===== verification/Listen_Session.thy ===== *)
theory Listen_Session
  imports Passive
begin

text \<open>
  A whole session of \<open>listen\<close> in \<open>discovery/passive.rs\<close>: the threads the capability starts, the
  two unbounded channels between them and the event loop, Ctrl-C, the end of the loop and of the
  threads. A thread goes round its loop: it looks at the shutdown flag, reads once, with a timeout,
  and sends what it has read; it is given as the list of what each round has to send. The scheduler
  and \<open>select!\<close> are the freedom of the step relation. The event loop only ends when neither channel
  had a message as it last looked, since the branch that reads the shutdown flag is a timer that
  starts anew in every round; a message that arrives in the instant the timer fires counts as sent
  after the end, since nobody sees the order.
\<close>

section \<open>What the threads send\<close>

datatype send = Send_Entry arp_entry | Send_Service service_event

text \<open>For one datagram the services are sent before the entry. A panic ends the thread.\<close>

definition datagram_sends :: "service_event option \<times> arp_entry \<Rightarrow> send list" where
  "datagram_sends r =
     (case r of (ev, entry) \<Rightarrow>
        (case ev of None \<Rightarrow> [] | Some ev \<Rightarrow> [Send_Service ev]) @ [Send_Entry entry])"

fun mdns_rounds :: "(recv \<times> bool) list \<Rightarrow> send list list" where
  "mdns_rounds [] = []"
| "mdns_rounds ((Datagram data (Some src_ip), due) # rest) =
     (case mdns_datagram data src_ip of Inl _ \<Rightarrow> []
      | Inr r \<Rightarrow> datagram_sends r # mdns_rounds rest)"
| "mdns_rounds (_ # rest) = [] # mdns_rounds rest"

fun poll_rounds :: "string option list \<Rightarrow> (ipv4 \<times> mac) set \<Rightarrow> send list list" where
  "poll_rounds [] seen = []"
| "poll_rounds (contents # polls) seen =
     (case poll_entries (parse_arp_table contents) seen of
        (seen', sent) \<Rightarrow> map Send_Entry sent # poll_rounds polls seen')"

fun sniff_rounds :: "(ipv4 \<times> byte) option \<Rightarrow> bytes option list \<Rightarrow> sniffed \<Rightarrow> send list list" where
  "sniff_rounds local_subnet [] st = []"
| "sniff_rounds local_subnet (None # rest) st = [] # sniff_rounds local_subnet rest st"
| "sniff_rounds local_subnet (Some packet # rest) st =
     (case sniff_frame local_subnet packet st of Inl _ \<Rightarrow> []
      | Inr st' \<Rightarrow>
          map Send_Entry (drop (length (snd st)) (snd st')) # sniff_rounds local_subnet rest st')"

text \<open>What the operating system and the network give the listener: whether a raw socket can be
  had, the ARP table when it is tested, its polls, the mDNS socket and the frames.\<close>

record air =
  air_raw_socket :: bool
  air_arp_table :: "string option"
  air_polls :: "string option list"
  air_mdns :: "(recv \<times> bool) list option"
  air_frames :: "bytes option list option"

fun thread_rounds :: "network_interface list \<Rightarrow> string option \<Rightarrow> air \<Rightarrow> source_thread \<Rightarrow> send list list" where
  "thread_rounds pnet iface air Sniff_Raw =
     (case sniff_interface pnet iface of None \<Rightarrow> []
      | Some i \<Rightarrow>
          (case (subnet_from_pnet i, air_frames air) of
             (Inr local_subnet, Some packets) \<Rightarrow> sniff_rounds local_subnet packets ({}, [])
           | _ \<Rightarrow> []))"
| "thread_rounds pnet iface air Poll_Arp_Table = poll_rounds (air_polls air) {}"
| "thread_rounds pnet iface air Listen_Mdns =
     (case air_mdns air of None \<Rightarrow> [] | Some iterations \<Rightarrow> mdns_rounds iterations)"

definition session_threads :: "network_interface list \<Rightarrow> string option \<Rightarrow> air \<Rightarrow> send list list list" where
  "session_threads pnet iface air =
     map (thread_rounds pnet iface air)
       (threads_of (detect_capability (air_raw_socket air) (air_arp_table air)))"

text \<open>All rounds together send what the loops of \<open>Passive\<close> report.\<close>

lemma concat_poll_rounds: "concat (poll_rounds polls seen) = map Send_Entry (poll_arp_table polls seen)"
  by (induction polls arbitrary: seen) (auto split: prod.split)

lemma concat_sniff_rounds:
  "good_subnet net \<Longrightarrow> sniff_inv net st \<Longrightarrow> sniff_frames net packets st = Inr st' \<Longrightarrow>
   snd st' = snd st @ drop (length (snd st)) (snd st')
   \<and> concat (sniff_rounds net packets st) = map Send_Entry (drop (length (snd st)) (snd st'))"
proof (induction net packets st rule: sniff_frames.induct)
  case (3 net packet rest st)
  obtain st1 where st1: "sniff_frame net packet st = Inr st1" "sniff_inv net st1" "prefix (snd st) (snd st1)"
    using sniff_frame_reports [OF 3(2,3), of packet] by (rule reportsE)
  then obtain new where new: "snd st1 = snd st @ new" by (auto simp: prefix_def)
  have "snd st' = snd st1 @ drop (length (snd st1)) (snd st')
      \<and> concat (sniff_rounds net rest st1) = map Send_Entry (drop (length (snd st1)) (snd st'))"
    using 3 st1 by simp
  then obtain more_new where "snd st' = snd st1 @ more_new"
    "concat (sniff_rounds net rest st1) = map Send_Entry more_new" by (metis append_eq_conv_conj)
  with st1(1) new show ?case by simp
qed simp_all

section \<open>The session\<close>

text \<open>A thread: what the present round has still to send, the rounds to come, and whether it has ended.\<close>

record thread =
  th_sends :: "send list"
  th_rounds :: "send list list"
  th_ended :: bool

record session =
  se_threads :: "thread list"
  se_entries :: "arp_entry list"
  se_services :: "service_event list"
  se_loop :: listener
  se_shutdown :: bool
  se_stopped :: bool
  se_joined :: bool

definition thread_init :: "send list list \<Rightarrow> thread" where
  "thread_init rounds = \<lparr>th_sends = [], th_rounds = rounds, th_ended = False\<rparr>"

definition session_init :: "json_codec \<Rightarrow> disk \<Rightarrow> send list list list \<Rightarrow> session" where
  "session_init js dk threads =
     \<lparr>se_threads = map thread_init threads, se_entries = [], se_services = [], se_loop = listen_init js dk,
      se_shutdown = False, se_stopped = False, se_joined = False\<rparr>"

fun deliver :: "send \<Rightarrow> session \<Rightarrow> session" where
  "deliver (Send_Entry e) s = s\<lparr>se_entries := se_entries s @ [e]\<rparr>"
| "deliver (Send_Service ev) s = s\<lparr>se_services := se_services s @ [ev]\<rparr>"

definition set_thread :: "nat \<Rightarrow> thread \<Rightarrow> session \<Rightarrow> session" where
  "set_thread i t s = s\<lparr>se_threads := (se_threads s)[i := t]\<rparr>"

inductive session_step :: "json_codec \<Rightarrow> string \<Rightarrow> session \<Rightarrow> session \<Rightarrow> bool" for js oui where
  iterate: "i < length (se_threads s) \<Longrightarrow> \<not> se_shutdown s \<Longrightarrow>
    se_threads s ! i = \<lparr>th_sends = [], th_rounds = round # rounds, th_ended = False\<rparr> \<Longrightarrow>
    session_step js oui s (set_thread i \<lparr>th_sends = round, th_rounds = rounds, th_ended = False\<rparr> s)"
| send: "i < length (se_threads s) \<Longrightarrow> th_sends (se_threads s ! i) = x # xs \<Longrightarrow>
    session_step js oui s (deliver x (set_thread i ((se_threads s ! i)\<lparr>th_sends := xs\<rparr>) s))"
| leave: "i < length (se_threads s) \<Longrightarrow> se_shutdown s \<Longrightarrow> th_sends (se_threads s ! i) = [] \<Longrightarrow>
    \<not> th_ended (se_threads s ! i) \<Longrightarrow>
    session_step js oui s (set_thread i ((se_threads s ! i)\<lparr>th_ended := True\<rparr>) s)"
| ctrl_c: "\<not> se_shutdown s \<Longrightarrow> session_step js oui s (s\<lparr>se_shutdown := True\<rparr>)"
| recv_entry: "\<not> se_stopped s \<Longrightarrow> se_entries s = e # es \<Longrightarrow> values_of vals (ls_store (se_loop s)) \<Longrightarrow>
    on_entry js oui vals now e (se_loop s) = Inr l \<Longrightarrow>
    session_step js oui s (s\<lparr>se_entries := es, se_loop := l\<rparr>)"
| recv_service: "\<not> se_stopped s \<Longrightarrow> se_services s = ev # evs \<Longrightarrow> values_of vals (ls_store (se_loop s)) \<Longrightarrow>
    on_services js oui vals now ev (se_loop s) = Inr l \<Longrightarrow>
    session_step js oui s (s\<lparr>se_services := evs, se_loop := l\<rparr>)"
| stop: "\<not> se_stopped s \<Longrightarrow> se_shutdown s \<Longrightarrow> se_entries s = [] \<Longrightarrow> se_services s = [] \<Longrightarrow>
    session_step js oui s (s\<lparr>se_stopped := True\<rparr>)"
| join: "se_stopped s \<Longrightarrow> \<not> se_joined s \<Longrightarrow> \<forall>t \<in> set (se_threads s). th_ended t \<Longrightarrow>
    session_step js oui s (s\<lparr>se_joined := True\<rparr>)"

inductive_cases session_stepE: "session_step js oui s t"

text \<open>The number of devices named in the last line printed.\<close>

definition captured :: "session \<Rightarrow> nat" where
  "captured s = card (dom (ls_seen (se_loop s)))"

text \<open>Threads, channels and the shutdown are a refinement of the event loop.\<close>

lemma deliver_simps [simp]:
  "se_threads (deliver x s) = se_threads s" "se_loop (deliver x s) = se_loop s"
  "se_stopped (deliver x s) = se_stopped s" "se_shutdown (deliver x s) = se_shutdown s"
  "se_joined (deliver x s) = se_joined s"
  by (cases x; simp)+

lemma set_thread_simps [simp]:
  "se_threads (set_thread i t s) = (se_threads s)[i := t]" "se_loop (set_thread i t s) = se_loop s"
  "se_entries (set_thread i t s) = se_entries s" "se_services (set_thread i t s) = se_services s"
  "se_stopped (set_thread i t s) = se_stopped s" "se_shutdown (set_thread i t s) = se_shutdown s"
  "se_joined (set_thread i t s) = se_joined s"
  by (simp_all add: set_thread_def)

interpretation session_loop: stuttering_simulation se_loop "session_step js oui" "listen_step js oui" for js oui
  by unfold_locales (erule session_stepE; auto intro: listen_step.intros)

section \<open>What was sent is taken\<close>

text \<open>What a thread has still to send, and the messages it has sent.\<close>

definition unsent :: "thread \<Rightarrow> send list" where
  "unsent t = th_sends t @ concat (th_rounds t)"

definition sent_by :: "send list list \<Rightarrow> thread \<Rightarrow> send set" where
  "sent_by rounds t = set (take (length (concat rounds) - length (unsent t)) (concat rounds))"

definition sent_of :: "send list list list \<Rightarrow> session \<Rightarrow> send set" where
  "sent_of threads s = (\<Union>i < length threads. sent_by (threads ! i) (se_threads s ! i))"

definition reportable :: "arp_entry \<Rightarrow> bool" where
  "reportable e \<longleftrightarrow> \<not> (is_unspecified (entry_ip e) \<and> \<not> is_broadcast_mac (entry_mac e))"

text \<open>Each thread has sent the beginning of what it has to send.\<close>

definition threads_of_session :: "send list list list \<Rightarrow> session \<Rightarrow> bool" where
  "threads_of_session threads s \<longleftrightarrow>
     list_all2 (\<lambda>t rounds. suffix (unsent t) (concat rounds)) (se_threads s) threads"

text \<open>Every message sent is in its channel or was taken, and what was taken had been sent.\<close>

definition accounts :: "send list list list \<Rightarrow> session \<Rightarrow> bool" where
  "accounts threads s \<longleftrightarrow>
     threads_of_session threads s
     \<and> (\<forall>e. Send_Entry e \<in> sent_of threads s \<longrightarrow>
          e \<in> set (se_entries s) \<or> \<not> reportable e \<or> ls_seen (se_loop s) (entry_ip e) \<noteq> None)
     \<and> (\<forall>e \<in> set (se_entries s). Send_Entry e \<in> sent_of threads s)
     \<and> (\<forall>ev \<in> set (se_services s). Send_Service ev \<in> sent_of threads s)
     \<and> (\<forall>ip m. ls_seen (se_loop s) ip = Some m \<longrightarrow>
          Send_Entry \<lparr>entry_ip = ip, entry_mac = m\<rparr> \<in> sent_of threads s
          \<and> reportable \<lparr>entry_ip = ip, entry_mac = m\<rparr>)"

lemma entry_of_fields [simp]: "\<lparr>entry_ip = entry_ip e, entry_mac = entry_mac e\<rparr> = e"
  by (cases e) simp

lemma sent_by_next:
  "suffix (unsent t) (concat rounds) \<Longrightarrow> unsent t = x # unsent t' \<Longrightarrow>
   sent_by rounds t' = insert x (sent_by rounds t)"
  by (auto simp: suffix_def sent_by_def)

lemma sent_of_cong: "se_threads s = se_threads t \<Longrightarrow> sent_of threads s = sent_of threads t"
  by (simp add: sent_of_def)

lemma threads_of_sessionD:
  assumes "threads_of_session threads s"
  shows "length (se_threads s) = length threads"
    and "i < length (se_threads s) \<Longrightarrow> suffix (unsent (se_threads s ! i)) (concat (threads ! i))"
  using assms by (simp_all add: threads_of_session_def list_all2_conv_all_nth)

text \<open>A thread that sends, and one that only goes on or ends.\<close>

lemma thread_moves:
  assumes "threads_of_session threads s" "i < length (se_threads s)" "suffix (unsent t) (unsent (se_threads s ! i))"
  shows "threads_of_session threads (set_thread i t s)"
proof -
  note n = threads_of_sessionD(1) [OF assms(1)]
  from threads_of_sessionD(2) [OF assms(1,2)] have "suffix (unsent t) (concat (threads ! i))" using assms(3) by (rule suffix_order.trans [rotated])
  then have "list_all2 (\<lambda>t rounds. suffix (unsent t) (concat rounds)) ((se_threads s)[i := t]) (threads[i := threads ! i])"
    using assms(1,2) n by (intro list_all2_update_cong) (auto simp: threads_of_session_def)
  then show ?thesis by (simp add: threads_of_session_def)
qed

lemma sent_of_next:
  assumes "threads_of_session threads s" "i < length (se_threads s)" "unsent (se_threads s ! i) = x # unsent t"
  shows "sent_of threads (set_thread i t s) = insert x (sent_of threads s)"
proof -
  note n = threads_of_sessionD(1) [OF assms(1)]
  note suf = threads_of_sessionD(2) [OF assms(1,2)]
  have "sent_by (threads ! j) ((se_threads s)[i := t] ! j)
      = (if j = i then {x} else {}) \<union> sent_by (threads ! j) (se_threads s ! j)"
    if "j < length threads" for j
    using that n sent_by_next [OF suf assms(3)] by (simp add: nth_list_update)
  then have "sent_of threads (set_thread i t s)
      = (\<Union>j < length threads. (if j = i then {x} else {}) \<union> sent_by (threads ! j) (se_threads s ! j))"
    unfolding sent_of_def by (intro SUP_cong) simp_all
  also have "\<dots> = (\<Union>j < length threads. if j = i then {x} else {}) \<union> sent_of threads s"
    by (simp only: sent_of_def UN_Un_distrib)
  also have "(\<Union>j < length threads. if j = i then {x} else {}) = {x}"
    using assms(2) n by auto
  finally show ?thesis by simp
qed

lemma sent_of_still:
  assumes "threads_of_session threads s" "i < length (se_threads s)" "unsent t = unsent (se_threads s ! i)"
  shows "sent_of threads (set_thread i t s) = sent_of threads s"
proof -
  have "sent_by (threads ! j) ((se_threads s)[i := t] ! j) = sent_by (threads ! j) (se_threads s ! j)" for j
    using assms(2,3) by (cases "j = i") (simp_all add: sent_by_def)
  then show ?thesis by (simp add: sent_of_def)
qed

lemma on_entry_seen:
  assumes "on_entry js oui vals now e l = Inr l'"
  shows "ls_seen l' = (if reportable e \<and> ls_seen l (entry_ip e) = None
    then (ls_seen l)(entry_ip e \<mapsto> entry_mac e) else ls_seen l)"
  using assms unfolding on_entry_def Let_def reportable_def
  by (auto simp: outcome_bind_Inr_iff split: if_splits)

lemma on_services_seen: "on_services js oui vals now ev l = Inr l' \<Longrightarrow> ls_seen l' = ls_seen l"
  by (erule on_services_cases) simp_all

lemma accounts_init: "accounts threads (session_init js dk threads)"
  by (simp add: accounts_def threads_of_session_def session_init_def sent_of_def sent_by_def listen_init_def
      unsent_def thread_init_def list_all2_conv_all_nth)

lemma accounts_still:
  assumes "accounts threads s" "i < length (se_threads s)" "unsent t = unsent (se_threads s ! i)"
  shows "accounts threads (set_thread i t s)"
proof -
  have mine: "threads_of_session threads s" using assms(1) by (simp add: accounts_def)
  from thread_moves [OF mine assms(2), of t] sent_of_still [OF mine assms(2,3)] assms show ?thesis
    by (simp add: accounts_def)
qed

lemma sent_of_deliver [simp]: "sent_of threads (deliver x s) = sent_of threads s"
  by (rule sent_of_cong) simp

lemma accounts_send:
  assumes "accounts threads s" "i < length (se_threads s)" "unsent (se_threads s ! i) = x # unsent t"
  shows "accounts threads (deliver x (set_thread i t s))"
proof -
  have mine: "threads_of_session threads s" using assms(1) by (simp add: accounts_def)
  have "threads_of_session threads (set_thread i t s)"
    using thread_moves [OF mine assms(2)] assms(3) by (simp add: suffix_ConsI)
  then have "threads_of_session threads (deliver x (set_thread i t s))" by (simp add: threads_of_session_def)
  moreover have "sent_of threads (deliver x (set_thread i t s)) = insert x (sent_of threads s)"
    using sent_of_next [OF mine assms(2,3)] by simp
  ultimately show ?thesis
    using assms(1) by (cases x) (auto simp: accounts_def simp del: sent_of_deliver)
qed

lemma accounts_step: "accounts threads s \<Longrightarrow> session_step js oui s t \<Longrightarrow> accounts threads t"
proof (erule session_stepE)
  fix i round rounds
  assume "accounts threads s" "i < length (se_threads s)"
    "se_threads s ! i = \<lparr>th_sends = [], th_rounds = round # rounds, th_ended = False\<rparr>"
    "t = set_thread i \<lparr>th_sends = round, th_rounds = rounds, th_ended = False\<rparr> s"
  then show ?thesis by (simp add: accounts_still unsent_def)
next
  fix i x xs
  assume "accounts threads s" "i < length (se_threads s)" "th_sends (se_threads s ! i) = x # xs"
    "t = deliver x (set_thread i ((se_threads s ! i)\<lparr>th_sends := xs\<rparr>) s)"
  then show ?thesis by (simp add: accounts_send unsent_def)
next
  fix i
  assume "accounts threads s" "i < length (se_threads s)" "t = set_thread i ((se_threads s ! i)\<lparr>th_ended := True\<rparr>) s"
  then show ?thesis by (simp add: accounts_still unsent_def)
next
  fix e es vals now l
  assume "accounts threads s" and e: "se_entries s = e # es"
    and "on_entry js oui vals now e (se_loop s) = Inr l" and t: "t = s\<lparr>se_entries := es, se_loop := l\<rparr>"
  moreover note on_entry_seen [OF this(3)]
  moreover have "sent_of threads t = sent_of threads s" by (rule sent_of_cong) (simp add: t)
  ultimately show ?thesis by (auto simp: accounts_def threads_of_session_def t split: if_splits)
next
  fix ev evs vals now l
  assume "accounts threads s" "se_services s = ev # evs"
    and run: "on_services js oui vals now ev (se_loop s) = Inr l" and t: "t = s\<lparr>se_services := evs, se_loop := l\<rparr>"
  moreover have "sent_of threads t = sent_of threads s" by (rule sent_of_cong) (simp add: t)
  ultimately show ?thesis using on_services_seen [OF run] by (auto simp: accounts_def threads_of_session_def)
qed (auto simp: accounts_def threads_of_session_def sent_of_def)

interpretation session_accounts: invariant_system "\<lambda>s. \<exists>dk. s = session_init js dk threads"
    "session_step js oui" "accounts threads" for js oui threads
  by unfold_locales (auto simp: accounts_init intro: accounts_step)

lemma stopped_seen:
  assumes "(session_step js oui)\<^sup>*\<^sup>* (session_init js dk threads) s"
    and "session_step js oui s t" and "\<not> se_stopped s" and "se_stopped t"
  shows "dom (ls_seen (se_loop t)) = entry_ip ` {e. Send_Entry e \<in> sent_of threads t \<and> reportable e}"
proof -
  have "accounts threads s" using session_accounts.reachable_inv [OF _ assms(1)] by blast
  then have "accounts threads t" using assms(2) by (rule accounts_step)
  moreover have "se_entries t = []" using assms(2-4) by (auto elim!: session_stepE)
  ultimately show ?thesis unfolding accounts_def by (auto simp: image_iff) force+
qed

text \<open>C7: a session of the listener refines its event loop, loses no host and invents none. When the
  loop ends, the addresses seen, whose number is printed, are exactly those of the entries the
  threads have sent, leaving out entries that name no address; the MAC noted for an address was
  sent with it; and the loop's state is one that its own steps reach.\<close>

theorem session_hears_what_was_sent:
  assumes "(session_step js oui)\<^sup>*\<^sup>* (session_init js dk threads) s"
    and "session_step js oui s t" and "\<not> se_stopped s" and "se_stopped t"
  shows "dom (ls_seen (se_loop t)) = entry_ip ` {e. Send_Entry e \<in> sent_of threads t \<and> reportable e}
    \<and> captured t = card (entry_ip ` {e. Send_Entry e \<in> sent_of threads t \<and> reportable e})
    \<and> (\<forall>ip m. ls_seen (se_loop t) ip = Some m \<longrightarrow>
         Send_Entry \<lparr>entry_ip = ip, entry_mac = m\<rparr> \<in> sent_of threads t)
    \<and> (listen_step js oui)\<^sup>*\<^sup>* (listen_init js dk) (se_loop t)"
proof -
  have "accounts threads s" using session_accounts.reachable_inv [OF _ assms(1)] by blast
  then have acc: "accounts threads t" using assms(2) by (rule accounts_step)
  have t: "t = s\<lparr>se_stopped := True\<rparr>" using assms(2-4) by (auto elim!: session_stepE)
  have macs: "\<forall>ip m. ls_seen (se_loop t) ip = Some m \<longrightarrow>
         Send_Entry \<lparr>entry_ip = ip, entry_mac = m\<rparr> \<in> sent_of threads t"
    using acc unfolding accounts_def by blast
  have "(listen_step js oui)\<^sup>*\<^sup>* (se_loop (session_init js dk threads)) (se_loop s)"
    using assms(1) by (rule session_loop.run_simulates)
  then have "(listen_step js oui)\<^sup>*\<^sup>* (listen_init js dk) (se_loop t)"
    by (simp add: t session_init_def)
  with stopped_seen [OF assms] macs show ?thesis by (simp add: captured_def)
qed

text \<open>One host is heard over mDNS, then the user stops the listener.\<close>

lemma begin_round:
  assumes "se_threads s = [\<lparr>th_sends = [], th_rounds = round # rounds, th_ended = False\<rparr>]" "\<not> se_shutdown s"
  shows "session_step js oui s (s\<lparr>se_threads := [\<lparr>th_sends = round, th_rounds = rounds, th_ended = False\<rparr>]\<rparr>)"
  using session_step.iterate [of 0 s round rounds js oui] assms by (simp add: set_thread_def)

lemma send_first:
  assumes "se_threads s = [\<lparr>th_sends = x # xs, th_rounds = rounds, th_ended = False\<rparr>]"
  shows "session_step js oui s
    (deliver x (s\<lparr>se_threads := [\<lparr>th_sends = xs, th_rounds = rounds, th_ended = False\<rparr>]\<rparr>))"
  using session_step.send [of 0 s x xs js oui] assms by (simp add: set_thread_def)

abbreviation idle :: thread where
  "idle \<equiv> \<lparr>th_sends = [], th_rounds = [], th_ended = False\<rparr>"

lemma one_host_session:
  "\<exists>s t. (session_step js oui)\<^sup>*\<^sup>* (session_init js blank_disk [[[Send_Entry (mdns_entry 5)]]]) s
     \<and> session_step js oui s t \<and> \<not> se_stopped s \<and> se_stopped t \<and> se_threads t = [idle]
     \<and> ls_seen (se_loop t) = [5 \<mapsto> mac_broadcast]"
proof -
  let ?opening = "session_init js blank_disk [[[Send_Entry (mdns_entry 5)]]]"
  let ?read = "?opening\<lparr>se_threads := [\<lparr>th_sends = [Send_Entry (mdns_entry 5)], th_rounds = [], th_ended = False\<rparr>]\<rparr>"
  let ?sent = "?opening\<lparr>se_threads := [idle], se_entries := [mdns_entry 5]\<rparr>"
  obtain l where l: "on_entry js oui [] 7 (mdns_entry 5) (listen_init js blank_disk) = Inr l"
    and seen: "ls_seen l = [5 \<mapsto> mac_broadcast]"
    using first_mdns_host by blast
  let ?taken = "?sent\<lparr>se_entries := [], se_loop := l\<rparr>"
  let ?s = "?taken\<lparr>se_shutdown := True\<rparr>"
  let ?t = "?s\<lparr>se_stopped := True\<rparr>"
  have "session_step js oui ?opening ?read"
    using begin_round [of ?opening "[Send_Entry (mdns_entry 5)]" "[]"] by (simp add: session_init_def thread_init_def)
  moreover have "session_step js oui ?read ?sent"
    using send_first [of ?read "Send_Entry (mdns_entry 5)" "[]" "[]"] by (simp add: session_init_def)
  moreover have "session_step js oui ?sent ?taken"
    by (rule session_step.recv_entry [where e = "mdns_entry 5" and vals = "[]" and now = 7])
      (simp_all add: session_init_def l, simp add: values_of_def listen_init_def)
  moreover have "session_step js oui ?taken ?s" by (rule session_step.ctrl_c) (simp add: session_init_def)
  moreover have "session_step js oui ?s ?t"
    by (rule session_step.stop) (simp_all add: session_init_def)
  ultimately show ?thesis
    by (intro exI [of _ ?s] exI [of _ ?t])
      (auto simp: session_init_def seen intro: converse_rtranclp_into_rtranclp)
qed

theorem session_hears_what_was_sent_witness:
  "\<exists>t :: session. se_stopped t \<and> dom (ls_seen (se_loop t)) = {5} \<and> captured t = 1"
proof -
  let ?threads = "[[[Send_Entry (mdns_entry 5)]]]"
  obtain s t where run: "(session_step no_json [])\<^sup>*\<^sup>* (session_init no_json blank_disk ?threads) s"
      "session_step no_json [] s t" "\<not> se_stopped s" "se_stopped t" "se_threads t = [idle]"
    using one_host_session by blast
  have "{e. Send_Entry e \<in> sent_of ?threads t \<and> reportable e} = {mdns_entry 5}"
    by (auto simp: sent_of_def sent_by_def unsent_def run(5) reportable_def mdns_entry_def is_broadcast_mac_iff)
  with session_hears_what_was_sent [OF run(1-4)] run(4) show ?thesis
    by (auto simp: mdns_entry_def)
qed

section \<open>Where services come from\<close>

definition services_of :: "store \<Rightarrow> string set" where
  "services_of s = (\<Union>r \<in> ran s. set (rec_services r))"

lemma services_ofI: "s k = Some r \<Longrightarrow> x \<in> set (rec_services r) \<Longrightarrow> x \<in> services_of s"
  by (auto simp: services_of_def ran_def)

lemma services_of_update:
  "services_of (s(k \<mapsto> r)) \<subseteq> set (rec_services r) \<union> services_of s"
  by (auto simp: services_of_def ran_def split: if_splits)

lemma services_of_remove: "services_of (s(k := None)) \<subseteq> services_of s"
  by (auto simp: services_of_def ran_def split: if_splits)

lemma upsert_services:
  assumes "store_inv s" "values_of vals s" "upsert vals now g d s = Inr (s', r)"
  shows "services_of s' \<subseteq> set (dev_services d) \<union> services_of s"
  using assms
proof (cases rule: upsert_cases)
  case (take_over m k old r1)
  then have "set (rec_services r) = set (rec_services old) \<union> set (dev_services d)"
    by (auto simp: record_sighting_eq split: if_splits)
  moreover have "set (rec_services old) \<subseteq> services_of s" using take_over(2) by (blast intro: services_ofI)
  ultimately show ?thesis
    using take_over(7) services_of_update [of "s(k := None)" "rec_key r" r] services_of_remove [of s k] by blast
next
  case (entry key)
  from entry(2) obtain r0 where r0: "r0 = (case s key of Some r \<Rightarrow> r
      | None \<Rightarrow> fresh_record key (dev_mac d) (show_ipv4 (dev_ip d)) now (g key) d)"
    and "set (rec_services r) = set (rec_services r0) \<union> set (dev_services d)" and s': "s' = s(key \<mapsto> r)"
    by (auto simp: upsert_entry_def record_sighting_eq Let_def split: if_splits)
  moreover have "set (rec_services r0) \<subseteq> set (dev_services d) \<union> services_of s"
    unfolding r0 by (auto simp: fresh_record_def intro: services_ofI split: option.splits)
  ultimately show ?thesis using services_of_update [of s key r] by blast
qed

text \<open>The services the threads have reported so far.\<close>

definition sent_services :: "send list list list \<Rightarrow> session \<Rightarrow> string set" where
  "sent_services threads s = (\<Union>ev \<in> {ev. Send_Service ev \<in> sent_of threads s}. set (sev_services ev))"

text \<open>\<open>old\<close> are the services on record when the session starts.\<close>

definition services_ok :: "string set \<Rightarrow> send list list list \<Rightarrow> session \<Rightarrow> bool" where
  "services_ok old threads s \<longleftrightarrow>
     accounts threads s \<and> store_inv (ls_store (se_loop s))
     \<and> services_of (ls_store (se_loop s)) \<subseteq> old \<union> sent_services threads s"

lemma on_entry_services:
  assumes "store_inv (ls_store l)" "values_of vals (ls_store l)" "on_entry js oui vals now e l = Inr l'"
  shows "store_inv (ls_store l') \<and> services_of (ls_store l') \<subseteq> services_of (ls_store l)"
  using assms(3)
proof (cases rule: on_entry_cases)
  case (fresh store r)
  from upsert_services [OF assms(1,2) fresh(2)] upsert_step [OF assms(1,2) fresh(2)] fresh(3) show ?thesis
    by simp
qed (use assms(1) in simp)

lemma on_services_services:
  assumes "store_inv (ls_store l)" "values_of vals (ls_store l)" "on_services js oui vals now ev l = Inr l'"
  shows "store_inv (ls_store l') \<and> services_of (ls_store l') \<subseteq> set (sev_services ev) \<union> services_of (ls_store l)"
  using assms(3)
proof (cases rule: on_services_cases)
  case (known m store r)
  from upsert_services [OF assms(1,2) known(2)] upsert_step [OF assms(1,2) known(2)] known(3) show ?thesis
    by (simp add: service_device_def)
qed (use assms(1) in simp)

lemma services_ok_step: 
  assumes "services_ok old threads s" "session_step js oui s t"
  shows "services_ok old threads t"
proof -
  have acc: "accounts threads s" "accounts threads t" and inv: "store_inv (ls_store (se_loop s))"
    and svc: "services_of (ls_store (se_loop s)) \<subseteq> old \<union> sent_services threads s"
    using assms accounts_step by (auto simp: services_ok_def)
  have mine: "threads_of_session threads s" using acc(1) by (simp add: accounts_def)
  have same: ?thesis if "sent_of threads t = sent_of threads s" "se_loop t = se_loop s"
    using that acc(2) inv svc by (simp add: services_ok_def sent_services_def)
  show ?thesis using assms(2)
  proof (cases rule: session_step.cases)
    case (iterate i round rounds)
    then show ?thesis by (intro same) (simp_all add: sent_of_still [OF mine] unsent_def)
  next
    case (send i x xs)
    have "unsent (se_threads s ! i) = x # unsent ((se_threads s ! i)\<lparr>th_sends := xs\<rparr>)"
      using send(3) by (simp add: unsent_def)
    from sent_of_next [OF mine send(2) this] have "sent_services threads s \<subseteq> sent_services threads t"
      unfolding send(1) by (auto simp: sent_services_def)
    then show ?thesis using acc(2) inv svc by (auto simp: services_ok_def send(1))
  next
    case (leave i)
    then show ?thesis by (intro same) (simp_all add: sent_of_still [OF mine] unsent_def)
  next
    case (recv_entry e es vals now l)
    have "sent_of threads t = sent_of threads s" by (rule sent_of_cong) (simp add: recv_entry(1))
    then show ?thesis
      using on_entry_services [OF inv recv_entry(4,5)] acc(2) svc
      by (auto simp: services_ok_def sent_services_def recv_entry(1))
  next
    case (recv_service ev evs vals now l)
    have "sent_of threads t = sent_of threads s" by (rule sent_of_cong) (simp add: recv_service(1))
    moreover have "Send_Service ev \<in> sent_of threads s" using acc(1) recv_service(3) by (simp add: accounts_def)
    ultimately show ?thesis
      using on_services_services [OF inv recv_service(4,5)] acc(2) svc
      by (auto simp: services_ok_def sent_services_def recv_service(1))
  next
    case ctrl_c
    then show ?thesis by (intro same sent_of_cong) simp_all
  next
    case stop
    then show ?thesis by (intro same sent_of_cong) simp_all
  next
    case join
    then show ?thesis by (intro same sent_of_cong) simp_all
  qed
qed

interpretation session_services: invariant_system
    "\<lambda>s. \<exists>dk. store_inv (store_load js dk) \<and> services_of (store_load js dk) = old \<and> s = session_init js dk threads"
    "session_step js oui" "services_ok old threads"
  for js oui old threads
proof
  show "\<exists>dk. store_inv (store_load js dk) \<and> services_of (store_load js dk) = old
      \<and> s = session_init js dk threads \<Longrightarrow> services_ok old threads s" for s
    by (auto simp: services_ok_def accounts_init)
      (simp_all add: session_init_def listen_init_def)
qed (rule services_ok_step)

lemma sent_of_subset: "sent_of threads s \<subseteq> (\<Union>rounds \<in> set threads. set (concat rounds))"
  by (fastforce simp: sent_of_def sent_by_def dest: in_set_takeD)

lemma sniff_rounds_no_services: "Send_Service ev \<notin> set (concat (sniff_rounds net packets st))"
proof (induction net packets st rule: sniff_rounds.induct)
  case (3 net packet rest st)
  then show ?case by (cases "sniff_frame net packet st") auto
qed auto

lemma raw_sends_no_services:
  assumes "air_raw_socket air" "rounds \<in> set (session_threads pnet iface air)"
  shows "Send_Service ev \<notin> set (concat rounds)"
proof -
  have "rounds = thread_rounds pnet iface air Sniff_Raw"
    using assms by (simp add: session_threads_def detect_capability_def)
  then show ?thesis
    using sniff_rounds_no_services by (auto simp del: set_concat split: option.splits sum.splits)
qed

text \<open>C13: the services of the registry. In a session over any consistent registry, each service
  of a record was on record when the session started or was in an event that a thread has sent.
  A listener that gets its raw socket starts no mDNS thread: none of its threads ever sends an
  event, so that it learns no service at all, while one without that privilege does.\<close>

theorem session_services_were_sent:
  assumes "store_inv (store_load js dk)"
    and "(session_step js oui)\<^sup>*\<^sup>* (session_init js dk (session_threads pnet iface air)) s"
  shows "services_of (ls_store (se_loop s))
      \<subseteq> services_of (store_load js dk) \<union> sent_services (session_threads pnet iface air) s
    \<and> (air_raw_socket air \<longrightarrow>
        (\<forall>ev. Send_Service ev \<notin> sent_of (session_threads pnet iface air) s)
        \<and> services_of (ls_store (se_loop s)) \<subseteq> services_of (store_load js dk))
    \<and> (air_raw_socket air \<and> store_load js dk = Map.empty \<longrightarrow>
        (\<forall>k r. ls_store (se_loop s) k = Some r \<longrightarrow> rec_services r = []))"
proof -
  let ?threads = "session_threads pnet iface air" and ?old = "services_of (store_load js dk)"
  have "services_ok ?old ?threads s"
    using session_services.reachable_inv [OF _ assms(2)] assms(1) by blast
  then have sub: "services_of (ls_store (se_loop s)) \<subseteq> ?old \<union> sent_services ?threads s"
    by (simp add: services_ok_def)
  have silent: "Send_Service ev \<notin> sent_of ?threads s" if "air_raw_socket air" for ev
    using sent_of_subset [of ?threads s] raw_sends_no_services [OF that, of _ pnet iface] by blast
  then have raw: "services_of (ls_store (se_loop s)) \<subseteq> ?old" if "air_raw_socket air"
    using sub that unfolding sent_services_def by blast
  have "rec_services r = []"
    if "air_raw_socket air" "store_load js dk = Map.empty" "ls_store (se_loop s) k = Some r" for k r
  proof -
    have "services_of (ls_store (se_loop s)) = {}"
      using raw [OF that(1)] that(2) by (simp add: services_of_def)
    then show ?thesis using services_ofI [of "ls_store (se_loop s)" k r "hd (rec_services r)"] that(3) by (cases "rec_services r") simp_all
  qed
  with sub silent raw show ?thesis by blast
qed

section \<open>A race for the first services\<close>

lemma first_entry:
  assumes "store_load js dk = Map.empty"
  shows "\<exists>l r. on_entry js oui [] now \<lparr>entry_ip = ip, entry_mac = mac_broadcast\<rparr> (listen_init js dk) = Inr l
     \<and> ls_store l = [mac_key mac_broadcast \<mapsto> r] \<and> rec_services r = [] \<and> rec_last_ip r = show_ipv4 ip
     \<and> rec_key r = mac_key mac_broadcast \<and> rec_seen_count r = 1 \<and> ls_seen l = [ip \<mapsto> mac_broadcast]"
  using assms
  by (simp add: on_entry_def listen_init_def upsert_def existing_by_ip_def
      upsert_entry_def record_sighting_eq fresh_record_def Let_def)
    (rule exI, rule conjI, rule refl, simp add: enrich_def)

lemma services_of_known:
  assumes "ls_store l = [mac_key mac_broadcast \<mapsto> r]" "rec_services r = []" "rec_key r = mac_key mac_broadcast"
    "rec_seen_count r = 1" "ls_seen l = [ip \<mapsto> mac_broadcast]" "sev_ip ev = ip"
  shows "\<exists>l'. on_services js oui [r] now ev l = Inr l' \<and> services_of (ls_store l') = set (sev_services ev)
     \<and> ls_seen l' = [ip \<mapsto> mac_broadcast]"
  using assms
  by (simp add: on_services_def upsert_def existing_by_ip_def upsert_entry_def record_sighting_eq
      Let_def services_of_def)

text \<open>From a session with both channels empty the user can end the loop.\<close>

lemma session_end:
  assumes "se_entries s = []" "se_services s = []" "\<not> se_stopped s" "\<not> se_shutdown s"
  shows "(session_step js oui)\<^sup>*\<^sup>* s (s\<lparr>se_shutdown := True, se_stopped := True\<rparr>)"
proof -
  have "session_step js oui s (s\<lparr>se_shutdown := True\<rparr>)" using assms(4) by (rule session_step.ctrl_c)
  moreover have "session_step js oui (s\<lparr>se_shutdown := True\<rparr>) (s\<lparr>se_shutdown := True\<rparr>\<lparr>se_stopped := True\<rparr>)"
    using assms by (intro session_step.stop) simp_all
  ultimately show ?thesis by simp
qed

text \<open>The two sessions over one datagram with services: the loop takes the services before the entry
  is sent, or after both are.\<close>

abbreviation race_start :: "json_codec \<Rightarrow> disk \<Rightarrow> service_event \<Rightarrow> arp_entry \<Rightarrow> session" where
  "race_start js dk ev e \<equiv> session_init js dk [[[Send_Service ev, Send_Entry e]]]"

abbreviation sending :: "send list \<Rightarrow> thread" where
  "sending xs \<equiv> \<lparr>th_sends = xs, th_rounds = [], th_ended = False\<rparr>"

lemma race_first:
  "(session_step js oui)\<^sup>*\<^sup>* (race_start js dk ev e)
     ((race_start js dk ev e)\<lparr>se_threads := [sending [Send_Entry e]], se_services := [ev]\<rparr>)"
proof -
  let ?read = "(race_start js dk ev e)\<lparr>se_threads := [sending [Send_Service ev, Send_Entry e]]\<rparr>"
  have "session_step js oui (race_start js dk ev e) ?read"
    using begin_round [of "race_start js dk ev e" "[Send_Service ev, Send_Entry e]" "[]"]
    by (simp add: session_init_def thread_init_def)
  moreover have "session_step js oui ?read
      ((race_start js dk ev e)\<lparr>se_threads := [sending [Send_Entry e]], se_services := [ev]\<rparr>)"
    using send_first [of ?read "Send_Service ev" "[Send_Entry e]" "[]"] by (simp add: session_init_def)
  ultimately show ?thesis by (auto intro: converse_rtranclp_into_rtranclp)
qed

lemma race_loses:
  assumes empty: "store_load js dk = Map.empty"
    and l: "on_entry js oui [] 7 e (listen_init js dk) = Inr l"
  shows "(session_step js oui)\<^sup>*\<^sup>* (race_start js dk ev e)
    ((race_start js dk ev e)\<lparr>se_threads := [idle], se_loop := l\<rparr>)"
proof -
  let ?opening = "race_start js dk ev e"
  let ?first = "?opening\<lparr>se_threads := [sending [Send_Entry e]], se_services := [ev]\<rparr>"
  let ?dropped = "?opening\<lparr>se_threads := [sending [Send_Entry e]]\<rparr>"
  let ?sent = "?opening\<lparr>se_threads := [idle], se_entries := [e]\<rparr>"
  have fresh: "values_of [] (ls_store (listen_init js dk))" by (simp add: values_of_def listen_init_def empty)
  then have "session_step js oui ?first (?first\<lparr>se_services := [], se_loop := listen_init js dk\<rparr>)"
    by (intro session_step.recv_service [where ev = ev and vals = "[]" and now = 7])
      (simp_all add: session_init_def on_services_def listen_init_def)
  moreover have "session_step js oui ?dropped ?sent"
    using send_first [of ?dropped "Send_Entry e" "[]" "[]"] by (simp add: session_init_def)
  moreover have "session_step js oui ?sent (?sent\<lparr>se_entries := [], se_loop := l\<rparr>)"
    using fresh l by (intro session_step.recv_entry [where e = e and vals = "[]" and now = 7])
      (simp_all add: session_init_def)
  ultimately show ?thesis
    using race_first [of js oui dk ev e] by (simp add: session_init_def)
qed

lemma race_keeps:
  assumes empty: "store_load js dk = Map.empty"
    and l: "on_entry js oui [] 7 e (listen_init js dk) = Inr l"
    and l': "values_of [r] (ls_store l)" "on_services js oui [r] 8 ev l = Inr l'"
  shows "(session_step js oui)\<^sup>*\<^sup>* (race_start js dk ev e)
    ((race_start js dk ev e)\<lparr>se_threads := [idle], se_loop := l'\<rparr>)"
proof -
  let ?opening = "race_start js dk ev e"
  let ?first = "?opening\<lparr>se_threads := [sending [Send_Entry e]], se_services := [ev]\<rparr>"
  let ?sent = "?opening\<lparr>se_threads := [idle], se_services := [ev], se_entries := [e]\<rparr>"
  let ?known = "?opening\<lparr>se_threads := [idle], se_services := [ev], se_loop := l\<rparr>"
  have fresh: "values_of [] (ls_store (listen_init js dk))" by (simp add: values_of_def listen_init_def empty)
  have "session_step js oui ?first ?sent"
    using send_first [of ?first "Send_Entry e" "[]" "[]"] by (simp add: session_init_def)
  moreover have "session_step js oui ?sent (?sent\<lparr>se_entries := [], se_loop := l\<rparr>)"
    using fresh l by (intro session_step.recv_entry [where e = e and vals = "[]" and now = 7])
      (simp_all add: session_init_def)
  moreover have "session_step js oui ?known (?known\<lparr>se_services := [], se_loop := l'\<rparr>)"
    using l' by (intro session_step.recv_service [where ev = ev and vals = "[r]" and now = 8])
      (simp_all add: session_init_def)
  ultimately show ?thesis using race_first [of js oui dk ev e] by (simp add: session_init_def)
qed

lemma race_ends:
  assumes "(session_step js oui)\<^sup>*\<^sup>* (race_start js dk ev e) ((race_start js dk ev e)\<lparr>se_threads := [idle], se_loop := l\<rparr>)"
  shows "\<exists>s. (session_step js oui)\<^sup>*\<^sup>* (race_start js dk ev e) s \<and> se_stopped s \<and> se_loop s = l"
  using assms session_end [of "(race_start js dk ev e)\<lparr>se_threads := [idle], se_loop := l\<rparr>" js oui]
  by (intro exI [of _ "(race_start js dk ev e)\<lparr>se_threads := [idle], se_loop := l, se_shutdown := True, se_stopped := True\<rparr>"])
    (simp add: session_init_def)

lemma race_outcomes:
  assumes empty: "store_load js dk = Map.empty" and e: "e = \<lparr>entry_ip = sev_ip ev, entry_mac = mac_broadcast\<rparr>"
  shows "\<exists>s. (session_step js oui)\<^sup>*\<^sup>* (race_start js dk ev e) s \<and> se_stopped s
      \<and> dom (ls_seen (se_loop s)) = {sev_ip ev} \<and> services_of (ls_store (se_loop s)) = {}"
    and "\<exists>s. (session_step js oui)\<^sup>*\<^sup>* (race_start js dk ev e) s \<and> se_stopped s
      \<and> dom (ls_seen (se_loop s)) = {sev_ip ev} \<and> services_of (ls_store (se_loop s)) = set (sev_services ev)"
proof -
  obtain l r where l: "on_entry js oui [] 7 e (listen_init js dk) = Inr l"
      "ls_store l = [mac_key mac_broadcast \<mapsto> r]" "rec_services r = []"
      "rec_key r = mac_key mac_broadcast" "rec_seen_count r = 1" "ls_seen l = [sev_ip ev \<mapsto> mac_broadcast]"
    using first_entry [OF empty, of oui 7 "sev_ip ev"] unfolding e by blast
  have none: "services_of (ls_store l) = {}" by (simp add: services_of_def l(2,3))
  obtain s where "(session_step js oui)\<^sup>*\<^sup>* (race_start js dk ev e) s" "se_stopped s" "se_loop s = l"
    using race_ends [OF race_loses [OF empty l(1), of ev]] by blast
  with none show "\<exists>s. (session_step js oui)\<^sup>*\<^sup>* (race_start js dk ev e) s \<and> se_stopped s
      \<and> dom (ls_seen (se_loop s)) = {sev_ip ev} \<and> services_of (ls_store (se_loop s)) = {}"
    using l(6) by (intro exI [of _ s]) simp
  obtain l' where l': "on_services js oui [r] 8 ev l = Inr l'" "services_of (ls_store l') = set (sev_services ev)"
      "ls_seen l' = [sev_ip ev \<mapsto> mac_broadcast]"
    using services_of_known [OF l(2-6) refl] by blast
  have "values_of [r] (ls_store l)" unfolding l(2) by (rule values_of_single)
  from race_ends [OF race_keeps [OF empty l(1) this l'(1)]]
  obtain s where "(session_step js oui)\<^sup>*\<^sup>* (race_start js dk ev e) s" "se_stopped s" "se_loop s = l'" by blast
  with l'(2) show "\<exists>s. (session_step js oui)\<^sup>*\<^sup>* (race_start js dk ev e) s \<and> se_stopped s
      \<and> dom (ls_seen (se_loop s)) = {sev_ip ev} \<and> services_of (ls_store (se_loop s)) = set (sev_services ev)"
    using l'(3) by (intro exI [of _ s]) simp
qed

lemma mdns_datagram_services:
  assumes "mdns_datagram data ip = Inr (Some ev, e)"
  shows "e = \<lparr>entry_ip = ip, entry_mac = mac_broadcast\<rparr>" "sev_ip ev = ip" "sev_services ev \<noteq> []"
    "mdns_rounds [(Datagram data (Some ip), due)] = [[Send_Service ev, Send_Entry e]]"
  using assms by (auto simp: mdns_datagram_def outcome_bind_Inr_iff datagram_sends_def split: if_splits)

text \<open>C29: a race decides whether the services of the first datagram are kept. The mDNS thread sends
  the services of a datagram before the entry of its host, on two channels, and the loop drops the
  services of a host it has not seen: taking them then changes nothing at all. So, over an empty
  registry, of two sessions over the same datagram, both of which end and note the host, one
  records no service and the other all of them.\<close>

theorem first_services_race:
  assumes "store_load js dk = Map.empty" and "mdns_datagram data ip = Inr (Some ev, e)"
  shows "mdns_rounds [(Datagram data (Some ip), due)] = [[Send_Service ev, Send_Entry e]]
    \<and> sev_ip ev = ip \<and> entry_ip e = ip \<and> sev_services ev \<noteq> []
    \<and> (\<forall>vals now l. ls_seen l ip = None \<longrightarrow> on_services js oui vals now ev l = Inr l)
    \<and> (\<exists>s. (session_step js oui)\<^sup>*\<^sup>* (session_init js dk [mdns_rounds [(Datagram data (Some ip), due)]]) s
        \<and> se_stopped s \<and> dom (ls_seen (se_loop s)) = {ip} \<and> services_of (ls_store (se_loop s)) = {})
    \<and> (\<exists>s. (session_step js oui)\<^sup>*\<^sup>* (session_init js dk [mdns_rounds [(Datagram data (Some ip), due)]]) s
        \<and> se_stopped s \<and> dom (ls_seen (se_loop s)) = {ip}
        \<and> services_of (ls_store (se_loop s)) = set (sev_services ev))"
proof -
  note sends = mdns_datagram_services [OF assms(2)]
  have "on_services js oui vals now ev l = Inr l" if "ls_seen l ip = None" for vals now l
    using that sends(2) by (simp add: on_services_def)
  then show ?thesis
    using race_outcomes [OF assms(1), where e = e and ev = ev and oui = oui] sends(1-3) sends(4) [of due]
    by simp
qed

lemma googlecast_datagram:
  "mdns_datagram (build_mdns_query ''_googlecast._tcp.local'' 5) ip
     = Inr (Some \<lparr>sev_ip = ip, sev_services = [''googlecast'']\<rparr>, \<lparr>entry_ip = ip, entry_mac = mac_broadcast\<rparr>)"
  by (simp add: mdns_datagram_def googlecast_query)

text \<open>One datagram, and two sessions over it.\<close>

definition googlecast_air :: "(recv \<times> bool) list" where
  "googlecast_air = [(Datagram (build_mdns_query ''_googlecast._tcp.local'' 5) (Some 9), False)]"

theorem first_services_race_witness:
  "\<exists>s t. (session_step no_json [])\<^sup>*\<^sup>* (session_init no_json blank_disk [mdns_rounds googlecast_air]) s
     \<and> (session_step no_json [])\<^sup>*\<^sup>* (session_init no_json blank_disk [mdns_rounds googlecast_air]) t
     \<and> se_stopped s \<and> se_stopped t \<and> dom (ls_seen (se_loop s)) = {9} \<and> dom (ls_seen (se_loop t)) = {9}
     \<and> services_of (ls_store (se_loop s)) = {} \<and> services_of (ls_store (se_loop t)) = {''googlecast''}"
proof -
  let ?start = "session_init no_json blank_disk [mdns_rounds googlecast_air]"
  obtain s t where "(session_step no_json [])\<^sup>*\<^sup>* ?start s" "se_stopped s"
      "dom (ls_seen (se_loop s)) = {9}" "services_of (ls_store (se_loop s)) = {}"
      "(session_step no_json [])\<^sup>*\<^sup>* ?start t" "se_stopped t"
      "dom (ls_seen (se_loop t)) = {9}" "services_of (ls_store (se_loop t)) = set [''googlecast'']"
    using first_services_race [OF blank_load googlecast_datagram,
        where js = no_json and oui = "[]" and ip = 9 and due = False]
    unfolding service_event.simps googlecast_air_def by blast
  then show ?thesis by (intro exI [of _ s] exI [of _ t]) simp
qed

text \<open>A listener without privileges hears one datagram and keeps its service.\<close>

definition quiet_air :: "bytes \<Rightarrow> ipv4 \<Rightarrow> air" where
  "quiet_air data ip =
     \<lparr>air_raw_socket = False, air_arp_table = None, air_polls = [],
      air_mdns = Some [(Datagram data (Some ip), False)], air_frames = None\<rparr>"

theorem session_services_were_sent_witness:
  "\<exists>s. (session_step no_json [])\<^sup>*\<^sup>* (session_init no_json blank_disk
         (session_threads [] None (quiet_air (build_mdns_query ''_googlecast._tcp.local'' 5) 9))) s
     \<and> services_of (ls_store (se_loop s)) = {''googlecast''}
     \<and> ''googlecast'' \<in> sent_services
         (session_threads [] None (quiet_air (build_mdns_query ''_googlecast._tcp.local'' 5) 9)) s"
proof -
  let ?ev = "\<lparr>sev_ip = 9, sev_services = [''googlecast'']\<rparr>"
  let ?e = "\<lparr>entry_ip = sev_ip ?ev, entry_mac = mac_broadcast\<rparr>"
  let ?threads = "session_threads [] None (quiet_air (build_mdns_query ''_googlecast._tcp.local'' 5) 9)"
  have threads: "?threads = [[[Send_Service ?ev, Send_Entry ?e]]]"
    by (simp add: session_threads_def quiet_air_def detect_capability_def googlecast_datagram datagram_sends_def)
  obtain s where s: "(session_step no_json [])\<^sup>*\<^sup>* (session_init no_json blank_disk ?threads) s"
      "services_of (ls_store (se_loop s)) = {''googlecast''}"
    using race_outcomes(2) [OF blank_load refl, where js = no_json and ev = ?ev and oui = "[]"] unfolding threads by auto
  have inv: "store_inv (store_load no_json blank_disk)" by (simp add: blank_load store_inv_empty)
  have none: "services_of (store_load no_json blank_disk) = {}" by (simp add: blank_load services_of_def)
  from session_services_were_sent [OF inv s(1)] s none show ?thesis by blast
qed

end
