(* ===== verification/Listen_Ending.thy ===== *)
theory Listen_Ending
  imports Listen_Session
begin

text \<open>
  How a session of the listener ends. The threads look at the shutdown flag before each round, and
  every read of theirs has a timeout, so that after Ctrl-C no new round begins; the loop takes what
  is left in the channels, leaves, and waits for the threads. Only a sighting counter at its
  maximum could keep the loop from that.
\<close>

section \<open>Room in the sighting counters\<close>

definition room :: "nat \<Rightarrow> store \<Rightarrow> bool" where
  "room n s \<longleftrightarrow> n < 2 ^ 32 \<and> (\<forall>k r. s k = Some r \<longrightarrow> unat (rec_seen_count r) + n < 2 ^ 32)"

lemma unat_next_count:
  "unat (c :: 32 word) + Suc n < 2 ^ 32 \<Longrightarrow> c \<noteq> - 1 \<and> unat (c + 1) = Suc (unat c)"
proof -
  assume less: "unat c + Suc n < 2 ^ 32"
  have "unat (- 1 :: 32 word) = 2 ^ 32 - 1"
    by (simp add: unsigned_minus_1_eq_mask mask_eq_exp_minus_1)
  with less have "c \<noteq> - 1" by auto
  moreover have "unat (c + 1) = Suc (unat c)"
    using less by (simp add: unat_word_ariths)
  ultimately show ?thesis by simp
qed

lemma sighting_room:
  assumes "unat (rec_seen_count r) + Suc n < 2 ^ 32"
  obtains r' where "record_sighting ip now r = Inr r'" "unat (rec_seen_count r') + n < 2 ^ 32"
  using unat_next_count [OF assms] assms by (simp add: record_sighting_eq)

lemma room_update: "room n s \<Longrightarrow> unat (rec_seen_count r) + n < 2 ^ 32 \<Longrightarrow> room n (s(k \<mapsto> r))"
  by (simp add: room_def)

lemma room_remove: "room n s \<Longrightarrow> room n (s(k := None))"
  by (simp add: room_def)

lemma room_less: "room (Suc n) s \<Longrightarrow> room n s"
  unfolding room_def by (metis Suc_lessD add_Suc_right)

lemma upsert_room:
  assumes inv: "store_inv s" and vals: "values_of vals s" and room: "room (Suc n) s"
  shows "\<exists>s' r. upsert vals now g d s = Inr (s', r) \<and> store_inv s' \<and> room n s'"
proof -
  have counts: "rec_seen_count r \<noteq> - 1" if "s k = Some r" for k r
    using that room unat_next_count by (auto simp: room_def)
  then obtain s' r where step: "upsert vals now g d s = Inr (s', r)"
    using upsert_total_lemma [OF inv vals, of now g d] by (auto simp: returns_iff)
  have "room n s'" using inv vals step
  proof (cases rule: upsert_cases)
    case (take_over m k old r1)
    then obtain r' where "record_sighting (show_ipv4 (dev_ip d)) now old = Inr r'"
      "unat (rec_seen_count r') + n < 2 ^ 32"
      using room sighting_room [of old n] by (metis room_def)
    with take_over show ?thesis
      using room_less [OF room] by (auto intro!: room_update room_remove)
  next
    case (entry key)
    let ?r = "case s key of Some r \<Rightarrow> r
      | None \<Rightarrow> fresh_record key (dev_mac d) (show_ipv4 (dev_ip d)) now (g key) d"
    have "unat (rec_seen_count ?r) + Suc n < 2 ^ 32"
      using room by (auto simp: room_def fresh_record_def split: option.splits)
    then obtain r' where "record_sighting (show_ipv4 (dev_ip d)) now ?r = Inr r'"
      "unat (rec_seen_count r') + n < 2 ^ 32" by (rule sighting_room)
    with entry(2) show ?thesis
      using room_less [OF room] by (auto simp: upsert_entry_def Let_def intro!: room_update)
  qed
  with step upsert_step [OF inv vals step] show ?thesis by blast
qed

section \<open>Every schedule ends\<close>

definition pending :: "session \<Rightarrow> nat" where
  "pending s = length (se_entries s) + length (se_services s)"

text \<open>What is waiting or has still to be sent in the rounds under way.\<close>

definition in_flight :: "session \<Rightarrow> nat" where
  "in_flight s = pending s + sum_list (map (\<lambda>t. length (th_sends t)) (se_threads s))"

text \<open>The flag is set, and no sighting counter can reach its maximum on what is in flight.\<close>

definition closing :: "session \<Rightarrow> bool" where
  "closing s \<longleftrightarrow>
     se_shutdown s \<and> store_inv (ls_store (se_loop s)) \<and> room (in_flight s) (ls_store (se_loop s))"

definition thread_work :: "thread \<Rightarrow> nat" where
  "thread_work t = 2 * length (th_sends t) + (if th_ended t then 0 else 1)"

definition closing_work :: "session \<Rightarrow> nat" where
  "closing_work s =
     pending s + sum_list (map thread_work (se_threads s))
     + (if se_stopped s then 0 else 1) + (if se_joined s then 0 else 1)"

lemma some_values: "store_inv s \<Longrightarrow> \<exists>vals. values_of vals s"
  unfolding values_of_def store_inv_def by (metis finite_distinct_list)

lemma on_entry_room:
  assumes "store_inv (ls_store l)" "values_of vals (ls_store l)" "room (Suc n) (ls_store l)"
  shows "\<exists>l'. on_entry js oui vals now e l = Inr l' \<and> store_inv (ls_store l') \<and> room n (ls_store l')"
  using assms(1) room_less [OF assms(3)]
    upsert_room [OF assms, of now tag_of "(device_from e)\<lparr>dev_vendor := oui_lookup oui (entry_mac e)\<rparr>"]
  by (auto simp: on_entry_def Let_def)

lemma on_services_room:
  assumes "store_inv (ls_store l)" "values_of vals (ls_store l)" "room (Suc n) (ls_store l)"
  shows "\<exists>l'. on_services js oui vals now ev l = Inr l' \<and> store_inv (ls_store l') \<and> room n (ls_store l')"
proof (cases "ls_seen l (sev_ip ev)")
  case (Some m)
  then show ?thesis
    using upsert_room [OF assms, of now tag_of "service_device oui m ev"]
    by (auto simp: on_services_def service_device_def Let_def)
qed (use assms(1) room_less [OF assms(3)] in \<open>auto simp: on_services_def\<close>)

lemma sum_list_thread:
  "i < length ts \<Longrightarrow> sum_list (map f (ts[i := t])) + f (ts ! i) = sum_list (map f ts) + (f t :: nat)"
proof (induction ts arbitrary: i)
  case (Cons a ts)
  then show ?case by (cases i) (simp, fastforce)
qed simp

lemma pending_deliver [simp]: "pending (deliver x s) = Suc (pending s)"
  by (cases x) (simp_all add: pending_def)

lemma pending_set_thread [simp]: "pending (set_thread i t s) = pending s"
  by (simp add: pending_def)

lemma closing_step:
  assumes "closing s" "session_step js oui s t"
  shows "closing t \<and> closing_work t < closing_work s"
  using assms(2)
proof (cases rule: session_step.cases)
  case (iterate i round rounds)
  then show ?thesis using assms(1) by (simp add: closing_def)
next
  case (send i x xs)
  let ?t = "(se_threads s ! i)\<lparr>th_sends := xs\<rparr>"
  have "in_flight t = in_flight s"
    using sum_list_thread [OF send(2), of "\<lambda>t. length (th_sends t)" ?t] send(3)
    by (simp add: in_flight_def send(1))
  moreover have "closing_work t < closing_work s"
    using sum_list_thread [OF send(2), of thread_work ?t] send(3)
    by (simp add: closing_work_def send(1) thread_work_def split: if_splits)
  ultimately show ?thesis using assms(1) by (simp add: closing_def send(1))
next
  case (leave i)
  let ?t = "(se_threads s ! i)\<lparr>th_ended := True\<rparr>"
  have "in_flight t = in_flight s"
    using sum_list_thread [OF leave(2), of "\<lambda>t. length (th_sends t)" ?t]
    by (simp add: in_flight_def leave(1))
  moreover have "closing_work t < closing_work s"
    using sum_list_thread [OF leave(2), of thread_work ?t] leave(5)
    by (simp add: closing_work_def leave(1) thread_work_def)
  ultimately show ?thesis using assms(1) by (simp add: closing_def leave(1))
next
  case (recv_entry e es vals now l)
  have "in_flight s = Suc (in_flight t)" by (simp add: in_flight_def pending_def recv_entry(1,3))
  with on_entry_room [OF _ recv_entry(4), of "in_flight t" js oui now e] assms(1) recv_entry(5)
  have "store_inv (ls_store l) \<and> room (in_flight t) (ls_store l)" by (auto simp: closing_def)
  with assms(1) show ?thesis by (simp add: closing_def recv_entry(1,3) closing_work_def pending_def)
next
  case (recv_service ev evs vals now l)
  have "in_flight s = Suc (in_flight t)" by (simp add: in_flight_def pending_def recv_service(1,3))
  with on_services_room [OF _ recv_service(4), of "in_flight t" js oui now ev] assms(1) recv_service(5)
  have "store_inv (ls_store l) \<and> room (in_flight t) (ls_store l)" by (auto simp: closing_def)
  with assms(1) show ?thesis by (simp add: closing_def recv_service(1,3) closing_work_def pending_def)
next
  case ctrl_c
  then show ?thesis using assms(1) by (simp add: closing_def)
next
  case stop
  then show ?thesis using assms(1) by (simp add: closing_def closing_work_def in_flight_def pending_def)
next
  case join
  then show ?thesis using assms(1) by (simp add: closing_def closing_work_def in_flight_def pending_def)
qed

text \<open>What is left to do always can be done, unless the listener has returned.\<close>

lemma closing_goes_on:
  assumes "closing s" and "\<not> se_joined s"
  shows "\<exists>t. session_step js oui s t"
proof (cases "\<forall>t \<in> set (se_threads s). th_sends t = [] \<and> th_ended t")
  case False
  then obtain i where i: "i < length (se_threads s)"
    "th_sends (se_threads s ! i) \<noteq> [] \<or> \<not> th_ended (se_threads s ! i)"
    by (auto simp: in_set_conv_nth)
  then show ?thesis
    using session_step.send [OF i(1)] session_step.leave [OF i(1)] assms(1)
    by (cases "th_sends (se_threads s ! i)") (auto simp: closing_def)
next
  case True
  have inv: "store_inv (ls_store (se_loop s))" and room: "room (in_flight s) (ls_store (se_loop s))"
    using assms(1) by (simp_all add: closing_def)
  obtain vals where vals: "values_of vals (ls_store (se_loop s))" using some_values [OF inv] by blast
  consider (entry) e es where "\<not> se_stopped s" "se_entries s = e # es"
    | (service) ev evs where "\<not> se_stopped s" "se_services s = ev # evs"
    | (stop) "\<not> se_stopped s" "se_entries s = []" "se_services s = []" | (join) "se_stopped s"
    by (cases "se_entries s"; cases "se_services s") auto
  then show ?thesis
  proof cases
    case entry
    then obtain n where "in_flight s = Suc n" by (simp add: in_flight_def pending_def)
    then obtain l where "on_entry js oui vals 0 e (se_loop s) = Inr l"
      using on_entry_room [OF inv vals, of n js oui 0 e] room by auto
    then show ?thesis using session_step.recv_entry [OF entry vals] by blast
  next
    case service
    then obtain n where "in_flight s = Suc n" by (simp add: in_flight_def pending_def)
    then obtain l where "on_services js oui vals 0 ev (se_loop s) = Inr l"
      using on_services_room [OF inv vals, of n js oui 0 ev] room by auto
    then show ?thesis using session_step.recv_service [OF service vals] by blast
  next
    case stop
    then show ?thesis using session_step.stop assms(1) by (auto simp: closing_def)
  next
    case join
    then show ?thesis using session_step.join True assms(2) by blast
  qed
qed

interpretation closing: terminating_system "session_step js oui" closing se_joined closing_work for js oui
  by unfold_locales (rule closing_step, assumption+, rule closing_goes_on)

section \<open>The end of a session\<close>

text \<open>The registry in memory stays consistent, whatever happens to the file.\<close>

interpretation memory: invariant_system
    "\<lambda>s. \<exists>dk threads. store_inv (store_load js dk) \<and> s = session_init js dk threads"
    "session_step js oui" "\<lambda>s. store_inv (ls_store (se_loop s))" for js oui
proof
  show "\<exists>dk threads. store_inv (store_load js dk) \<and> s = session_init js dk threads \<Longrightarrow>
      store_inv (ls_store (se_loop s))" for s
    by (auto simp: session_init_def listen_init_def)
  show "store_inv (ls_store (se_loop s)) \<Longrightarrow> session_step js oui s t \<Longrightarrow> store_inv (ls_store (se_loop t))" for s t
    by (erule session_stepE) (auto dest: on_entry_services on_services_services)
qed

lemma session_registry_inv:
  "store_inv (store_load js dk) \<Longrightarrow> (session_step js oui)\<^sup>*\<^sup>* (session_init js dk threads) s \<Longrightarrow>
   store_inv (ls_store (se_loop s))"
  using memory.reachable_inv by blast

text \<open>An event can end the loop in one way only.\<close>

lemma event_fails:
  assumes "store_inv (ls_store l)" "values_of vals (ls_store l)"
  defines "E \<equiv> {e. e = Arithmetic_Overflow \<and> (\<exists>k r. ls_store l k = Some r \<and> rec_seen_count r = - 1)}"
  shows "fails_with E (on_entry js oui vals now e l)"
    and "fails_with E (on_services js oui vals now ev l)"
proof -
  have ups: "fails_with E (upsert vals now tag_of d (ls_store l))" for d
    using upsert_total_lemma [OF assms(1,2), of now tag_of d]
    by (auto simp: E_def fails_with_def returns_def split: sum.splits)
  then show "fails_with E (on_entry js oui vals now e l)"
    by (auto simp: on_entry_def Let_def intro!: fails_intros)
  show "fails_with E (on_services js oui vals now ev l)"
    using ups by (auto simp: on_services_def Let_def intro!: fails_intros split: option.split)
qed

text \<open>A thread that has ended has sent what it had read, and the listener returns after all of them.\<close>

definition wound_up :: "session \<Rightarrow> bool" where
  "wound_up s \<longleftrightarrow>
     (\<forall>t \<in> set (se_threads s). th_ended t \<longrightarrow> th_sends t = [])
     \<and> (se_joined s \<longrightarrow> se_stopped s \<and> (\<forall>t \<in> set (se_threads s). th_ended t))"

lemma wound_up_thread:
  assumes "wound_up s" "i < length (se_threads s)" "\<not> th_ended (se_threads s ! i)"
    and "th_ended t \<Longrightarrow> th_sends t = []"
  shows "wound_up (set_thread i t s)"
proof -
  have "\<not> se_joined s" using assms(1-3) nth_mem unfolding wound_up_def by blast
  then show ?thesis
    using assms(1,4) subsetD [OF set_update_subset_insert] by (fastforce simp: wound_up_def)
qed

lemma wound_up_step: "wound_up s \<Longrightarrow> session_step js oui s t \<Longrightarrow> wound_up t"
proof (erule session_stepE)
  fix i round rounds
  assume "wound_up s" "i < length (se_threads s)"
    "se_threads s ! i = \<lparr>th_sends = [], th_rounds = round # rounds, th_ended = False\<rparr>"
    "t = set_thread i \<lparr>th_sends = round, th_rounds = rounds, th_ended = False\<rparr> s"
  then show ?thesis using wound_up_thread [of s i "\<lparr>th_sends = round, th_rounds = rounds, th_ended = False\<rparr>"] by simp
next
  fix i x xs
  assume wound: "wound_up s" and i: "i < length (se_threads s)" "th_sends (se_threads s ! i) = x # xs"
    and t: "t = deliver x (set_thread i ((se_threads s ! i)\<lparr>th_sends := xs\<rparr>) s)"
  have "th_ended (se_threads s ! i) \<longrightarrow> th_sends (se_threads s ! i) = []"
    using wound nth_mem [OF i(1)] unfolding wound_up_def by blast
  then have on: "\<not> th_ended (se_threads s ! i)" using i(2) by simp
  have "wound_up (set_thread i ((se_threads s ! i)\<lparr>th_sends := xs\<rparr>) s)"
    using on by (intro wound_up_thread [OF wound i(1)]) simp_all
  then show ?thesis unfolding wound_up_def t deliver_simps .
next
  fix i
  assume "wound_up s" "i < length (se_threads s)" "th_sends (se_threads s ! i) = []"
    "\<not> th_ended (se_threads s ! i)" "t = set_thread i ((se_threads s ! i)\<lparr>th_ended := True\<rparr>) s"
  then show ?thesis by (simp add: wound_up_thread)
qed (auto simp: wound_up_def)

interpretation session_end: invariant_system "\<lambda>s. \<exists>dk threads. s = session_init js dk threads"
    "session_step js oui" wound_up for js oui
proof
  show "\<exists>dk threads. s = session_init js dk threads \<Longrightarrow> wound_up s" for s
    by (auto simp: wound_up_def session_init_def thread_init_def)
qed (rule wound_up_step)

text \<open>C27: Ctrl-C ends a listening session, however its threads, its channels and its event loop are
  scheduled. From any state that a session reaches with the shutdown flag set, if no sighting
  counter is within the number of messages in flight of its maximum, no run is longer than the
  messages waiting, twice those of the rounds under way and a step for each thread and the loop,
  whatever the network would still have to say; a run that cannot go on has left the loop, its
  threads have ended with all they had read sent, and the listener has returned; and there is such
  a run.\<close>

theorem session_ends_after_ctrl_c:
  assumes "store_inv (store_load js dk)" and "(session_step js oui)\<^sup>*\<^sup>* (session_init js dk threads) s"
    and "se_shutdown s" and "room (in_flight s) (ls_store (se_loop s))"
  shows "(\<forall>n t. (session_step js oui ^^ n) s t \<longrightarrow> n \<le> closing_work s)
    \<and> (\<forall>t. (session_step js oui)\<^sup>*\<^sup>* s t \<and> (\<nexists>u. session_step js oui t u) \<longrightarrow>
         se_joined t \<and> se_stopped t \<and> (\<forall>th \<in> set (se_threads t). th_ended th \<and> th_sends th = []))
    \<and> (\<exists>t. (session_step js oui)\<^sup>*\<^sup>* s t \<and> se_joined t)"
proof (intro conjI allI impI)
  have good: "closing s" using session_registry_inv [OF assms(1,2)] assms(3,4) by (simp add: closing_def)
  show "n \<le> closing_work s" if "(session_step js oui ^^ n) s t" for n t
    using closing.run_bounded [OF that good] by simp
  obtain n t where "(session_step js oui ^^ n) s t" "se_joined t"
    using closing.finishes [OF good] by blast
  then show "\<exists>t. (session_step js oui)\<^sup>*\<^sup>* s t \<and> se_joined t" using relpowp_imp_rtranclp by fastforce
  fix t
  assume t: "(session_step js oui)\<^sup>*\<^sup>* s t \<and> (\<nexists>u. session_step js oui t u)"
  then show joined: "se_joined t" using closing.stuck_final good by blast
  have "wound_up t" using session_end.reachable_inv [OF _ rtranclp_trans [OF assms(2)]] t by blast
  with joined show "se_stopped t" "\<forall>th \<in> set (se_threads t). th_ended th \<and> th_sends th = []"
    by (auto simp: wound_up_def)
qed

theorem session_ends_after_ctrl_c_witness:
  "\<exists>(s :: session) t. in_flight s = 1 \<and> closing_work s = 5 \<and> (session_step no_json [])\<^sup>*\<^sup>* s t \<and> se_joined t"
proof -
  let ?x = "Send_Entry (mdns_entry 5)" and ?y = "Send_Entry (mdns_entry 6)"
  let ?opening = "session_init no_json blank_disk [[[?x], [?y]]]"
  let ?read = "?opening\<lparr>se_threads := [\<lparr>th_sends = [?x], th_rounds = [[?y]], th_ended = False\<rparr>]\<rparr>"
  let ?s = "?read\<lparr>se_shutdown := True\<rparr>"
  have "session_step no_json [] ?opening ?read"
    using begin_round [of ?opening "[?x]" "[[?y]]"] by (simp add: session_init_def thread_init_def)
  moreover have "session_step no_json [] ?read ?s" by (rule session_step.ctrl_c) (simp add: session_init_def)
  ultimately have run: "(session_step no_json [])\<^sup>*\<^sup>* ?opening ?s" by (meson converse_rtranclp_into_rtranclp r_into_rtranclp)
  have inv: "store_inv (store_load no_json blank_disk)" by (simp add: store_inv_empty)
  have s: "in_flight ?s = 1" "closing_work ?s = 5" "se_shutdown ?s" "room (in_flight ?s) (ls_store (se_loop ?s))"
    by (simp_all add: in_flight_def pending_def closing_work_def thread_work_def session_init_def
        listen_init_def room_def)
  with session_ends_after_ctrl_c [OF inv run s(3,4)] show ?thesis by blast
qed

end
