(* ===== verification/Commands.thy ===== *)
theory Commands
  imports "HOL-Library.List_Lexorder" "HOL-Library.Char_ord" Survey Listen_Session Sweep Arp_Scan
    Mdns Fingerprint Classify Namer Oui Registry_File
begin

text \<open>
  \<open>cli/commands.rs\<close>: the subcommands over the components of the other theories, and their tables.
  What the network, the clock, the file system and the JSON library answer are arguments; a hash
  map's order is one too. \<open>process::exit\<close> is the panic value \<open>Process_Exit\<close>.
\<close>

section \<open>The subnet to scan\<close>

definition cli_network_base :: "ipv4 \<Rightarrow> byte \<Rightarrow> ipv4 outcome" where
  "cli_network_base ip p = outcome_bind (netmask p) (\<lambda>m. Inr (ip AND m))"

interpretation cli_subnets: subnet_base cli_network_base
  by unfold_locales (simp add: cli_network_base_def)

fun first_network :: "ip_network list \<Rightarrow> (ipv4 \<times> byte) option" where
  "first_network [] = None"
| "first_network (V4_Network ip p # rest) = Some (ip, p)"
| "first_network (V6_Network # rest) = first_network rest"

definition based :: "ipv4 \<Rightarrow> byte \<Rightarrow> (ipv4 \<times> byte) outcome" where
  "based ip p = outcome_bind (cli_network_base ip p) (\<lambda>b. Inr (b, p))"

definition auto_subnet :: "os_view \<Rightarrow> string option \<Rightarrow> (ipv4 \<times> byte) outcome" where
  "auto_subnet os iface =
     (case Option.bind (find_interface (os_pnet os) iface) (\<lambda>i. first_network (ni_ips i)) of
        Some (ip, p) \<Rightarrow> based ip p
      | None \<Rightarrow>
          (case Option.bind (find_local_interface os iface)
                  (\<lambda>i. case li_ips i of [] \<Rightarrow> None | a # _ \<Rightarrow> Some a) of
             Some (ip, p) \<Rightarrow> based ip p
           | None \<Rightarrow> Inr (ipv4_new 192 168 1 0, 24)))"

definition parse_subnet :: "string \<Rightarrow> (ipv4 \<times> byte) outcome" where
  "parse_subnet input =
     (case split_once CHR ''/'' input of
        None \<Rightarrow> Inl (Process_Exit 1)
      | Some (ip_str, prefix_str) \<Rightarrow>
          (case parse_ipv4 ip_str of None \<Rightarrow> Inl (Process_Exit 1)
           | Some ip \<Rightarrow>
               (case parse_u8 prefix_str of None \<Rightarrow> Inl (Process_Exit 1)
                | Some p \<Rightarrow> if 32 < p then Inl (Process_Exit 1) else Inr (ip, p))))"

section \<open>The devices of a scan\<close>

definition with_mdns :: "mdns_result option \<Rightarrow> device \<Rightarrow> device" where
  "with_mdns m d =
     (case m of None \<Rightarrow> d
      | Some r \<Rightarrow> d\<lparr>dev_hostname := Some (mdns_hostname r), dev_services := mdns_services r\<rparr>)"

definition arp_device :: "string \<Rightarrow> (ipv4 \<rightharpoonup> mdns_result) \<Rightarrow> arp_entry \<Rightarrow> device" where
  "arp_device oui names e =
     with_mdns (names (entry_ip e)) ((device_from e)\<lparr>dev_vendor := oui_lookup oui (entry_mac e)\<rparr>)"

definition sweep_device :: "(ipv4 \<rightharpoonup> mdns_result) \<Rightarrow> ipv4 \<Rightarrow> device" where
  "sweep_device names ip = with_mdns (names ip) (from_sweep ip)"

definition apply_fingerprint :: "fingerprint_result \<Rightarrow> device \<Rightarrow> device" where
  "apply_fingerprint fp d = d\<lparr>dev_os_hint := fr_os_hint fp\<rparr>"

text \<open>\<open>devices.iter_mut().find(..)\<close>: the first device with the address, and no other.\<close>

fun update_first :: "ipv4 \<Rightarrow> (device \<Rightarrow> device) \<Rightarrow> device list \<Rightarrow> device list" where
  "update_first ip f [] = []"
| "update_first ip f (d # ds) = (if dev_ip d = ip then f d # ds else d # update_first ip f ds)"

text \<open>The loop over the hash map of fingerprints, its keys in the order of \<open>keys\<close>.\<close>

fun apply_fingerprints ::
  "ipv4 list \<Rightarrow> (ipv4 \<rightharpoonup> fingerprint_result option) \<Rightarrow> device list \<Rightarrow> device list" where
  "apply_fingerprints [] m ds = ds"
| "apply_fingerprints (ip # keys) m ds =
     apply_fingerprints keys m
       (case m ip of Some (Some fp) \<Rightarrow> update_first ip (apply_fingerprint fp) ds | _ \<Rightarrow> ds)"

definition scan_devices ::
  "string \<Rightarrow> arp_entry list \<Rightarrow> ipv4 list \<Rightarrow> (ipv4 \<rightharpoonup> mdns_result) \<Rightarrow>
   ipv4 list \<Rightarrow> (ipv4 \<rightharpoonup> fingerprint_result option) \<Rightarrow> device list" where
  "scan_devices oui arp_entries sweep_results names keys fps =
     sort_key dev_ip
       (map device_classify
         (apply_fingerprints keys fps
           (map (arp_device oui names) arp_entries @ map (sweep_device names) sweep_results)))"

text \<open>Every device goes into the registry and gets the tag of its record. \<open>order\<close> lists the values
  of the hash map (no registry comes twice in a run, since each upsert counts a sighting), and
  \<open>clock\<close> is read with the number of devices still to come.\<close>

fun upsert_all ::
  "(store \<Rightarrow> stored list) \<Rightarrow> (nat \<Rightarrow> 64 word) \<Rightarrow> device list \<Rightarrow> store \<Rightarrow>
   (store \<times> (device \<times> string) list) outcome" where
  "upsert_all order clock [] s = Inr (s, [])"
| "upsert_all order clock (d # ds) s =
     (case upsert (order s) (clock (length ds)) tag_of d s of Inl e \<Rightarrow> Inl e
      | Inr (s', r) \<Rightarrow>
          (case upsert_all order clock ds s' of Inl e \<Rightarrow> Inl e
           | Inr (s'', tagged) \<Rightarrow>
               Inr (s'', (d, case rec_tag r of None \<Rightarrow> ''-'' | Some t \<Rightarrow> t) # tagged)))"

section \<open>The scan\<close>

text \<open>What the network answers: the ARP replies collected, the hosts alive to the sweep in the
  order its hash set lists them, and the lookups of names and fingerprints in the order they
  complete for the addresses asked.\<close>

record network =
  nw_arp :: "arp_entry list option"
  nw_alive :: "ipv4 list"
  nw_names :: "ipv4 list \<Rightarrow> (ipv4 \<times> mdns_result option) list"
  nw_fingerprints :: "ipv4 list \<Rightarrow> (ipv4 \<times> fingerprint_result option) list"

definition swept :: "ipv4 list \<Rightarrow> sweep_state \<Rightarrow> ipv4 list" where
  "swept alive st = filter (\<lambda>ip. ip \<in> set (sw_waiting st)) (remdups alive)"

definition scan_found ::
  "os_view \<Rightarrow> string \<Rightarrow> network \<Rightarrow> ipv4 \<times> byte \<Rightarrow> string option \<Rightarrow> device list outcome" where
  "scan_found os oui nw subnet iface =
     (case subnet of (base, p) \<Rightarrow>
        outcome_bind (scan_subnet os base p iface (nw_arp nw)) (\<lambda>(frames, arp_entries).
        outcome_bind (sweep_subnet_start os base p (entry_ip ` set arp_entries) iface) (\<lambda>st.
          (let sweep_results = swept (nw_alive nw) st;
               all_ips = map entry_ip arp_entries @ sweep_results;
               names = resolve_bulk (nw_names nw all_ips);
               completed = nw_fingerprints nw all_ips
           in Inr (if all_ips = [] then []
                   else scan_devices oui arp_entries sweep_results names
                          (retain_new [] (map fst completed)) (probe_bulk completed Map.empty))))))"

record scan_report =
  sc_subnet :: "ipv4 \<times> byte"
  sc_tagged :: "(device \<times> string) list"
  sc_saved :: bool

definition scan_subnet_arg :: "os_view \<Rightarrow> string option \<Rightarrow> string option \<Rightarrow> (ipv4 \<times> byte) outcome" where
  "scan_subnet_arg os subnet iface =
     (case subnet of Some input \<Rightarrow> parse_subnet input | None \<Rightarrow> auto_subnet os iface)"

definition scan ::
  "os_view \<Rightarrow> string \<Rightarrow> network \<Rightarrow> json_codec \<Rightarrow> (store \<Rightarrow> stored list) \<Rightarrow> (nat \<Rightarrow> 64 word) \<Rightarrow>
   string option \<Rightarrow> string option \<Rightarrow> disk \<Rightarrow> (disk \<times> scan_report) outcome" where
  "scan os oui nw js order clock subnet iface dk =
     outcome_bind (scan_subnet_arg os subnet iface) (\<lambda>net.
     outcome_bind (scan_found os oui nw net iface) (\<lambda>devices.
       if devices = [] then Inr (dk, \<lparr>sc_subnet = net, sc_tagged = [], sc_saved = False\<rparr>)
       else
         outcome_bind (upsert_all order clock devices (store_load js dk)) (\<lambda>(s, tagged).
           (case store_save js s dk of (dk', ok) \<Rightarrow>
              Inr (dk', \<lparr>sc_subnet = net, sc_tagged = tagged, sc_saved = ok\<rparr>)))))"

section \<open>The tables printed\<close>

definition services_cell :: "string list \<Rightarrow> string" where
  "services_cell svcs = (if svcs = [] then ''-'' else join_with '', '' svcs)"

text \<open>A row pads every cell but the last to its width and puts a space between cells.\<close>

definition table_row :: "nat list \<Rightarrow> string list \<Rightarrow> string" where
  "table_row widths cells =
     join_with '' '' (map (\<lambda>(w, c). pad w c) (zip widths (butlast cells)) @ [last cells])"

definition scan_widths :: "nat list" where
  "scan_widths = [16, 18, 26, 22, 20, 20, 16]"

definition arp_row :: "device \<times> string \<Rightarrow> string" where
  "arp_row dt =
     (case dt of (d, tag) \<Rightarrow>
        table_row scan_widths
          [show_ipv4 (dev_ip d), or_dash (map_option show_mac (dev_mac d)), or_dash (dev_vendor d), tag,
           or_dash (dev_hostname d), or_dash (dev_os_hint d),
           or_dash (map_option category_as_str (dev_category d)), services_cell (dev_services d)])"

definition sweep_row :: "device \<times> string \<Rightarrow> string" where
  "sweep_row dt =
     (case dt of (d, tag) \<Rightarrow>
        table_row scan_widths
          [show_ipv4 (dev_ip d), ''-'', ''-'', tag,
           or_dash (dev_hostname d), or_dash (dev_os_hint d),
           or_dash (map_option category_as_str (dev_category d)), services_cell (dev_services d)])"

definition scan_output :: "scan_report \<Rightarrow> string list" where
  "scan_output rp =
     (let arp_tagged = filter (\<lambda>(d, _). dev_via d = Arp) (sc_tagged rp);
          sweep_tagged = filter (\<lambda>(d, _). dev_via d \<noteq> Arp) (sc_tagged rp);
          header = table_row scan_widths
            [''IP'', ''MAC'', ''Vendor'', ''Tag'', ''Hostname'', ''OS Hint'', ''Category'', ''Services''];
          rule = replicate 160 CHR ''-''
      in if sc_tagged rp = [] then [''No devices found.'']
         else
           (if arp_tagged = [] then [] else header # rule # map arp_row arp_tagged)
           @ (if sweep_tagged = [] then []
              else [[], ''Additional hosts (no MAC):'', rule] @ map sweep_row sweep_tagged)
           @ [[], ''Found '' @ show_nat (length (sc_tagged rp)) @ '' device(s).''])"

section \<open>The other commands\<close>

text \<open>\<open>tag\<close> looks for the record of an address only; \<open>None\<close> stands for no record.\<close>

definition tag_command :: "json_codec \<Rightarrow> string \<Rightarrow> string \<Rightarrow> disk \<Rightarrow> (disk \<times> bool) outcome" where
  "tag_command js ip tag dk =
     (case parse_ipv4 ip of None \<Rightarrow> Inl (Process_Exit 1)
      | Some ip_addr \<Rightarrow>
          (case set_tag None ip_addr tag (store_load js dk) of
             (s, True) \<Rightarrow> Inr (fst (store_save js s dk), True)
           | (s, False) \<Rightarrow> Inr (dk, False)))"

definition tag_output :: "string \<Rightarrow> string \<Rightarrow> bool \<Rightarrow> string" where
  "tag_output ip tag tagged =
     (if tagged then ''Tagged '' @ ip @ '' as '' @ [CHR 0x22] @ tag @ [CHR 0x22, CHR ''.'']
      else ''No record found for '' @ ip @ ''.'')"

definition list_records :: "(store \<Rightarrow> stored list) \<Rightarrow> store \<Rightarrow> stored list" where
  "list_records order s = rev (sort_key rec_last_seen (order s))"

definition list_widths :: "nat list" where
  "list_widths = [22, 16, 18, 26, 16, 20]"

definition list_row :: "stored \<Rightarrow> string" where
  "list_row r =
     table_row list_widths
       [or_dash (rec_tag r), rec_last_ip r, or_dash (rec_mac r), or_dash (rec_vendor r),
        or_dash (map_option category_as_str (rec_category r)), or_dash (rec_hostname r),
        services_cell (rec_services r)]"

definition list_command :: "json_codec \<Rightarrow> (store \<Rightarrow> stored list) \<Rightarrow> disk \<Rightarrow> string list" where
  "list_command js order dk =
     (let records = list_records order (store_load js dk)
      in [table_row list_widths
            [''Tag'', ''Last IP'', ''MAC'', ''Vendor'', ''Category'', ''Hostname'', ''Services''],
          replicate 140 CHR ''-'']
         @ map list_row records
         @ [[], show_nat (length records) @ '' device(s) in store.''])"

text \<open>\<open>survey\<close> enters the network address of each subnet with live hosts as a device.\<close>

fun survey_upserts ::
  "(store \<Rightarrow> stored list) \<Rightarrow> (nat \<Rightarrow> 64 word) \<Rightarrow> discovered_subnet list \<Rightarrow> store \<Rightarrow> store outcome" where
  "survey_upserts order clock [] s = Inr s"
| "survey_upserts order clock (d # ds) s =
     (if 0 < (case ds_host_count d of None \<Rightarrow> 0 | Some n \<Rightarrow> n)
      then (case upsert (order s) (clock (length ds)) tag_of (from_sweep (ds_network d)) s of
              Inl e \<Rightarrow> Inl e | Inr (s', _) \<Rightarrow> survey_upserts order clock ds s')
      else survey_upserts order clock ds s)"

definition live_count :: "discovered_subnet list \<Rightarrow> nat" where
  "live_count ds = sum_list (map (\<lambda>d. case ds_host_count d of None \<Rightarrow> 0 | Some n \<Rightarrow> n) ds)"

definition survey_command ::
  "json_codec \<Rightarrow> (store \<Rightarrow> stored list) \<Rightarrow> (nat \<Rightarrow> 64 word) \<Rightarrow> discovered_subnet list outcome \<Rightarrow> disk \<Rightarrow>
   (disk \<times> discovered_subnet list) outcome" where
  "survey_command js order clock surveyed dk =
     outcome_bind surveyed (\<lambda>subnets.
       if subnets = [] then Inr (dk, [])
       else
         outcome_bind (survey_upserts order clock subnets (store_load js dk)) (\<lambda>s.
           Inr (if list_ex (\<lambda>d. 0 < (case ds_host_count d of None \<Rightarrow> 0 | Some n \<Rightarrow> n)) subnets
                then fst (store_save js s dk) else dk, subnets)))"

fun source_name :: "subnet_source \<Rightarrow> string" where
  "source_name GatewayRoute = ''GatewayRoute''"
| "source_name DhcpOffer = ''DhcpOffer''"
| "source_name UpnpDiscovery = ''UpnpDiscovery''"
| "source_name AdjacentSweep = ''AdjacentSweep''"
| "source_name CommonPrivate = ''CommonPrivate''"

definition survey_row :: "discovered_subnet \<Rightarrow> string" where
  "survey_row d =
     pad 20 (show_ipv4 (ds_network d)) @ '' /'' @ pad 7 (show_nat (unat (ds_prefix d))) @ '' ''
     @ pad 10 (case ds_host_count d of None \<Rightarrow> ''?'' | Some n \<Rightarrow> show_nat n) @ '' ''
     @ pad 18 (source_name (ds_source d)) @ '' '' @ pad 18 (or_dash (map_option show_ipv4 (ds_gateway d)))"

definition survey_output :: "discovered_subnet list \<Rightarrow> string list" where
  "survey_output subnets =
     (if subnets = [] then [''No additional networks discovered.'']
      else
        [join_with '' '' [pad 20 ''Network'', pad 8 ''Prefix'', pad 10 ''Hosts'', pad 18 ''Source'', pad 18 ''Gateway''],
         replicate 80 CHR ''-'']
        @ map survey_row subnets
        @ [[], show_nat (length subnets) @ '' network(s) found, '' @ show_nat (live_count subnets) @ '' live host(s).''])"

section \<open>Parsing a subnet\<close>

lemma show_nat_no_char: "(\<And>d. d < 10 \<Longrightarrow> c \<noteq> digit_char d) \<Longrightarrow> c \<notin> set (show_nat n)"
  using show_nat_digits by blast

lemma digit_char_not: "of_char c < (48 :: nat) \<Longrightarrow> d < 10 \<Longrightarrow> c \<noteq> digit_char d"
  using of_char_digit_char [of d] by force

lemma show_ipv4_no_slash: "CHR ''/'' \<notin> set (show_ipv4 ip)"
proof -
  have "CHR ''/'' \<notin> set (show_nat n)" for n
    by (rule show_nat_no_char) (rule digit_char_not, simp_all)
  then show ?thesis by (simp add: show_ipv4_def octets_def)
qed

lemma parse_u8_show: "parse_u8 (show_nat (unat p)) = Some p"
proof -
  have "hd (show_nat (unat p)) \<noteq> CHR ''+''"
  proof -
    obtain d where "d < 10" "hd (show_nat (unat p)) = digit_char d"
      using show_nat_digits [of "hd (show_nat (unat p))" "unat p"] by auto
    moreover have "CHR ''+'' \<noteq> digit_char d" if "d < 10" for d
      using that by (intro digit_char_not) simp_all
    ultimately show ?thesis by metis
  qed
  then have "(case show_nat (unat p) of c # cs \<Rightarrow> if c = CHR ''+'' then cs else show_nat (unat p) | [] \<Rightarrow> [])
      = show_nat (unat p)"
    by (cases "show_nat (unat p)") auto
  then show ?thesis
    using byte_le_255 [of p]
    by (simp add: parse_u8_def from_str_radix_def digits_val_show_nat)
qed

lemma parse_subnet_show:
  "parse_subnet (show_ipv4 ip @ CHR ''/'' # t) =
     (case parse_u8 t of None \<Rightarrow> Inl (Process_Exit 1)
      | Some p \<Rightarrow> if 32 < p then Inl (Process_Exit 1) else Inr (ip, p))"
  by (simp add: parse_subnet_def split_once_append [OF show_ipv4_no_slash] parse_show_ipv4)

text \<open>C40: the subnet argument. It is accepted exactly if it is an address as the program prints it,
  a slash and a number of at most 32; anything else ends the program with exit code 1, and an
  address and prefix that are printed are read back.\<close>

theorem parse_subnet_exact:
  "(parse_subnet input = Inr (ip, p) \<longleftrightarrow>
      (\<exists>t. input = show_ipv4 ip @ CHR ''/'' # t \<and> parse_u8 t = Some p \<and> p \<le> 32))
   \<and> parse_subnet input \<in> range Inr \<union> {Inl (Process_Exit 1)}
   \<and> parse_subnet (show_ipv4 ip @ CHR ''/'' # show_nat (unat p)) =
       (if p \<le> 32 then Inr (ip, p) else Inl (Process_Exit 1))"
proof (intro conjI)
  show "parse_subnet input = Inr (ip, p) \<longleftrightarrow>
      (\<exists>t. input = show_ipv4 ip @ CHR ''/'' # t \<and> parse_u8 t = Some p \<and> p \<le> 32)"
  proof
    assume "parse_subnet input = Inr (ip, p)"
    then obtain s t where "split_once CHR ''/'' input = Some (s, t)" "parse_ipv4 s = Some ip"
      "parse_u8 t = Some p" "p \<le> 32"
      by (auto simp: parse_subnet_def split: option.splits prod.splits if_splits)
    then show "\<exists>t. input = show_ipv4 ip @ CHR ''/'' # t \<and> parse_u8 t = Some p \<and> p \<le> 32"
      by (auto dest: split_once_Some show_parse_ipv4)
  qed (auto simp: parse_subnet_show)
  show "parse_subnet input \<in> range Inr \<union> {Inl (Process_Exit 1)}"
    by (auto simp: parse_subnet_def split: option.splits prod.splits)
  show "parse_subnet (show_ipv4 ip @ CHR ''/'' # show_nat (unat p)) =
       (if p \<le> 32 then Inr (ip, p) else Inl (Process_Exit 1))"
    by (auto simp: parse_subnet_show parse_u8_show)
qed

text \<open>The whole range of prefixes the argument allows is scanned but one: with a source address,
  a scan of a prefix from 1 to 32 gets to its devices, while \<open>/0\<close>, which the argument check lets
  through, panics in the mask.\<close>

theorem scan_prefix_range:
  assumes "find_source_ip os iface = Some src"
  shows "scan os oui nw js order clock (Some (show_ipv4 ip @ CHR ''/'' # show_nat 0)) iface dk
      = Inl Shift_Overflow
    \<and> (1 \<le> unat p \<and> unat p \<le> 32 \<longrightarrow> returns (scan_found os oui nw (ip, p) iface))"
proof
  have zero: "addresses ip 0 = Inl Shift_Overflow" for ip by (simp add: addresses_def netmask_eq)
  have "parse_subnet (show_ipv4 ip @ CHR ''/'' # show_nat 0) = Inr (ip, 0)"
    using parse_u8_show [of 0] by (simp add: parse_subnet_show)
  moreover have "scan_found os oui nw (ip, 0) iface = Inl Shift_Overflow"
    by (auto simp: scan_found_def scan_subnet_def sweep_subnet_start_def assms subnet_iter_def
        sweep_hosts_def zero split: option.splits)
  ultimately show "scan os oui nw js order clock (Some (show_ipv4 ip @ CHR ''/'' # show_nat 0)) iface dk
      = Inl Shift_Overflow"
    by (simp add: scan_def scan_subnet_arg_def)
  show "1 \<le> unat p \<and> unat p \<le> 32 \<longrightarrow> returns (scan_found os oui nw (ip, p) iface)"
  proof
    assume "1 \<le> unat p \<and> unat p \<le> 32"
    then have "returns (addresses ip p)" by (simp add: addresses_returns good_prefix_def)
    then obtain ips where ips: "addresses ip p = Inr ips" by (auto simp: returns_iff)
    show "returns (scan_found os oui nw (ip, p) iface)"
      by (auto simp: scan_found_def scan_subnet_def sweep_subnet_start_def assms subnet_iter_def
          sweep_targets_def sweep_hosts_def ips Let_def split: option.splits)
  qed
qed

theorem scan_prefix_range_witness:
  "\<forall>oui nw js order clock dk. scan sample_os oui nw js order clock (Some ''10.0.0.0/0'') None dk
     = Inl Shift_Overflow"
proof -
  have "find_source_ip sample_os None = Some (ipv4_new 192 168 1 10)"
    by (simp add: find_source_ip_def sample_os_def find_interface_def suitable_def is_ipv4_def
        first_ipv4_def)
  moreover have "show_ipv4 (ipv4_new 10 0 0 0) @ CHR ''/'' # show_nat 0 = ''10.0.0.0/0''"
    by code_simp
  ultimately show ?thesis using scan_prefix_range [of sample_os None, THEN conjunct1] by metis
qed

section \<open>The devices of a scan\<close>

lemma arp_device_simps [simp]:
  "dev_ip (arp_device oui names e) = entry_ip e" "dev_mac (arp_device oui names e) = Some (entry_mac e)"
  "dev_via (arp_device oui names e) = Arp"
  by (simp_all add: arp_device_def with_mdns_def split: option.splits)

lemma sweep_device_simps [simp]:
  "dev_ip (sweep_device names ip) = ip" "dev_mac (sweep_device names ip) = None"
  "dev_via (sweep_device names ip) = Sweep"
  by (simp_all add: sweep_device_def with_mdns_def split: option.splits)

text \<open>What the fingerprints make of a device.\<close>

definition fingerprinted :: "(ipv4 \<rightharpoonup> fingerprint_result option) \<Rightarrow> device \<Rightarrow> device" where
  "fingerprinted fps d =
     (case fps (dev_ip d) of Some (Some fp) \<Rightarrow> apply_fingerprint fp d | _ \<Rightarrow> d)"

lemma apply_fingerprint_simps [simp]:
  "dev_ip (apply_fingerprint fp d) = dev_ip d" "dev_mac (apply_fingerprint fp d) = dev_mac d"
  "dev_via (apply_fingerprint fp d) = dev_via d"
  by (simp_all add: apply_fingerprint_def)

lemma fingerprinted_simps [simp]:
  "dev_ip (fingerprinted fps d) = dev_ip d" "dev_mac (fingerprinted fps d) = dev_mac d"
  "dev_via (fingerprinted fps d) = dev_via d"
  by (simp_all add: fingerprinted_def split: option.splits)

lemma device_classify_simps [simp]:
  "dev_ip (device_classify d) = dev_ip d" "dev_mac (device_classify d) = dev_mac d"
  "dev_via (device_classify d) = dev_via d" "dev_category (device_classify d) = Some (classify d)"
  by (simp_all add: device_classify_def)

lemma update_first_map:
  "distinct (map dev_ip ds) \<Longrightarrow>
   update_first ip f ds = map (\<lambda>d. if dev_ip d = ip then f d else d) ds"
  by (induction ds) (auto simp: image_iff intro!: map_idI [symmetric])

lemma update_first_ips:
  "(\<And>d. dev_ip (f d) = dev_ip d) \<Longrightarrow> map dev_ip (update_first ip f ds) = map dev_ip ds"
  by (induction ds) auto

lemma apply_fingerprints_ips: "map dev_ip (apply_fingerprints keys fps ds) = map dev_ip ds"
  by (induction keys fps ds rule: apply_fingerprints.induct)
    (simp_all add: update_first_ips split: option.splits)

lemma apply_fingerprints_map:
  "distinct (map dev_ip ds) \<Longrightarrow> distinct keys \<Longrightarrow>
   apply_fingerprints keys fps ds =
     map (\<lambda>d. if dev_ip d \<in> set keys then fingerprinted fps d else d) ds"
proof (induction keys fps ds rule: apply_fingerprints.induct)
  case (2 ip keys fps ds)
  show ?case
  proof (cases "\<exists>fp. fps ip = Some (Some fp)")
    case True
    then obtain fp where fp: "fps ip = Some (Some fp)" by blast
    let ?ds = "update_first ip (apply_fingerprint fp) ds"
    have "distinct (map dev_ip ?ds)" using 2(2) by (simp add: update_first_ips)
    with 2(1,3) fp have "apply_fingerprints (ip # keys) fps ds
        = map (\<lambda>d. if dev_ip d \<in> set keys then fingerprinted fps d else d) ?ds"
      by simp
    also have "\<dots> = map (\<lambda>d. if dev_ip d \<in> set (ip # keys) then fingerprinted fps d else d) ds"
      unfolding update_first_map [OF 2(2)] map_map
      using 2(3) fp by (auto simp: fingerprinted_def)
    finally show ?thesis .
  next
    case False
    then have same: "(case fps ip of Some (Some fp) \<Rightarrow> update_first ip (apply_fingerprint fp) ds | _ \<Rightarrow> ds) = ds"
      by (auto split: option.splits)
    then have "apply_fingerprints (ip # keys) fps ds = apply_fingerprints keys fps ds" by simp
    also have "\<dots> = map (\<lambda>d. if dev_ip d \<in> set keys then fingerprinted fps d else d) ds"
      using 2(1) [unfolded same] 2(2,3) by simp
    finally show ?thesis using False by (auto simp: fingerprinted_def split: option.splits)
  qed
qed simp

lemma scan_devices_facts:
  assumes "distinct (map entry_ip es @ hits)" and "distinct keys" and "set keys = dom fps"
  shows "set (scan_devices oui es hits names keys fps) =
      (device_classify \<circ> fingerprinted fps) ` (arp_device oui names ` set es \<union> sweep_device names ` set hits)
    \<and> set (map dev_ip (scan_devices oui es hits names keys fps)) = entry_ip ` set es \<union> set hits
    \<and> sorted_wrt (<) (map dev_ip (scan_devices oui es hits names keys fps))"
proof -
  let ?ds = "map (arp_device oui names) es @ map (sweep_device names) hits"
  have ips: "map dev_ip ?ds = map entry_ip es @ hits" by (simp add: comp_def)
  have "apply_fingerprints keys fps ?ds = map (fingerprinted fps) ?ds"
    unfolding apply_fingerprints_map [OF assms(1) [folded ips] assms(2)] assms(3)
    by (auto simp: fingerprinted_def split: option.splits)
  then have found: "scan_devices oui es hits names keys fps
      = sort_key dev_ip (map (device_classify \<circ> fingerprinted fps) ?ds)"
    by (simp add: scan_devices_def comp_assoc)
  have "map dev_ip (map (device_classify \<circ> fingerprinted fps) ?ds) = map entry_ip es @ hits"
    by (simp add: comp_def)
  then have "mset (map dev_ip (scan_devices oui es hits names keys fps)) = mset (map entry_ip es @ hits)"
    unfolding found by (metis mset_map mset_sort)
  moreover have "sorted (map dev_ip (scan_devices oui es hits names keys fps))"
    unfolding found by (rule sorted_sort_key)
  ultimately have "sorted_wrt (<) (map dev_ip (scan_devices oui es hits names keys fps))"
    and "set (map dev_ip (scan_devices oui es hits names keys fps)) = entry_ip ` set es \<union> set hits"
    using assms(1) by (metis mset_eq_imp_distinct_iff strict_sorted_iff)
      (metis mset_eq_setD set_append set_map \<open>mset _ = mset _\<close>)
  then show ?thesis unfolding found by (simp add: image_Un image_comp comp_assoc)
qed

text \<open>What a scan makes of the hosts found. With one ARP entry for each address, and none for an
  address that the sweep reports, there is one device for each address, in the order of the
  addresses, with the vendor of its MAC, its mDNS name and services, its own fingerprint and the
  category of just that; in which order the hash map lists the fingerprints does not matter.\<close>

theorem scan_devices_exact:
  assumes "distinct (map entry_ip es @ hits)" and "distinct keys" and "set keys = dom fps"
  shows "set (scan_devices oui es hits names keys fps) =
      (device_classify \<circ> fingerprinted fps) ` (arp_device oui names ` set es \<union> sweep_device names ` set hits)
    \<and> set (map dev_ip (scan_devices oui es hits names keys fps)) = entry_ip ` set es \<union> set hits
    \<and> sorted_wrt (<) (map dev_ip (scan_devices oui es hits names keys fps))"
  by (rule scan_devices_facts [OF assms])

section \<open>The registry after a command\<close>

text \<open>Any order in which the hash map may list its records.\<close>

definition lists_values :: "(store \<Rightarrow> stored list) \<Rightarrow> bool" where
  "lists_values order \<longleftrightarrow> (\<forall>s. finite (dom s) \<longrightarrow> values_of (order s) s)"

lemma lists_valuesD: "lists_values order \<Longrightarrow> store_inv s \<Longrightarrow> values_of (order s) s"
  by (simp add: lists_values_def store_inv_def)

lemma upsert_all_inv:
  "store_inv s \<Longrightarrow> lists_values order \<Longrightarrow> upsert_all order clock ds s = Inr (s', tagged) \<Longrightarrow>
   store_inv s' \<and> map fst tagged = ds"
proof (induction ds arbitrary: s tagged)
  case (Cons d ds)
  from Cons.prems(3) obtain s1 r tagged' where
    step: "upsert (order s) (clock (length ds)) tag_of d s = Inr (s1, r)"
    and rest: "upsert_all order clock ds s1 = Inr (s', tagged')"
    and tagged: "tagged = (d, case rec_tag r of None \<Rightarrow> ''-'' | Some t \<Rightarrow> t) # tagged'"
    by (auto split: sum.splits prod.splits)
  have "store_inv s1"
    using upsert_step [OF Cons.prems(1) lists_valuesD [OF Cons.prems(2,1)] step] by blast
  from Cons.IH [OF this Cons.prems(2) rest] show ?case by (simp add: tagged)
qed simp

lemma survey_upserts_inv:
  "store_inv s \<Longrightarrow> lists_values order \<Longrightarrow> survey_upserts order clock ds s = Inr s' \<Longrightarrow> store_inv s'"
proof (induction ds arbitrary: s)
  case (Cons d ds)
  show ?case
  proof (cases "0 < (case ds_host_count d of None \<Rightarrow> 0 | Some n \<Rightarrow> n)")
    case True
    with Cons.prems(3) obtain s1 r where
      step: "upsert (order s) (clock (length ds)) tag_of (from_sweep (ds_network d)) s = Inr (s1, r)"
      and rest: "survey_upserts order clock ds s1 = Inr s'"
      by (auto split: sum.splits prod.splits)
    have "store_inv s1"
      using upsert_step [OF Cons.prems(1) lists_valuesD [OF Cons.prems(2,1)] step] by blast
    from Cons.IH [OF this Cons.prems(2) rest] show ?thesis .
  qed (use Cons in simp)
qed simp

text \<open>The devices of a scan, each at its own address and under its own key, met by a registry in
  which no other record holds an address of a device with a MAC.\<close>

definition settled :: "store \<Rightarrow> device list \<Rightarrow> bool" where
  "settled s ds \<longleftrightarrow>
     distinct (map own_key ds) \<and> distinct (map dev_ip ds)
     \<and> (\<forall>d \<in> set ds. (dev_mac d = None \<or> holders (dev_ip d) s \<subseteq> {own_key d})
          \<and> (\<forall>r. s (own_key d) = Some r \<longrightarrow> rec_seen_count r \<noteq> - 1))"

definition next_record :: "string \<Rightarrow> 64 word \<Rightarrow> device \<Rightarrow> stored option \<Rightarrow> stored" where
  "next_record key now d old =
     enrich d
       (case old of
          Some r \<Rightarrow> r\<lparr>rec_ips := push_new (show_ipv4 (dev_ip d)) (rec_ips r),
                     rec_last_ip := show_ipv4 (dev_ip d), rec_last_seen := now,
                     rec_seen_count := rec_seen_count r + 1\<rparr>
        | None \<Rightarrow> (fresh_record key (dev_mac d) (show_ipv4 (dev_ip d)) now (tag_of key) d)
                    \<lparr>rec_seen_count := 1\<rparr>)"

lemma next_record_simps [simp]:
  "rec_last_ip (next_record key now d old) = show_ipv4 (dev_ip d)"
  "rec_tag (next_record key now d old)
     = (case old of None \<Rightarrow> Some (tag_of key) | Some r \<Rightarrow> rec_tag r)"
  "rec_seen_count (next_record key now d old)
     = (case old of None \<Rightarrow> 1 | Some r \<Rightarrow> rec_seen_count r + 1)"
  "rec_first_seen (next_record key now d old)
     = (case old of None \<Rightarrow> now | Some r \<Rightarrow> rec_first_seen r)"
  "rec_last_seen (next_record key now d old) = now"
  by (simp_all add: next_record_def fresh_record_def split: option.splits)

lemma settled_upsert:
  assumes "store_inv s" "lists_values order" "settled s (d # ds)"
  shows "upsert (order s) now tag_of d s =
      Inr (s(own_key d \<mapsto> next_record (own_key d) now d (s (own_key d))),
           next_record (own_key d) now d (s (own_key d)))"
    and "settled (s(own_key d \<mapsto> next_record (own_key d) now d (s (own_key d)))) ds"
proof -
  have own: "dev_mac d = None \<or> holders (dev_ip d) s \<subseteq> {own_key d}"
    and count: "\<And>r. s (own_key d) = Some r \<Longrightarrow> rec_seen_count r \<noteq> - 1"
    using assms(3) by (auto simp: settled_def)
  show "upsert (order s) now tag_of d s =
      Inr (s(own_key d \<mapsto> next_record (own_key d) now d (s (own_key d))),
           next_record (own_key d) now d (s (own_key d)))"
    using upsert_own_entry [OF assms(1) lists_valuesD [OF assms(2,1)] own] count
    by (cases "s (own_key d)")
      (simp_all add: upsert_entry_new upsert_entry_existing Let_def next_record_def)
  let ?s = "s(own_key d \<mapsto> next_record (own_key d) now d (s (own_key d)))"
  have "(dev_mac d' = None \<or> holders (dev_ip d') ?s \<subseteq> {own_key d'})
      \<and> (\<forall>r. ?s (own_key d') = Some r \<longrightarrow> rec_seen_count r \<noteq> - 1)" if d': "d' \<in> set ds" for d'
  proof -
    have "own_key d \<notin> own_key ` set ds" "dev_ip d \<notin> dev_ip ` set ds"
      using assms(3) by (simp_all add: settled_def)
    then have key: "own_key d' \<noteq> own_key d" and ip: "dev_ip d' \<noteq> dev_ip d"
      using d' by (metis imageI)+
    have old: "dev_mac d' = None \<or> holders (dev_ip d') s \<subseteq> {own_key d'}"
      "\<forall>r. s (own_key d') = Some r \<longrightarrow> rec_seen_count r \<noteq> - 1"
      using assms(3) d' by (simp_all add: settled_def)
    from ip have "holders (dev_ip d') ?s \<subseteq> holders (dev_ip d') s"
      by (auto simp: holders_def show_ipv4_inj split: if_splits)
    moreover have "?s (own_key d') = s (own_key d')" using key by (rule fun_upd_other)
    ultimately show ?thesis using old by (metis subset_trans)
  qed
  moreover have "distinct (map own_key ds)" "distinct (map dev_ip ds)"
    using assms(3) by (simp_all add: settled_def)
  ultimately show "settled ?s ds" unfolding settled_def by blast
qed

lemma settled_upsert_all:
  assumes "store_inv s" "lists_values order" "settled s ds"
  shows "\<exists>s'. upsert_all order clock ds s = Inr (s',
        map (\<lambda>d. (d, the (rec_tag (the (s' (own_key d)))))) ds)
    \<and> store_inv s' \<and> dom s' = dom s \<union> own_key ` set ds
    \<and> (\<forall>k. k \<notin> own_key ` set ds \<longrightarrow> s' k = s k)
    \<and> (\<forall>d \<in> set ds. \<exists>now. s' (own_key d) = Some (next_record (own_key d) now d (s (own_key d))))"
  using assms
proof (induction ds arbitrary: s)
  case (Cons d ds)
  let ?now = "clock (length ds)"
  let ?r = "next_record (own_key d) ?now d (s (own_key d))"
  let ?s = "s(own_key d \<mapsto> ?r)"
  note step = settled_upsert [OF Cons.prems, of ?now]
  have inv: "store_inv ?s"
    using upsert_step [OF Cons.prems(1) lists_valuesD [OF Cons.prems(2,1)] step(1)] by blast
  obtain s' where s': "upsert_all order clock ds ?s = Inr (s',
        map (\<lambda>d. (d, the (rec_tag (the (s' (own_key d)))))) ds)"
    and more: "store_inv s'" "dom s' = dom ?s \<union> own_key ` set ds"
      "\<And>k. k \<notin> own_key ` set ds \<Longrightarrow> s' k = ?s k"
      "\<And>d'. d' \<in> set ds \<Longrightarrow> \<exists>now. s' (own_key d') = Some (next_record (own_key d') now d' (?s (own_key d')))"
    using Cons.IH [OF inv Cons.prems(2) step(2)] by blast
  have fresh: "own_key d \<notin> own_key ` set ds" using Cons.prems(3) by (simp add: settled_def)
  then have "s' (own_key d) = Some ?r" by (simp add: more(3))
  moreover have "rec_tag ?r \<noteq> None"
    using store_invD [OF inv, of "own_key d" ?r] by (simp add: record_ok_def record_shape_def)
  ultimately have "upsert_all order clock (d # ds) s
      = Inr (s', map (\<lambda>d. (d, the (rec_tag (the (s' (own_key d)))))) (d # ds))"
    using step(1) s' by (auto split: option.splits)
  moreover have "\<exists>now. s' (own_key d') = Some (next_record (own_key d') now d' (s (own_key d')))"
    if "d' \<in> set (d # ds)" for d'
  proof (cases "d' = d")
    case False
    with that have "d' \<in> set ds" by simp
    moreover from this fresh have "own_key d' \<noteq> own_key d" by (metis imageI)
    then have "?s (own_key d') = s (own_key d')" by (rule fun_upd_other)
    ultimately show ?thesis using more(4) [of d'] by (simp only:)
  qed (use \<open>s' (own_key d) = Some ?r\<close> in blast)
  moreover have "s' k = s k" if "k \<notin> own_key ` set (d # ds)" for k
    using that more(3) [of k] by simp
  moreover have "dom s' = dom s \<union> own_key ` set (d # ds)" using more(2) by auto
  ultimately show ?case using more(1) by blast
qed simp

section \<open>A scan seen from the registry\<close>

text \<open>The abstract registry: a book of tags. A sighting gives a key without a tag its generated one
  and changes nothing else; the user's tag replaces what stands there.\<close>

definition tag_book :: "store \<Rightarrow> (string \<rightharpoonup> string)" where
  "tag_book s = (\<lambda>k. Option.bind (s k) rec_tag)"

definition sight :: "string \<Rightarrow> (string \<rightharpoonup> string) \<Rightarrow> (string \<rightharpoonup> string)" where
  "sight k book = (if book k = None then book(k \<mapsto> tag_of k) else book)"

lemma fold_sight:
  "fold sight ks book k = (if k \<in> set ks \<and> book k = None then Some (tag_of k) else book k)"
  by (induction ks arbitrary: book) (auto simp: sight_def)

lemma store_inv_tag: "store_inv s \<Longrightarrow> s k = Some r \<Longrightarrow> rec_tag r \<noteq> None"
  using store_invD [of s k r] by (simp add: record_ok_def record_shape_def)

lemma tag_book_set_tag:
  assumes "store_inv s"
  shows "tag_book (fst (set_tag None ip t s)) =
    (if show_ipv4 ip \<in> dom (tag_book s) then (tag_book s)(show_ipv4 ip \<mapsto> t) else tag_book s)"
proof (cases "s (show_ipv4 ip)")
  case None
  then have "show_ipv4 ip \<notin> dom (tag_book s)" by (simp add: tag_book_def domIff)
  with None show ?thesis by (simp add: set_tag_def)
next
  case (Some r)
  with store_inv_tag [OF assms Some] have "show_ipv4 ip \<in> dom (tag_book s)"
    by (simp add: tag_book_def domIff)
  moreover have "fst (set_tag None ip t s) = s(show_ipv4 ip \<mapsto> r\<lparr>rec_tag := Some t\<rparr>)"
    using Some by (simp add: set_tag_def)
  ultimately show ?thesis by (auto simp: tag_book_def fun_eq_iff)
qed

lemma tag_book_inv: "store_inv s \<Longrightarrow> tag_book s k = None \<longleftrightarrow> s k = None"
  by (cases "s k") (auto simp: tag_book_def record_ok_def record_shape_def dest: store_invD)

text \<open>C3: the registry refines the book of tags. A scan of settled devices (one address and one key
  each, no other record at the address of a device with a MAC, no counter at its maximum) succeeds
  and changes the book as the sightings of their keys do, one after the other; each device is
  reported with the tag that then stands in the book. Setting a tag by address updates the book at
  that address, where it has an entry.\<close>

theorem scan_refines_tag_book:
  assumes "store_inv s" and "lists_values order" and "settled s ds"
  shows "(\<exists>s'. upsert_all order clock ds s
        = Inr (s', map (\<lambda>d. (d, the (tag_book s' (own_key d)))) ds)
      \<and> tag_book s' = fold sight (map own_key ds) (tag_book s))
    \<and> tag_book (fst (set_tag None ip t s)) =
        (if show_ipv4 ip \<in> dom (tag_book s) then (tag_book s)(show_ipv4 ip \<mapsto> t) else tag_book s)"
proof
  obtain s' where run: "upsert_all order clock ds s = Inr (s',
        map (\<lambda>d. (d, the (rec_tag (the (s' (own_key d)))))) ds)"
    and dom: "dom s' = dom s \<union> own_key ` set ds"
    and frame: "\<And>k. k \<notin> own_key ` set ds \<Longrightarrow> s' k = s k"
    and hit: "\<And>d. d \<in> set ds \<Longrightarrow> \<exists>now. s' (own_key d) = Some (next_record (own_key d) now d (s (own_key d)))"
    using settled_upsert_all [OF assms, of clock] by blast
  have "tag_book s' k = fold sight (map own_key ds) (tag_book s) k" for k
  proof (cases "k \<in> own_key ` set ds")
    case True
    then obtain d where "d \<in> set ds" "k = own_key d" by blast
    with hit obtain now where "s' k = Some (next_record k now d (s k))" by blast
    then have "tag_book s' k = (case s k of None \<Rightarrow> Some (tag_of k) | Some r \<Rightarrow> rec_tag r)"
      by (simp add: tag_book_def)
    then show ?thesis
      using True tag_book_inv [OF assms(1), of k]
      by (auto simp: fold_sight tag_book_def split: option.splits)
  qed (simp add: fold_sight tag_book_def frame)
  moreover have "rec_tag (the (s' (own_key d))) = tag_book s' (own_key d)" if "d \<in> set ds" for d
    using hit [OF that] by (auto simp: tag_book_def)
  then have "map (\<lambda>d. (d, the (rec_tag (the (s' (own_key d)))))) ds
      = map (\<lambda>d. (d, the (tag_book s' (own_key d)))) ds"
    by simp
  ultimately show "\<exists>s'. upsert_all order clock ds s
        = Inr (s', map (\<lambda>d. (d, the (tag_book s' (own_key d)))) ds)
      \<and> tag_book s' = fold sight (map own_key ds) (tag_book s)"
    using run by (intro exI [of _ s'] conjI ext) simp_all
  show "tag_book (fst (set_tag None ip t s)) =
        (if show_ipv4 ip \<in> dom (tag_book s) then (tag_book s)(show_ipv4 ip \<mapsto> t) else tag_book s)"
    by (rule tag_book_set_tag [OF assms(1)])
qed

lemma scan_records:
  assumes "scan_subnet_arg os subnet iface = Inr net" and "scan_found os oui nw net iface = Inr ds"
    and "ds \<noteq> []" and "store_inv (store_load js dk)" and "lists_values order"
    and "settled (store_load js dk) ds"
  shows "\<exists>dk' rp s. scan os oui nw js order clock subnet iface dk = Inr (dk', rp)
    \<and> store_save js s dk = (dk', sc_saved rp) \<and> sc_subnet rp = net
    \<and> store_inv s \<and> dom s = dom (store_load js dk) \<union> own_key ` set ds
    \<and> (\<forall>k. k \<notin> own_key ` set ds \<longrightarrow> s k = store_load js dk k)
    \<and> map fst (sc_tagged rp) = ds
    \<and> (\<forall>(d, tag) \<in> set (sc_tagged rp). \<exists>r. s (own_key d) = Some r \<and> rec_tag r = Some tag
         \<and> rec_last_ip r = show_ipv4 (dev_ip d)
         \<and> (case store_load js dk (own_key d) of
              None \<Rightarrow> tag = tag_of (own_key d) \<and> rec_seen_count r = 1
            | Some old \<Rightarrow> rec_tag old = Some tag \<and> rec_first_seen r = rec_first_seen old
                \<and> rec_seen_count r = rec_seen_count old + 1))"
proof -
  obtain s where run: "upsert_all order clock ds (store_load js dk) = Inr (s,
        map (\<lambda>d. (d, the (rec_tag (the (s (own_key d)))))) ds)"
    and inv: "store_inv s" and dom: "dom s = dom (store_load js dk) \<union> own_key ` set ds"
    and frame: "\<And>k. k \<notin> own_key ` set ds \<Longrightarrow> s k = store_load js dk k"
    and hit: "\<And>d. d \<in> set ds \<Longrightarrow>
      \<exists>now. s (own_key d) = Some (next_record (own_key d) now d (store_load js dk (own_key d)))"
    using settled_upsert_all [OF assms(4-6), of clock] by blast
  let ?tagged = "map (\<lambda>d. (d, the (rec_tag (the (s (own_key d)))))) ds"
  obtain dk' ok where save: "store_save js s dk = (dk', ok)" by fastforce
  have "scan os oui nw js order clock subnet iface dk
      = Inr (dk', \<lparr>sc_subnet = net, sc_tagged = ?tagged, sc_saved = ok\<rparr>)"
    using assms(1-3) run save by (simp add: scan_def)
  moreover have "\<exists>r. s (own_key d) = Some r \<and> rec_tag r = Some (the (rec_tag (the (s (own_key d)))))
         \<and> rec_last_ip r = show_ipv4 (dev_ip d)
         \<and> (case store_load js dk (own_key d) of
              None \<Rightarrow> the (rec_tag (the (s (own_key d)))) = tag_of (own_key d) \<and> rec_seen_count r = 1
            | Some old \<Rightarrow> rec_tag old = Some (the (rec_tag (the (s (own_key d)))))
                \<and> rec_first_seen r = rec_first_seen old \<and> rec_seen_count r = rec_seen_count old + 1)"
    if "d \<in> set ds" for d
  proof -
    from hit [OF that] obtain now where
      r: "s (own_key d) = Some (next_record (own_key d) now d (store_load js dk (own_key d)))" by blast
    from store_inv_tag [OF inv r]
    have "rec_tag (next_record (own_key d) now d (store_load js dk (own_key d))) \<noteq> None" .
    with r show ?thesis by (auto split: option.splits)
  qed
  ultimately show ?thesis
    using save inv dom frame by (intro exI [of _ dk'] exI [of _ s] exI) (auto simp: comp_def)
qed

text \<open>C2: a scan from file to file. If the devices found are settled for the registry on disk, the
  scan reports each of them once, in order; the registry it saves has, besides the old records,
  exactly one record for each device, at the device's address, seen once more than before; a
  device that was known keeps its tag and its first sighting, a new one gets the generated tag.\<close>

theorem scan_records_every_device:
  assumes "scan_subnet_arg os subnet iface = Inr net" and "scan_found os oui nw net iface = Inr ds"
    and "ds \<noteq> []" and "store_inv (store_load js dk)" and "lists_values order"
    and "settled (store_load js dk) ds"
  shows "\<exists>dk' rp s. scan os oui nw js order clock subnet iface dk = Inr (dk', rp)
    \<and> store_save js s dk = (dk', sc_saved rp) \<and> sc_subnet rp = net
    \<and> store_inv s \<and> dom s = dom (store_load js dk) \<union> own_key ` set ds
    \<and> (\<forall>k. k \<notin> own_key ` set ds \<longrightarrow> s k = store_load js dk k)
    \<and> map fst (sc_tagged rp) = ds
    \<and> (\<forall>(d, tag) \<in> set (sc_tagged rp). \<exists>r. s (own_key d) = Some r \<and> rec_tag r = Some tag
         \<and> rec_last_ip r = show_ipv4 (dev_ip d)
         \<and> (case store_load js dk (own_key d) of
              None \<Rightarrow> tag = tag_of (own_key d) \<and> rec_seen_count r = 1
            | Some old \<Rightarrow> rec_tag old = Some tag \<and> rec_first_seen r = rec_first_seen old
                \<and> rec_seen_count r = rec_seen_count old + 1))"
  by (rule scan_records [OF assms])

section \<open>Who a scan finds\<close>

lemma swept_waiting: "set (swept alive (sweep_init hosts)) = set alive \<inter> set hosts"
  "distinct (swept alive (sweep_init hosts))"
  by (auto simp: swept_def sweep_init_def)

lemma dom_probe_bulk: "dom (probe_bulk completed m) = fst ` set completed \<union> dom m"
proof (induction completed m rule: probe_bulk.induct)
  case (2 ip r rest m)
  show ?case unfolding probe_bulk.simps 2 by auto
qed simp

lemma apply_fingerprints_Nil [simp]: "apply_fingerprints keys fps [] = []"
  using apply_fingerprints_ips [of keys fps "[]"] by simp

lemma scan_found_eq:
  assumes "find_interface (os_pnet os) iface = Some i" "first_ipv4 i = Some src" "ni_mac i = Some m"
    and "1 \<le> unat p" "unat p \<le> 32" and "nw_arp nw = Some replies" "distinct (map entry_ip replies)"
  obtains hits ips where "ips = map entry_ip (sort_key entry_ip replies) @ hits" "distinct ips"
    "set hits = set (nw_alive nw) \<inter> subnet_hosts base p - {src} - entry_ip ` set replies"
    "scan_found os oui nw (base, p) iface =
       Inr (scan_devices oui (sort_key entry_ip replies) hits (resolve_bulk (nw_names nw ips))
              (retain_new [] (map fst (nw_fingerprints nw ips))) (probe_bulk (nw_fingerprints nw ips) Map.empty))"
proof -
  have good: "good_prefix p" using assms(4,5) by (simp add: good_prefix_def)
  have "returns (subnet_iter base p)"
    by (metis returns_simps(1) subnet_iter_good [OF good])
  then obtain frames where arp: "scan_subnet os base p iface (nw_arp nw)
      = Inr (frames, sort_key entry_ip replies)"
    by (auto simp: scan_subnet_def assms(1-3,6) sweep_targets_def returns_iff)
  let ?es = "sort_key entry_ip replies"
  have src: "find_source_ip os iface = Some src" by (simp add: find_source_ip_def assms(1,2))
  obtain hosts where hosts: "sweep_hosts base p (entry_ip ` set ?es) src = Inr hosts"
    "set hosts = subnet_hosts base p - entry_ip ` set replies - {src}"
    by (rule sweep_hosts_good [OF good, of base "entry_ip ` set ?es" src]) simp
  let ?hits = "swept (nw_alive nw) (sweep_init hosts)"
  let ?ips = "map entry_ip ?es @ ?hits"
  have "distinct (map entry_ip ?es)"
    using assms(7) by (metis distinct_sort mset_eq_imp_distinct_iff mset_map mset_sort)
  then have "distinct ?ips" by (auto simp: swept_waiting hosts(2))
  moreover have "set ?hits = set (nw_alive nw) \<inter> subnet_hosts base p - {src} - entry_ip ` set replies"
    by (auto simp: swept_waiting hosts(2))
  moreover have "scan_found os oui nw (base, p) iface =
      Inr (scan_devices oui ?es ?hits (resolve_bulk (nw_names nw ?ips))
             (retain_new [] (map fst (nw_fingerprints nw ?ips))) (probe_bulk (nw_fingerprints nw ?ips) Map.empty))"
    using hosts(1) by (simp add: scan_found_def arp sweep_subnet_start_def src Let_def scan_devices_def)
  ultimately show thesis using that by blast
qed

lemma fingerprint_keys:
  "distinct (retain_new [] (map fst completed))"
  "set (retain_new [] (map fst completed)) = dom (probe_bulk completed Map.empty)"
  by (simp_all add: distinct_retain_new set_retain_new dom_probe_bulk)

text \<open>From the interface to the devices. On an interface with a MAC and an IPv4 address and for a
  prefix from 1 to 32, with one ARP reply for each address that replied, a scan gets to its
  devices: one for each address that replied, wherever that is, with the MAC of the reply, and one
  without a MAC for each further host of the subnet, other than the scanner itself, that is alive
  to the sweep; in the order of the addresses, each with a category.\<close>

theorem scan_finds_exactly:
  assumes "find_interface (os_pnet os) iface = Some i" "first_ipv4 i = Some src" "ni_mac i = Some m"
    and "1 \<le> unat p" "unat p \<le> 32" and "nw_arp nw = Some replies" "distinct (map entry_ip replies)"
  shows "\<exists>ds. scan_found os oui nw (base, p) iface = Inr ds
    \<and> sorted_wrt (<) (map dev_ip ds)
    \<and> {(dev_ip d, dev_mac d, dev_via d) | d. d \<in> set ds} =
        (\<lambda>e. (entry_ip e, Some (entry_mac e), Arp)) ` set replies
        \<union> (\<lambda>ip. (ip, None, Sweep)) ` (set (nw_alive nw) \<inter> subnet_hosts base p - {src} - entry_ip ` set replies)
    \<and> (\<forall>d \<in> set ds. dev_category d \<noteq> None)"
proof -
  obtain hits ips where ips: "ips = map entry_ip (sort_key entry_ip replies) @ hits" "distinct ips"
    and hits: "set hits = set (nw_alive nw) \<inter> subnet_hosts base p - {src} - entry_ip ` set replies"
    and found: "scan_found os oui nw (base, p) iface =
       Inr (scan_devices oui (sort_key entry_ip replies) hits (resolve_bulk (nw_names nw ips))
              (retain_new [] (map fst (nw_fingerprints nw ips))) (probe_bulk (nw_fingerprints nw ips) Map.empty))"
      (is "_ = Inr ?ds")
    by (rule scan_found_eq [OF assms])
  note facts = scan_devices_facts [OF ips(2) [unfolded ips(1)] fingerprint_keys, of oui
      "resolve_bulk (nw_names nw ips)" "nw_fingerprints nw ips"]
  have "{(dev_ip d, dev_mac d, dev_via d) | d. d \<in> set ?ds}
      = (\<lambda>d. (dev_ip d, dev_mac d, dev_via d)) ` set ?ds" by auto
  also have "\<dots> = (\<lambda>e. (entry_ip e, Some (entry_mac e), Arp)) ` set replies
      \<union> (\<lambda>ip. (ip, None, Sweep)) ` set hits"
    unfolding facts [THEN conjunct1] by (simp add: image_Un image_image)
  finally have who: "{(dev_ip d, dev_mac d, dev_via d) | d. d \<in> set ?ds} =
        (\<lambda>e. (entry_ip e, Some (entry_mac e), Arp)) ` set replies
        \<union> (\<lambda>ip. (ip, None, Sweep)) ` (set (nw_alive nw) \<inter> subnet_hosts base p - {src} - entry_ip ` set replies)"
    unfolding hits .
  moreover have "\<forall>d \<in> set ?ds. dev_category d \<noteq> None"
    unfolding facts [THEN conjunct1] by auto
  ultimately show ?thesis using found facts by blast
qed

text \<open>The order of the hash map can be any; this one is sorted.\<close>

definition canonical_order :: "store \<Rightarrow> stored list" where
  "canonical_order s = map (the \<circ> s) (sorted_list_of_set (dom s))"

lemma canonical_order: "lists_values canonical_order"
  by (auto simp: lists_values_def values_of_def canonical_order_def
      intro!: exI [of _ "sorted_list_of_set (dom _)"])

lemma sample_interface_found:
  obtains i where "find_interface (os_pnet sample_os) None = Some i"
    "first_ipv4 i = Some (ipv4_new 192 168 1 10)" "ni_mac i = Some (MacAddr6 2 0 0 0 0 1)"
  by (simp add: sample_os_def find_interface_def suitable_def is_ipv4_def first_ipv4_def)

definition sample_network :: network where
  "sample_network =
     \<lparr>nw_arp = Some [\<lparr>entry_ip = 9, entry_mac = alice_mac\<rparr>], nw_alive = [],
      nw_names = (\<lambda>_. []), nw_fingerprints = (\<lambda>_. [])\<rparr>"

theorem scan_finds_exactly_witness:
  "\<exists>ds. scan_found sample_os '''' sample_network (ipv4_new 192 168 1 0, 30) None = Inr ds
    \<and> {(dev_ip d, dev_mac d, dev_via d) | d. d \<in> set ds} = {(9, Some alice_mac, Arp)}"
proof -
  obtain i where i: "find_interface (os_pnet sample_os) None = Some i"
    "first_ipv4 i = Some (ipv4_new 192 168 1 10)" "ni_mac i = Some (MacAddr6 2 0 0 0 0 1)"
    by (rule sample_interface_found)
  have "nw_arp sample_network = Some [\<lparr>entry_ip = 9, entry_mac = alice_mac\<rparr>]"
    by (simp add: sample_network_def)
  from scan_finds_exactly [OF i _ _ this, of 30 "''''" "ipv4_new 192 168 1 0"]
  show ?thesis by (auto simp: sample_network_def)
qed

section \<open>The registry claims on samples\<close>

lemma settled_fresh: "distinct (map own_key ds) \<Longrightarrow> distinct (map dev_ip ds) \<Longrightarrow> settled Map.empty ds"
  by (simp add: settled_def holders_def)

theorem scan_refines_tag_book_witness:
  "\<exists>s'. upsert_all canonical_order (\<lambda>_. 7) [from_sweep 3] Map.empty
        = Inr (s', [(from_sweep 3, the (tag_book s' (own_key (from_sweep 3))))])
      \<and> tag_book s' = sight (own_key (from_sweep 3)) (tag_book Map.empty)"
  using scan_refines_tag_book [OF store_inv_empty canonical_order settled_fresh, of "[from_sweep 3]" "\<lambda>_. 7"]
  by simp

lemma sample_subnet_arg:
  "scan_subnet_arg sample_os (Some ''192.168.1.0/30'') None = Inr (ipv4_new 192 168 1 0, 30)"
proof -
  have "''192.168.1.0/30'' = show_ipv4 (ipv4_new 192 168 1 0) @ CHR ''/'' # show_nat (unat (30 :: byte))"
    by code_simp
  then show ?thesis
    using parse_subnet_show [of "ipv4_new 192 168 1 0" "show_nat (unat (30 :: byte))"]
    by (simp add: scan_subnet_arg_def parse_u8_show [of 30, simplified])
qed

text \<open>One host answers ARP and none is alive to the sweep.\<close>

lemma sample_scan_found:
  assumes "nw_arp nw = Some [\<lparr>entry_ip = 9, entry_mac = alice_mac\<rparr>]" "nw_alive nw = []"
  shows "\<exists>d. scan_found sample_os oui nw (ipv4_new 192 168 1 0, 30) None = Inr [d] \<and> dev_mac d = Some alice_mac"
proof -
  let ?e = "\<lparr>entry_ip = 9, entry_mac = alice_mac\<rparr>"
  obtain i where i: "find_interface (os_pnet sample_os) None = Some i"
    "first_ipv4 i = Some (ipv4_new 192 168 1 10)" "ni_mac i = Some (MacAddr6 2 0 0 0 0 1)"
    by (rule sample_interface_found)
  have bounds: "1 \<le> unat (30 :: byte)" "unat (30 :: byte) \<le> 32"
    and single: "distinct (map entry_ip [?e])" by simp_all
  obtain hits ips where ips: "ips = map entry_ip (sort_key entry_ip [?e]) @ hits" "distinct ips"
    and hits: "set hits = set (nw_alive nw) \<inter> subnet_hosts (ipv4_new 192 168 1 0) 30 - {ipv4_new 192 168 1 10}
      - entry_ip ` set [?e]"
    and found: "scan_found sample_os oui nw (ipv4_new 192 168 1 0, 30) None =
       Inr (scan_devices oui (sort_key entry_ip [?e]) hits (resolve_bulk (nw_names nw ips))
              (retain_new [] (map fst (nw_fingerprints nw ips))) (probe_bulk (nw_fingerprints nw ips) Map.empty))"
      (is "_ = Inr ?ds")
    by (rule scan_found_eq [OF i bounds assms(1) single])
  note facts = scan_devices_facts [OF ips(2) [unfolded ips(1)] fingerprint_keys, of oui
      "resolve_bulk (nw_names nw ips)" "nw_fingerprints nw ips"]
  have none: "hits = []" using hits assms(2) by simp
  have "distinct (map dev_ip ?ds)" using facts by (metis strict_sorted_iff)
  then have "length ?ds = card (set (map dev_ip ?ds))" by (metis distinct_card length_map)
  also have "set (map dev_ip ?ds) = {9}" using facts [THEN conjunct2, THEN conjunct1] none by simp
  finally obtain d where d: "?ds = [d]" by (auto simp: length_Suc_conv)
  have "d \<in> set ?ds" by (simp only: d list.set_intros)
  then have "dev_mac d = Some alice_mac" using none unfolding facts [THEN conjunct1] by auto
  with found d show ?thesis by simp
qed

theorem scan_records_every_device_witness:
  "\<exists>dk' rp. scan sample_os '''' sample_network no_json canonical_order (\<lambda>_. 7)
       (Some ''192.168.1.0/30'') None blank_disk = Inr (dk', rp)
     \<and> length (sc_tagged rp) = 1 \<and> sc_subnet rp = (ipv4_new 192 168 1 0, 30)"
proof -
  obtain d where d: "scan_found sample_os '''' sample_network (ipv4_new 192 168 1 0, 30) None = Inr [d]"
    using sample_scan_found [of sample_network "''''"] by (auto simp: sample_network_def)
  have "settled (store_load no_json blank_disk) [d]" by (simp add: settled_fresh)
  moreover have "store_inv (store_load no_json blank_disk)" by (simp add: store_inv_empty)
  ultimately obtain dk' rp where "scan sample_os '''' sample_network no_json canonical_order (\<lambda>_. 7)
       (Some ''192.168.1.0/30'') None blank_disk = Inr (dk', rp)"
    "map fst (sc_tagged rp) = [d]" "sc_subnet rp = (ipv4_new 192 168 1 0, 30)"
    using scan_records_every_device [OF sample_subnet_arg d, of no_json blank_disk canonical_order "\<lambda>_. 7"]
      canonical_order by auto
  moreover from this(2) have "length (sc_tagged rp) = 1" by (metis length_map length_Cons One_nat_def list.size(3))
  ultimately show ?thesis by blast
qed

section \<open>Tags, listing, surveys\<close>

text \<open>C19: what a user can tag. The command finds a record only under the address key, where the
  registry keeps devices without a MAC: with such a record it saves the registry with that
  record's tag replaced and nothing else, without one it leaves the file alone. So where only
  devices with a MAC hold the address nothing is tagged, and in the file left behind every record
  of a device with a MAC is what it was, or gone if the write was torn. A text that is no address
  exits with code 1.\<close>

theorem tag_reaches_no_mac_device:
  fixes ip :: ipv4 and dk :: disk
  assumes "store_inv (store_load js dk)"
  defines "s \<equiv> store_load js dk"
  shows "tag_command js (show_ipv4 ip) tag dk =
      (case s (show_ipv4 ip) of
         None \<Rightarrow> Inr (dk, False)
       | Some r \<Rightarrow> Inr (fst (store_save js (s(show_ipv4 ip \<mapsto> r\<lparr>rec_tag := Some tag\<rparr>)) dk), True))
    \<and> (\<forall>r. s (show_ipv4 ip) = Some r \<longrightarrow> rec_mac r = None \<and> rec_last_ip r = show_ipv4 ip)
    \<and> (holders ip s \<subseteq> range mac_key \<longrightarrow> tag_command js (show_ipv4 ip) tag dk = Inr (dk, False))
    \<and> (files_law js dk \<longrightarrow>
        (\<forall>dk' tagged m. tag_command js (show_ipv4 ip) tag dk = Inr (dk', tagged) \<longrightarrow>
           store_load js dk' (mac_key m) \<in> {s (mac_key m), None}))
    \<and> (parse_ipv4 addr = None \<longrightarrow> tag_command js addr tag dk = Inl (Process_Exit 1))"
proof (intro conjI)
  let ?k = "show_ipv4 ip"
  let ?new = "\<lambda>r. s(?k \<mapsto> r\<lparr>rec_tag := Some tag\<rparr>)"
  show cmd: "tag_command js ?k tag dk =
      (case s ?k of None \<Rightarrow> Inr (dk, False) | Some r \<Rightarrow> Inr (fst (store_save js (?new r) dk), True))"
    by (simp add: s_def tag_command_def parse_show_ipv4 set_tag_def split: option.split)
  show found: "\<forall>r. s ?k = Some r \<longrightarrow> rec_mac r = None \<and> rec_last_ip r = ?k"
    using record_ok_ip_key store_invD [OF assms(1)] unfolding s_def by blast
  show "holders ip s \<subseteq> range mac_key \<longrightarrow> tag_command js ?k tag dk = Inr (dk, False)"
  proof
    assume "holders ip s \<subseteq> range mac_key"
    then have "?k \<notin> holders ip s" using mac_key_not_ip(2) by (metis imageE subsetD)
    then have "s ?k = None" using found by (cases "s ?k") (auto simp: holders_def)
    then show "tag_command js ?k tag dk = Inr (dk, False)" unfolding cmd by simp
  qed
  have saved: "store_load js (fst (store_save js (?new r) dk)) (mac_key m) \<in> {s (mac_key m), None}"
    if "files_law js dk" for r m
    using store_save_load(2) [OF that surjective_pairing, of "?new r"] mac_key_not_ip
    by (auto simp: s_def)
  show "files_law js dk \<longrightarrow> (\<forall>dk' tagged m. tag_command js ?k tag dk = Inr (dk', tagged) \<longrightarrow>
      store_load js dk' (mac_key m) \<in> {s (mac_key m), None})"
    unfolding cmd using saved by (auto simp: s_def split: option.splits)
qed (simp add: tag_command_def)

definition alice_json :: json_codec where
  "alice_json = \<lparr>js_parse = (\<lambda>_. Some alice_store), js_print = (\<lambda>_. Some [])\<rparr>"

theorem tag_reaches_no_mac_device_witness:
  "tag_command alice_json (show_ipv4 host_ip) ''mine'' (blank_disk\<lparr>dk_contents := Some []\<rparr>)
     = Inr (blank_disk\<lparr>dk_contents := Some []\<rparr>, False)
   \<and> tag_command alice_json ''host'' ''mine'' blank_disk = Inl (Process_Exit 1)"
proof -
  have load: "store_load alice_json (blank_disk\<lparr>dk_contents := Some []\<rparr>) = alice_store"
    by (simp add: store_load_def alice_json_def)
  then have "store_inv (store_load alice_json (blank_disk\<lparr>dk_contents := Some []\<rparr>))"
    by (simp add: alice_store_inv)
  note tag = tag_reaches_no_mac_device [OF this, of host_ip "''mine''"]
  have "holders host_ip alice_store \<subseteq> range mac_key" by (simp add: alice_holders)
  with tag have "tag_command alice_json (show_ipv4 host_ip) ''mine'' (blank_disk\<lparr>dk_contents := Some []\<rparr>)
      = Inr (blank_disk\<lparr>dk_contents := Some []\<rparr>, False)"
    unfolding load by blast
  moreover have "store_inv (store_load alice_json blank_disk)"
    by (simp add: store_load_def blank_disk_def store_inv_empty)
  moreover have "parse_ipv4 ''host'' = None" by code_simp
  ultimately show ?thesis
    using tag_reaches_no_mac_device [of alice_json blank_disk host_ip "''mine''" "''host''"] by blast
qed

text \<open>The listing shows every record of the registry exactly once, the most recently seen first,
  between a header of two lines and the count.\<close>

theorem list_shows_each_record_once:
  assumes "values_of (order s) s"
  shows "mset (list_records order s) = mset (order s) \<and> set (list_records order s) = ran s
    \<and> length (list_records order s) = card (dom s)
    \<and> sorted_wrt (\<lambda>a b. b \<le> a) (map rec_last_seen (list_records order s))
    \<and> (store_load js dk = s \<longrightarrow> length (list_command js order dk) = card (dom s) + 4)"
proof -
  obtain ks where ks: "distinct ks" "set ks = dom s" "order s = map (the \<circ> s) ks"
    using assms by (auto simp: values_of_def)
  have "length (order s) = card (dom s)" using ks by (metis distinct_card length_map)
  moreover have "set (order s) = ran s" using values_ofD [OF assms] by auto
  moreover have "sorted (rev (map rec_last_seen (list_records order s)))"
    by (simp add: list_records_def flip: rev_map)
  then have "sorted_wrt (\<lambda>a b. b \<le> a) (map rec_last_seen (list_records order s))"
    by (simp only: sorted_wrt_rev)
  ultimately show ?thesis
    by (simp add: list_records_def list_command_def Let_def)
qed

lemma upsert_swept:
  "store_inv s \<Longrightarrow> (\<And>r. s (show_ipv4 ip) = Some r \<Longrightarrow> rec_seen_count r \<noteq> - 1) \<Longrightarrow>
   upsert vals now tag_of (from_sweep ip) s =
     Inr (s(show_ipv4 ip \<mapsto> next_record (show_ipv4 ip) now (from_sweep ip) (s (show_ipv4 ip))),
          next_record (show_ipv4 ip) now (from_sweep ip) (s (show_ipv4 ip)))"
  by (cases "s (show_ipv4 ip)")
    (simp_all add: upsert_def ip_key_def upsert_entry_new upsert_entry_existing next_record_def Let_def)

text \<open>A survey enters its results in the registry as if they were devices: exactly the network
  addresses of the subnets with live hosts get a record under the address key, without a MAC;
  records under other keys stay as they are.\<close>

theorem survey_registers_networks:
  assumes "store_inv s" and "lists_values order" and "survey_upserts order clock ds s = Inr s'"
  shows "store_inv s'
    \<and> dom s' = dom s \<union> {show_ipv4 (ds_network d) | d n. d \<in> set ds \<and> ds_host_count d = Some n \<and> 0 < n}
    \<and> (\<forall>m. s' (mac_key m) = s (mac_key m))"
  using assms
proof (induction ds arbitrary: s)
  case (Cons d ds)
  show ?case
  proof (cases "\<exists>n. ds_host_count d = Some n \<and> 0 < n")
    case True
    then obtain n where n: "ds_host_count d = Some n" "0 < n" by blast
    let ?k = "show_ipv4 (ds_network d)"
    obtain s1 r where step: "upsert (order s) (clock (length ds)) tag_of (from_sweep (ds_network d)) s = Inr (s1, r)"
      and rest: "survey_upserts order clock ds s1 = Inr s'"
      using Cons.prems(3) n by (auto split: sum.splits prod.splits)
    have s1: "s1 = s(?k \<mapsto> r)"
      using step by (auto simp: upsert_def ip_key_def dest: upsert_entry_frame)
    have "store_inv s1"
      using upsert_step [OF Cons.prems(1) lists_valuesD [OF Cons.prems(2,1)] step] by blast
    note IH = Cons.IH [OF this Cons.prems(2) rest]
    have "dom s1 = insert ?k (dom s)" by (simp add: s1)
    moreover have "{show_ipv4 (ds_network x) | x n. x \<in> set (d # ds) \<and> ds_host_count x = Some n \<and> 0 < n}
        = insert ?k {show_ipv4 (ds_network x) | x n. x \<in> set ds \<and> ds_host_count x = Some n \<and> 0 < n}"
      using n by auto
    ultimately have "dom s' = dom s
        \<union> {show_ipv4 (ds_network x) | x n. x \<in> set (d # ds) \<and> ds_host_count x = Some n \<and> 0 < n}"
      using IH by simp
    moreover have "s1 (mac_key m) = s (mac_key m)" for m by (simp add: s1)
    ultimately show ?thesis using IH by simp
  next
    case False
    then have "survey_upserts order clock ds s = Inr s'"
      using Cons.prems(3) by (auto split: option.splits if_splits)
    from Cons.IH [OF Cons.prems(1,2) this] False show ?thesis by auto
  qed
qed simp

end
