(* ===== verification/Scan_Wires.thy ===== *)
theory Scan_Wires
  imports Commands
begin

text \<open>
  A scan down to the packets: what \<open>Commands\<close> takes as the answers of the network is computed here
  by the components of the other theories from what their sockets deliver. In which order tasks end
  and hash sets list their elements are arguments.
\<close>

section \<open>The sockets of a scan\<close>

text \<open>For each address asked, what the sockets that ask it deliver. \<open>sa_arp\<close> is what the collecting
  task of the ARP scan lives through, \<open>None\<close> where it fails; \<open>sa_listed\<close> is the order of its hash
  set, and \<open>sa_hosts\<close> an order of addresses that the hash set of the sweep keeps.\<close>

record scan_air =
  sa_arp :: "(nat \<times> (nat \<times> select_event) list \<times> arp_entry list) option"
  sa_listed :: "arp_entry set \<Rightarrow> arp_entry list"
  sa_icmp :: "ipv4 \<Rightarrow> wire list option"
  sa_probe_port :: "ipv4 \<Rightarrow> 16 word \<Rightarrow> 16 word"
  sa_tcp :: "ipv4 \<Rightarrow> 16 word \<Rightarrow> wire list option"
  sa_hosts :: "ipv4 list"
  sa_unicast :: "ipv4 \<Rightarrow> recv list option"
  sa_multicast :: "ipv4 \<Rightarrow> recv list option"
  sa_reverse :: "ipv4 \<Rightarrow> recv list option"
  sa_resolved :: "ipv4 list \<Rightarrow> ipv4 list"
  sa_src_port :: "ipv4 \<Rightarrow> 16 word \<Rightarrow> 16 word"
  sa_syn :: "ipv4 \<Rightarrow> 16 word \<Rightarrow> wire list option"
  sa_answered :: "ipv4 \<Rightarrow> 16 word list"
  sa_probed :: "ipv4 list \<Rightarrow> ipv4 list"

definition arp_collected :: "scan_air \<Rightarrow> arp_entry set" where
  "arp_collected air =
     (case sa_arp air of None \<Rightarrow> {}
      | Some (start, events, queued) \<Rightarrow> receive_arp_responses 10000 2500 start events queued)"

definition host_alive :: "scan_air \<Rightarrow> ipv4 \<Rightarrow> ipv4 \<Rightarrow> bool" where
  "host_alive air src_ip target =
     probe_host target src_ip (sa_icmp air target) (sa_probe_port air target) (sa_tcp air target)"

definition host_name :: "(nat \<Rightarrow> bool) \<Rightarrow> scan_air \<Rightarrow> ipv4 \<Rightarrow> mdns_result option" where
  "host_name uu air ip = query_ip uu ip (sa_unicast air ip) (sa_multicast air ip) (sa_reverse air ip)"

definition resolve_tasks ::
  "(nat \<Rightarrow> bool) \<Rightarrow> scan_air \<Rightarrow> ipv4 list \<Rightarrow> (ipv4 \<times> mdns_result option) list" where
  "resolve_tasks uu air ips = map (\<lambda>ip. (ip, host_name uu air ip)) (sa_resolved air ips)"

text \<open>\<open>sa_answered\<close> lists the ports whose tasks end within the three seconds of \<open>probe_syn\<close>.\<close>

definition probe_task ::
  "os_view \<Rightarrow> string option \<Rightarrow> scan_air \<Rightarrow> ipv4 \<Rightarrow> fingerprint_result option outcome" where
  "probe_task os iface air target =
     (case find_source_ip os iface of None \<Rightarrow> probe_syn None []
      | Some src_ip \<Rightarrow>
          probe_syn (Some src_ip)
            (map (\<lambda>port. snd (probe_port_blocking target port src_ip (sa_src_port air target port)
                                (sa_syn air target port)))
              (sa_answered air target)))"

text \<open>\<open>while let Some(Ok((ip, result)))\<close> ends at the first task that panicked.\<close>

fun join_probes ::
  "(ipv4 \<times> fingerprint_result option outcome) list \<Rightarrow> (ipv4 \<times> fingerprint_result option) list" where
  "join_probes [] = []"
| "join_probes ((ip, Inl _) # rest) = []"
| "join_probes ((ip, Inr result) # rest) = (ip, result) # join_probes rest"

definition probe_tasks ::
  "os_view \<Rightarrow> string option \<Rightarrow> scan_air \<Rightarrow> ipv4 list \<Rightarrow> (ipv4 \<times> fingerprint_result option) list" where
  "probe_tasks os iface air ips =
     join_probes (map (\<lambda>ip. (ip, probe_task os iface air ip)) (sa_probed air ips))"

text \<open>What the ARP scan is handed, and the hosts alive to the sweep from the scanner's address.\<close>

definition arp_received :: "scan_air \<Rightarrow> arp_entry list option" where
  "arp_received air = map_option (\<lambda>_. sa_listed air (arp_collected air)) (sa_arp air)"

definition alive_hosts :: "os_view \<Rightarrow> string option \<Rightarrow> scan_air \<Rightarrow> ipv4 list" where
  "alive_hosts os iface air =
     (case find_source_ip os iface of None \<Rightarrow> []
      | Some src_ip \<Rightarrow> filter (host_alive air src_ip) (sa_hosts air))"

definition wired :: "(nat \<Rightarrow> bool) \<Rightarrow> os_view \<Rightarrow> string option \<Rightarrow> scan_air \<Rightarrow> network" where
  "wired uu os iface air =
     \<lparr>nw_arp = arp_received air, nw_alive = alive_hosts os iface air,
      nw_names = resolve_tasks uu air, nw_fingerprints = probe_tasks os iface air\<rparr>"

section \<open>What a scan hears\<close>

text \<open>The TCP sockets of the sweep and of the fingerprints deliver answers to their own SYNs only.\<close>

definition own_answers :: "scan_air \<Rightarrow> bool" where
  "own_answers air \<longleftrightarrow>
     (\<forall>ip port wires. sa_tcp air ip port = Some wires \<longrightarrow> (\<forall>w \<in> set wires. acknowledges 12346 w))
     \<and> (\<forall>ip port wires. sa_syn air ip port = Some wires \<longrightarrow> (\<forall>w \<in> set wires. acknowledges 31338 w))"

definition pinged :: "scan_air \<Rightarrow> ipv4 \<Rightarrow> bool" where
  "pinged air ip \<longleftrightarrow> joined (snd (icmp_probe ip (sa_icmp air ip)))"

lemma host_alive_pinged:
  assumes "own_answers air"
  shows "host_alive air src ip = pinged air ip"
proof -
  have "\<not> joined (snd (tcp_probe ip port src (sa_probe_port air ip port) (sa_tcp air ip port)))" for port
    using assms
    by (cases "sa_tcp air ip port") (auto simp: own_answers_def tcp_probe_def joined_def tcp_wait_deaf)
  then show ?thesis by (simp add: host_alive_def pinged_def probe_host_def tcp_probe_ports_def)
qed

text \<open>\<open>swept\<close> over these hosts is what the tasks of the sweep, in any schedule, end with.\<close>

lemma swept_is_sweep:
  assumes "sweep_subnet_start os base p known iface = Inr st" "find_source_ip os iface = Some src"
    and "set (sw_waiting st) \<subseteq> set (sa_hosts air)"
    and "(sweep_step (host_alive air src))\<^sup>*\<^sup>* st st'" "sw_waiting st' = []" "sw_running st' = []"
  shows "sw_found st' = set (swept (alive_hosts os iface air) st)"
proof -
  from assms(1,2) obtain targets where targets: "sweep_hosts base p known src = Inr targets" "st = sweep_init targets"
    by (auto simp: sweep_subnet_start_def outcome_bind_Inr_iff)
  have "good_prefix p"
    using targets(1) addresses_returns [of base p] by (auto simp: sweep_hosts_def outcome_bind_Inr_iff)
  then have "distinct targets" by (metis Inr_inject sweep_hosts_good targets(1))
  then have "sw_found st' = {t \<in> set targets. host_alive air src t}"
    using sweep_result assms(4-6) targets(2) by blast
  then show ?thesis
    using assms(3) by (auto simp: swept_waiting targets(2) alive_hosts_def assms(2)) (simp add: sweep_init_def subsetD)
qed

lemma first_answer_None: "\<forall>a \<in> set answers. a = Inr None \<Longrightarrow> first_answer answers = None"
  by (induction answers) auto

lemma probe_task_deaf:
  assumes "own_answers air" "find_source_ip os iface = Some src"
  shows "probe_task os iface air ip = Inr (Some \<lparr>fr_syn_ack = None, fr_os_hint = None\<rparr>)"
proof -
  have "snd (probe_port_blocking ip port src (sa_src_port air ip port) (sa_syn air ip port)) = Inr None" for port
    using assms(1)
    by (cases "sa_syn air ip port") (auto simp: own_answers_def probe_port_blocking_def wait_syn_ack_deaf)
  then show ?thesis
    by (simp add: probe_task_def assms(2) probe_syn_def first_answer_None)
qed

lemma join_probes_mem: "(ip, r) \<in> set (join_probes xs) \<Longrightarrow> (ip, Inr r) \<in> set xs"
  by (induction xs rule: join_probes.induct) auto

lemma no_fingerprint:
  assumes "own_answers air" "find_source_ip os iface = Some src" "dev_os_hint d = None"
  shows "dev_os_hint (fingerprinted (probe_bulk (probe_tasks os iface air ips) Map.empty) d) = None"
proof -
  have "fr_os_hint fp = None"
    if "probe_bulk (probe_tasks os iface air ips) Map.empty (dev_ip d) = Some (Some fp)" for fp
    using probe_bulk_mem [OF that] probe_task_deaf [OF assms(1,2)]
    by (auto simp: probe_tasks_def dest!: join_probes_mem)
  then show ?thesis
    using assms(3) by (auto simp: fingerprinted_def apply_fingerprint_def split: option.splits)
qed

lemma resolved_name:
  assumes "distinct ips" "mset (sa_resolved air ips) = mset ips" "ip \<in> set ips"
  shows "resolve_bulk (resolve_tasks uu air ips) ip = host_name uu air ip"
proof -
  have "distinct (sa_resolved air ips)" "set (sa_resolved air ips) = set ips"
    using assms by (metis mset_eq_imp_distinct_iff) (metis assms(2) mset_eq_setD)
  then have "resolve_bulk (resolve_tasks uu air ips) ip = Some a \<longleftrightarrow> host_name uu air ip = Some a" for a
    using resolve_bulk_iff [of "resolve_tasks uu air ips" ip a] assms(3)
    by (auto simp: resolve_tasks_def comp_def)
  then show ?thesis by (metis not_None_eq)
qed

text \<open>What a device says of itself besides its addresses.\<close>

definition told :: "device \<Rightarrow> string option \<times> string list" where
  "told d = (dev_hostname d, dev_services d)"

definition name_told :: "mdns_result option \<Rightarrow> string option \<times> string list" where
  "name_told r = (case r of None \<Rightarrow> (None, []) | Some a \<Rightarrow> (Some (mdns_hostname a), mdns_services a))"

lemma told_simps [simp]:
  "told (device_classify d) = told d" "told (fingerprinted fps d) = told d"
  "told (arp_device oui names e) = name_told (names (entry_ip e))"
  "told (sweep_device names ip) = name_told (names ip)"
  by (simp_all add: told_def name_told_def device_classify_def fingerprinted_def apply_fingerprint_def
      arp_device_def sweep_device_def with_mdns_def split: option.splits)

lemma os_hint_simps [simp]:
  "dev_os_hint (device_classify d) = dev_os_hint d"
  "dev_os_hint (arp_device oui names e) = None" "dev_os_hint (sweep_device names ip) = None"
  by (simp_all add: device_classify_def arp_device_def sweep_device_def with_mdns_def split: option.splits)

text \<open>C6: a scan over the wire. On an interface with a MAC and an IPv4 address and a prefix from 1 to
  32, when the collecting task ends, every task ends and no two of the replies it took give one
  address two MACs, a scan reports, in order and each once, the addresses of the ARP replies and the
  further hosts of the subnet, other than its own address, that a probe of the sweep found alive;
  a device has a MAC exactly if a reply gave it, and the host name and services that the lookups of
  its own address give. If moreover the raw TCP sockets deliver only answers to the scanner's own
  SYNs, and not other TCP traffic that happens to acknowledge the right number, the hosts alive are
  exactly those whose ICMP probe was answered, and no device ever has an OS hint.\<close>

theorem scan_over_wires:
  assumes iface: "find_interface (os_pnet os) iface = Some i" "first_ipv4 i = Some src" "ni_mac i = Some m"
    and prefix: "1 \<le> unat p" "unat p \<le> 32"
    and arp: "sa_arp air \<noteq> None" "inj_on entry_ip (arp_collected air)"
    and listed: "distinct (sa_listed air (arp_collected air))"
      "set (sa_listed air (arp_collected air)) = arp_collected air"
    and hosts: "subnet_hosts base p \<subseteq> set (sa_hosts air)"
    and resolved: "\<And>ips. mset (sa_resolved air ips) = mset ips"
  shows "\<exists>ds. scan_found os oui (wired uu os iface air) (base, p) iface = Inr ds
    \<and> sorted_wrt (<) (map dev_ip ds)
    \<and> set (map dev_ip ds)
        = entry_ip ` arp_collected air \<union> {ip \<in> subnet_hosts base p - {src}. host_alive air src ip}
    \<and> (\<forall>d \<in> set ds. told d = name_told (host_name uu air (dev_ip d))
         \<and> (\<forall>mac. dev_mac d = Some mac \<longleftrightarrow> \<lparr>entry_ip = dev_ip d, entry_mac = mac\<rparr> \<in> arp_collected air))
    \<and> (own_answers air \<longrightarrow>
         (\<forall>ip. host_alive air src ip = pinged air ip) \<and> (\<forall>d \<in> set ds. dev_os_hint d = None))"
proof -
  let ?nw = "wired uu os iface air" and ?replies = "sa_listed air (arp_collected air)"
  have src: "find_source_ip os iface = Some src" by (simp add: find_source_ip_def iface(1,2))
  have replies: "nw_arp ?nw = Some ?replies" "distinct (map entry_ip ?replies)"
    using arp listed by (auto simp: wired_def arp_received_def distinct_map)
  obtain hits ips where ips: "ips = map entry_ip (sort_key entry_ip ?replies) @ hits" "distinct ips"
    and hits: "set hits = set (nw_alive ?nw) \<inter> subnet_hosts base p - {src} - entry_ip ` set ?replies"
    and found: "scan_found os oui ?nw (base, p) iface =
       Inr (scan_devices oui (sort_key entry_ip ?replies) hits (resolve_bulk (nw_names ?nw ips))
              (retain_new [] (map fst (nw_fingerprints ?nw ips))) (probe_bulk (nw_fingerprints ?nw ips) Map.empty))"
      (is "_ = Inr ?ds")
    by (rule scan_found_eq [OF iface prefix replies])
  have alive: "set hits = {ip \<in> subnet_hosts base p - {src}. host_alive air src ip} - entry_ip ` arp_collected air"
    using hosts unfolding hits listed(2) by (auto simp: wired_def alive_hosts_def src)
  note facts = scan_devices_facts [OF ips(2) [unfolded ips(1)] fingerprint_keys, of oui
      "resolve_bulk (nw_names ?nw ips)" "nw_fingerprints ?nw ips"]
  have all: "set (map dev_ip ?ds)
      = entry_ip ` arp_collected air \<union> {ip \<in> subnet_hosts base p - {src}. host_alive air src ip}"
    unfolding facts [THEN conjunct2, THEN conjunct1] alive by (auto simp: listed(2))
  have each: "told d = name_told (host_name uu air (dev_ip d)) \<and> (own_answers air \<longrightarrow> dev_os_hint d = None)
      \<and> (\<forall>mac. dev_mac d = Some mac \<longleftrightarrow> \<lparr>entry_ip = dev_ip d, entry_mac = mac\<rparr> \<in> arp_collected air)"
    if d: "d \<in> set ?ds" for d
  proof -
    let ?names = "resolve_bulk (nw_names ?nw ips)"
    obtain d0 where d0: "d = device_classify (fingerprinted (probe_bulk (nw_fingerprints ?nw ips) Map.empty) d0)"
      and origin: "d0 \<in> arp_device oui ?names ` arp_collected air \<union> sweep_device ?names ` set hits"
      using d unfolding facts [THEN conjunct1] set_sort listed(2) comp_apply by (elim imageE) blast
    have hint: "dev_os_hint d = None" if own: "own_answers air"
      using origin unfolding d0 wired_def network.simps os_hint_simps
      by (intro no_fingerprint [OF own src]) auto
    have macs: "dev_mac d = Some mac \<longleftrightarrow> \<lparr>entry_ip = dev_ip d, entry_mac = mac\<rparr> \<in> arp_collected air" for mac
      using origin inj_onD [OF arp(2)] unfolding d0 by (auto simp: alive rev_image_eqI) (metis arp_entry.select_convs)
    have "dev_ip d \<in> set ips"
      using origin unfolding d0 ips(1) by (auto simp: listed(2))
    then have "?names (dev_ip d) = host_name uu air (dev_ip d)"
      using resolved_name [OF ips(2) resolved] by (simp add: wired_def)
    then have "told d = name_told (host_name uu air (dev_ip d))"
      using origin unfolding d0 told_simps device_classify_simps fingerprinted_simps by auto
    with hint macs show ?thesis by blast
  qed
  have "\<forall>d \<in> set ?ds. told d = name_told (host_name uu air (dev_ip d))
      \<and> (\<forall>mac. dev_mac d = Some mac \<longleftrightarrow> \<lparr>entry_ip = dev_ip d, entry_mac = mac\<rparr> \<in> arp_collected air)"
    and "own_answers air \<longrightarrow>
      (\<forall>ip. host_alive air src ip = pinged air ip) \<and> (\<forall>d \<in> set ?ds. dev_os_hint d = None)"
    using each by (blast, simp add: host_alive_pinged)
  then show ?thesis
    by (intro exI [of _ ?ds] conjI found all facts [THEN conjunct2, THEN conjunct2])
qed

text \<open>One host answers ARP, another one pings and refuses TCP.\<close>

definition sample_air :: scan_air where
  "sample_air =
     \<lparr>sa_arp = Some (0, [(0, Received \<lparr>entry_ip = 9, entry_mac = alice_mac\<rparr> 0)], []),
      sa_listed = (\<lambda>_. [\<lparr>entry_ip = 9, entry_mac = alice_mac\<rparr>]),
      sa_icmp = (\<lambda>ip. if ip = ipv4_new 192 168 1 2 then Some [Wire (echo_reply_datagram ip) ip] else None),
      sa_probe_port = (\<lambda>_ _. 51001),
      sa_tcp = (\<lambda>ip port. Some [Wire (rst_datagram port 51001) ip]),
      sa_hosts = [ipv4_new 192 168 1 1, ipv4_new 192 168 1 2, ipv4_new 192 168 1 3],
      sa_unicast = (\<lambda>_. None), sa_multicast = (\<lambda>_. None), sa_reverse = (\<lambda>_. None),
      sa_resolved = (\<lambda>ips. ips), sa_src_port = (\<lambda>_ _. 43211),
      sa_syn = (\<lambda>ip port. Some [Wire (syn_ack_datagram 43211 31338) ip]),
      sa_answered = (\<lambda>_. [443]), sa_probed = (\<lambda>ips. ips)\<rparr>"

lemma syn_ack_view:
  "layer4_view 20 (syn_ack_datagram sp ack) = Inr (tcp_segment 443 sp 7 ack 10 (flag_syn OR flag_ack) 65535 syn_options)"
  by (simp add: layer4_view_def syn_ack_datagram_def slice_def packet_new_def ip_header_length_def
      length_tcp_segment)

lemma sample_air_own: "own_answers sample_air"
  by (auto simp: own_answers_def sample_air_def acknowledges_def rst_datagram_view syn_ack_view ack_of_segment)

lemma sample_air_collected: "arp_collected sample_air = {\<lparr>entry_ip = 9, entry_mac = alice_mac\<rparr>}"
  by (simp add: arp_collected_def sample_air_def receive_arp_responses_def)

lemma sample_air_pinged: "pinged sample_air ip \<longleftrightarrow> ip = ipv4_new 192 168 1 2"
  by (auto simp: pinged_def sample_air_def icmp_probe_def joined_def echo_reply_view icmp_type_def)

lemma sample_hosts:
  "subnet_hosts (ipv4_new 192 168 1 0) 30 = {ipv4_new 192 168 1 1, ipv4_new 192 168 1 2, ipv4_new 192 168 1 3}"
proof -
  have "good_prefix 30" by (simp add: good_prefix_def)
  from set_addresses [OF this, of "ipv4_new 192 168 1 0"]
  have "subnet_hosts (ipv4_new 192 168 1 0) 30
      = {ip \<in> set (map (\<lambda>i. base_value (ipv4_new 192 168 1 0) 30 + of_nat i) [0..<2 ^ host_bits 30]). host_octet ip}"
    unfolding subnet_hosts_def by blast
  also have "\<dots> = set (filter host_octet
      (map (\<lambda>i. base_value (ipv4_new 192 168 1 0) 30 + of_nat i) [0..<2 ^ host_bits 30]))"
    by simp
  also have "filter host_octet (map (\<lambda>i. base_value (ipv4_new 192 168 1 0) 30 + of_nat i) [0..<2 ^ host_bits 30])
      = [ipv4_new 192 168 1 1, ipv4_new 192 168 1 2, ipv4_new 192 168 1 3]"
    by code_simp
  finally show ?thesis by simp
qed

theorem scan_over_wires_witness:
  "\<exists>ds. scan_found sample_os [] (wired (\<lambda>_. False) sample_os None sample_air) (ipv4_new 192 168 1 0, 30) None = Inr ds
     \<and> map dev_ip ds = [9, ipv4_new 192 168 1 2] \<and> map dev_os_hint ds = [None, None]"
proof -
  obtain i where i: "find_interface (os_pnet sample_os) None = Some i"
    "first_ipv4 i = Some (ipv4_new 192 168 1 10)" "ni_mac i = Some (MacAddr6 2 0 0 0 0 1)"
    by (rule sample_interface_found)
  let ?base = "ipv4_new 192 168 1 0"
  have air: "sa_arp sample_air \<noteq> None" "sa_listed sample_air es = [\<lparr>entry_ip = 9, entry_mac = alice_mac\<rparr>]"
    "subnet_hosts ?base 30 \<subseteq> set (sa_hosts sample_air)" "mset (sa_resolved sample_air ips) = mset ips" for es ips
    unfolding sample_hosts by (simp_all add: sample_air_def)
  let ?src = "ipv4_new 192 168 1 10"
  have good: "1 \<le> unat (30 :: byte)" "unat (30 :: byte) \<le> 32" by simp_all
  have alive: "host_alive sample_air ?src ip \<longleftrightarrow> ip = ipv4_new 192 168 1 2" for ip
    by (simp add: host_alive_pinged sample_air_own sample_air_pinged)
  have listed: "distinct (sa_listed sample_air (arp_collected sample_air))"
    "set (sa_listed sample_air (arp_collected sample_air)) = arp_collected sample_air"
    "inj_on entry_ip (arp_collected sample_air)"
    by (simp_all add: sample_air_collected air(2))
  obtain ds where ds: "scan_found sample_os [] (wired (\<lambda>_. False) sample_os None sample_air) (?base, 30) None = Inr ds"
    "sorted_wrt (<) (map dev_ip ds)"
    and found: "set (map dev_ip ds) = entry_ip ` arp_collected sample_air
        \<union> {ip \<in> subnet_hosts ?base 30 - {?src}. host_alive sample_air ?src ip}"
    and hints: "own_answers sample_air \<longrightarrow> (\<forall>ip. host_alive sample_air ?src ip = pinged sample_air ip)
        \<and> (\<forall>d \<in> set ds. dev_os_hint d = None)"
    using scan_over_wires [OF i good air(1) listed(3,1,2) air(3,4), of "[]" "\<lambda>_. False"]
    by (elim exE conjE) (rule that)
  have ds3: "set (map dev_ip ds) = {9} \<union> {ip \<in> subnet_hosts ?base 30 - {?src}. ip = ipv4_new 192 168 1 2}"
    unfolding found alive by (simp add: sample_air_collected)
  have "ipv4_new 192 168 1 2 \<noteq> ipv4_new 192 168 1 10" by code_simp
  with ds3 have all: "set (map dev_ip ds) = set [9, ipv4_new 192 168 1 2]" unfolding sample_hosts by auto
  have "9 < ipv4_new 192 168 1 2" by code_simp
  then have "sorted_wrt (<) [9, ipv4_new 192 168 1 2]" by simp
  from strict_sorted_equal [OF this ds(2) all] have ips: "map dev_ip ds = [9, ipv4_new 192 168 1 2]" .
  then obtain d1 d2 where "ds = [d1, d2]" by (auto simp: map_eq_Cons_conv)
  moreover have "\<forall>d \<in> set ds. dev_os_hint d = None" using hints sample_air_own by blast
  ultimately have "map dev_os_hint ds = [None, None]" by simp
  with ds(1) ips show ?thesis by (intro exI [of _ ds] conjI)
qed

end
