(* ===== verification/Survey_Wires.thy ===== *)
theory Survey_Wires
  imports Scan_Wires Survey_Results
begin

text \<open>
  A survey down to the packets: each candidate subnet is swept and scanned over sockets of its own,
  which is what \<open>Survey\<close> takes as the outcome of its probes; and what the number of hosts that a
  survey reports for a subnet counts.
\<close>

section \<open>The probe of a candidate\<close>

text \<open>The hosts are counted from the sweep, and from an ARP scan if the sweep found one or the
  output is verbose.\<close>

definition probe_subnet_for_hosts ::
  "os_view \<Rightarrow> string option \<Rightarrow> bool \<Rightarrow> scan_air \<Rightarrow> ipv4 \<Rightarrow> byte \<Rightarrow> nat option outcome" where
  "probe_subnet_for_hosts os iface verbose air network p =
     (if p < 24 \<or> 30 < p then Inr None
      else
        outcome_bind (sweep_subnet_start os network p {} iface) (\<lambda>st.
          (let count = length (swept (alive_hosts os iface air) st)
           in if 0 < count \<or> verbose then
                outcome_bind (scan_subnet os network p iface (arp_received air)) (\<lambda>(frames, arp_results).
                  Inr (Some (if count < length arp_results then length arp_results else count)))
              else Inr (Some 0))))"

text \<open>What reaches a survey: the frames on the interface, the UPnP answers of each gateway, the
  sockets of each candidate's probe, and the order in which the probes end.\<close>

record survey_air =
  sv_frames :: "bytes option list option"
  sv_upnp :: upnp_env
  sv_wan :: "ipv4 \<Rightarrow> recv list option"
  sv_routes :: "ipv4 \<Rightarrow> recv list option"
  sv_scan :: "ipv4 \<times> byte \<Rightarrow> scan_air"
  sv_ended :: "(ipv4 \<times> byte) list \<Rightarrow> (ipv4 \<times> byte) list"

definition survey_probes ::
  "os_view \<Rightarrow> string option \<Rightarrow> bool \<Rightarrow> survey_air \<Rightarrow> survey_maps \<Rightarrow> ((ipv4 \<times> byte) \<times> nat option) list" where
  "survey_probes os iface verbose air sm =
     List.map_filter (\<lambda>(net, p).
         case probe_subnet_for_hosts os iface verbose (sv_scan air (net, p)) net p of
           Inl _ \<Rightarrow> None | Inr hosts \<Rightarrow> Some ((net, p), hosts))
       (sv_ended air (map fst (sm_subnets sm)))"

definition survey_wired ::
  "os_view \<Rightarrow> string option \<Rightarrow> bool \<Rightarrow> survey_air \<Rightarrow> discovered_subnet list outcome" where
  "survey_wired os iface verbose air =
     survey os iface (sv_frames air)
       (\<lambda>g. probe_gateway_upnp (sv_upnp air) g (sv_wan air g) (sv_routes air g))
       (survey_probes os iface verbose air)"

section \<open>What is counted\<close>

definition pinged_hosts :: "scan_air \<Rightarrow> ipv4 \<Rightarrow> ipv4 \<Rightarrow> byte \<Rightarrow> ipv4 set" where
  "pinged_hosts air src net p = {ip \<in> subnet_hosts net p - {src}. pinged air ip}"

text \<open>The hosts a probe of the sweep finds alive; with answers to own SYNs only, those that ping.\<close>

definition live_hosts :: "scan_air \<Rightarrow> ipv4 \<Rightarrow> ipv4 \<Rightarrow> byte \<Rightarrow> ipv4 set" where
  "live_hosts air src net p = {ip \<in> subnet_hosts net p - {src}. host_alive air src ip}"

lemma live_hosts_pinged: "own_answers air \<Longrightarrow> live_hosts air src net p = pinged_hosts air src net p"
  by (simp add: live_hosts_def pinged_hosts_def host_alive_pinged)

definition counted :: "bool \<Rightarrow> nat \<Rightarrow> nat \<Rightarrow> nat" where
  "counted verbose pings replies = (if 0 < pings \<or> verbose then max pings replies else 0)"

text \<open>The tasks of a probe: the ARP task ends, every host of the subnet is in the list of those whose
  tasks end, and hash sets are listed without losing an element.\<close>

definition probe_air_ok :: "scan_air \<Rightarrow> ipv4 \<Rightarrow> byte \<Rightarrow> bool" where
  "probe_air_ok air net p \<longleftrightarrow>
     sa_arp air \<noteq> None \<and> distinct (sa_listed air (arp_collected air))
     \<and> set (sa_listed air (arp_collected air)) = arp_collected air
     \<and> subnet_hosts net p \<subseteq> set (sa_hosts air)"

lemma probe_counts:
  assumes iface: "find_interface (os_pnet os) iface = Some i" "first_ipv4 i = Some src" "ni_mac i = Some m"
    and p: "24 \<le> p" "p \<le> 30" and air: "probe_air_ok air net p"
  shows "probe_subnet_for_hosts os iface verbose air net p
    = Inr (Some (counted verbose (card (live_hosts air src net p)) (card (arp_collected air))))"
proof -
  have good: "good_prefix p"
    using p by (simp add: good_prefix_def word_le_nat_alt)
  have src: "find_source_ip os iface = Some src" by (simp add: find_source_ip_def iface(1,2))
  obtain hosts where hosts: "sweep_hosts net p {} src = Inr hosts" "set hosts = subnet_hosts net p - {src}"
    by (rule sweep_hosts_good [OF good, of net "{}" src]) simp
  let ?hits = "swept (alive_hosts os iface air) (sweep_init hosts)"
  have "set ?hits = live_hosts air src net p"
    using air by (auto simp: swept_waiting hosts(2) alive_hosts_def src live_hosts_def probe_air_ok_def)
  then have count: "length ?hits = card (live_hosts air src net p)"
    by (metis distinct_card swept_waiting(2))
  have "returns (subnet_iter net p)" by (metis returns_simps(1) subnet_iter_good [OF good])
  then obtain frames where arp: "scan_subnet os net p iface (arp_received air)
      = Inr (frames, sort_key entry_ip (sa_listed air (arp_collected air)))"
    using air by (auto simp: scan_subnet_def iface sweep_targets_def returns_iff arp_received_def probe_air_ok_def)
  have replies: "length (sa_listed air (arp_collected air)) = card (arp_collected air)"
    using air unfolding probe_air_ok_def by (metis distinct_card)
  have "\<not> (p < 24 \<or> 30 < p)" using p by auto
  then show ?thesis
    by (simp add: probe_subnet_for_hosts_def sweep_subnet_start_def src hosts(1) count arp replies
        counted_def Let_def del: length_greater_0_conv)
qed

section \<open>The result of a survey\<close>

lemma survey_wiredE:
  assumes "survey_wired os iface verbose air = Inr ds" "find_interface (os_pnet os) iface = Some i"
  obtains gws answers ls where "local_subnet_of (Some i) = Inr ls"
    "ds = survey_result (survey_candidates gws answers ls)
       (survey_probes os iface verbose air (survey_candidates gws answers ls))"
  using assms by (auto simp: survey_wired_def survey_def Let_def outcome_bind_Inr_iff)

lemma adjacent_candidate:
  "(n, p, s) \<in> set (adjacent_subnets_from (fst ls) (snd ls)) \<Longrightarrow>
   (n, p) \<in> fst ` set (sm_subnets (survey_candidates gws answers ls))"
proof -
  assume "(n, p, s) \<in> set (adjacent_subnets_from (fst ls) (snd ls))"
  then have "claim_source (None, n, p, s) \<in> claim_source ` set (layer_claims gws answers ls)"
    by (intro imageI) (auto simp: layer_claims_def)
  then have "(n, p) \<in> fst ` set (map claim_source (layer_claims gws answers ls))"
    by (force simp: claim_source_def)
  then have "map_of (sm_subnets (survey_candidates gws answers ls)) (n, p) \<noteq> None"
    unfolding survey_candidates_lookup(1) by (simp add: map_of_eq_None_iff)
  then show ?thesis by (simp add: map_of_eq_None_iff)
qed

lemma survey_entry_simps [simp]:
  "ds_network (survey_entry sm (c, h)) = fst c" "ds_prefix (survey_entry sm (c, h)) = snd c"
  "ds_host_count (survey_entry sm (c, h)) = h"
  by (simp_all add: survey_entry_def split: prod.splits)

definition host_count_spec ::
  "bool \<Rightarrow> survey_air \<Rightarrow> ipv4 \<Rightarrow> ipv4 \<times> byte \<Rightarrow> nat option" where
  "host_count_spec verbose air src c =
     (if 24 \<le> snd c \<and> snd c \<le> 30
      then Some (counted verbose (card (live_hosts (sv_scan air c) src (fst c) (snd c)))
             (card (arp_collected (sv_scan air c))))
      else None)"

lemma survey_probes_exact:
  assumes iface: "find_interface (os_pnet os) iface = Some i" "first_ipv4 i = Some src" "ni_mac i = Some m"
    and air: "\<And>n p. 24 \<le> p \<Longrightarrow> p \<le> 30 \<Longrightarrow> probe_air_ok (sv_scan air (n, p)) n p"
  shows "survey_probes os iface verbose air sm
    = map (\<lambda>c. (c, host_count_spec verbose air src c)) (sv_ended air (map fst (sm_subnets sm)))"
proof -
  have "probe_subnet_for_hosts os iface verbose (sv_scan air (n, p)) n p = Inr (host_count_spec verbose air src (n, p))"
    for n p
  proof (cases "24 \<le> p \<and> p \<le> 30")
    case True
    then show ?thesis using probe_counts [OF iface _ _ air] by (simp add: host_count_spec_def)
  next
    case False
    then show ?thesis by (auto simp: probe_subnet_for_hosts_def host_count_spec_def not_le)
  qed
  then have "(\<lambda>(net, p). case probe_subnet_for_hosts os iface verbose (sv_scan air (net, p)) net p of
         Inl _ \<Rightarrow> None | Inr hosts \<Rightarrow> Some ((net, p), hosts))
      = (\<lambda>c. Some (c, host_count_spec verbose air src c))"
    by (simp add: fun_eq_iff)
  then show ?thesis
    unfolding survey_probes_def by (simp add: List.map_filter_def comp_def)
qed

text \<open>C9: what a survey counts. On an interface with an IPv4 address and a MAC, when its probes all
  end, a survey that gets to its result reports every candidate next to the local subnet, no subnet
  twice, and for each with a prefix from 24 to 30 a number of hosts, for all others none. The number
  is that of the hosts of the subnet that a probe found alive or that of all ARP replies collected
  on the interface meanwhile, whatever subnet they come from, if that is larger; but it is 0 if
  nobody is alive, unless the output is verbose. Where the raw TCP sockets deliver only answers to
  the program's own SYNs, the hosts alive are those that answer ping.\<close>

theorem survey_counts_hosts:
  assumes run: "survey_wired os iface verbose air = Inr ds"
    and iface: "find_interface (os_pnet os) iface = Some i" "first_ipv4 i = Some src" "ni_mac i = Some m"
    and air: "\<And>n p. 24 \<le> p \<Longrightarrow> p \<le> 30 \<Longrightarrow> probe_air_ok (sv_scan air (n, p)) n p"
    and ended: "\<And>cs. mset (sv_ended air cs) = mset cs"
    and local: "local_subnet_of (Some i) = Inr (base, q)"
  shows "(\<forall>d \<in> set ds. ds_host_count d =
        (if 24 \<le> ds_prefix d \<and> ds_prefix d \<le> 30
         then Some (counted verbose
           (card (live_hosts (sv_scan air (ds_network d, ds_prefix d)) src (ds_network d) (ds_prefix d)))
           (card (arp_collected (sv_scan air (ds_network d, ds_prefix d)))))
         else None))
    \<and> (\<forall>c. own_answers (sv_scan air c) \<longrightarrow>
         live_hosts (sv_scan air c) src (fst c) (snd c) = pinged_hosts (sv_scan air c) src (fst c) (snd c))
    \<and> distinct (map (\<lambda>d. (ds_network d, ds_prefix d)) ds)
    \<and> (\<forall>(n, p, s) \<in> set (adjacent_subnets_from base q).
         \<exists>d \<in> set ds. ds_network d = n \<and> ds_prefix d = p)"
proof -
  obtain gws answers where ds: "ds = survey_result (survey_candidates gws answers (base, q))
       (survey_probes os iface verbose air (survey_candidates gws answers (base, q)))"
    using survey_wiredE [OF run iface(1)] local by auto
  let ?sm = "survey_candidates gws answers (base, q)"
  let ?ended = "sv_ended air (map fst (sm_subnets ?sm))"
  have ended': "set ?ended = fst ` set (sm_subnets ?sm)" "distinct ?ended"
    using ended survey_candidates_lookup(3)
    by (metis mset_eq_setD list.set_map) (metis ended mset_eq_imp_distinct_iff survey_candidates_lookup(3))
  have ds: "ds = survey_result ?sm (map (\<lambda>c. (c, host_count_spec verbose air src c)) ?ended)"
    unfolding ds by (simp only: survey_probes_exact [OF iface air])
  have set: "set ds = (\<lambda>c. survey_entry ?sm (c, host_count_spec verbose air src c)) ` fst ` set (sm_subnets ?sm)"
    unfolding ds survey_result_def by (simp add: ended'(1) image_image)
  have same: "mset (map (\<lambda>d. (ds_network d, ds_prefix d)) ds) = mset ?ended"
    unfolding ds survey_result_def by (simp add: multiset.map_comp comp_def)
  have "distinct (map (\<lambda>d. (ds_network d, ds_prefix d)) ds)"
    using ended'(2) unfolding mset_eq_imp_distinct_iff [OF same] .
  moreover have "\<forall>d \<in> set ds. ds_host_count d = host_count_spec verbose air src (ds_network d, ds_prefix d)"
    unfolding set by (simp add: ball_simps)
  moreover have "\<forall>(n, p, s) \<in> set (adjacent_subnets_from base q).
      \<exists>d \<in> set ds. ds_network d = n \<and> ds_prefix d = p"
  proof clarify
    fix n p s
    assume "(n, p, s) \<in> set (adjacent_subnets_from base q)"
    then have "(n, p) \<in> fst ` set (sm_subnets ?sm)" by (intro adjacent_candidate) simp
    then have "survey_entry ?sm ((n, p), host_count_spec verbose air src (n, p)) \<in> set ds"
      unfolding set by (rule imageI)
    then show "\<exists>d \<in> set ds. ds_network d = n \<and> ds_prefix d = p" by (rule bexI [rotated]) simp
  qed
  moreover have "\<forall>c. own_answers (sv_scan air c) \<longrightarrow>
      live_hosts (sv_scan air c) src (fst c) (snd c) = pinged_hosts (sv_scan air c) src (fst c) (snd c)"
    by (simp add: live_hosts_pinged)
  ultimately show ?thesis unfolding host_count_spec_def fst_conv snd_conv by (intro conjI)
qed

text \<open>Nobody answers ping, and every probe collects the ARP reply of one host that is in none of
  the candidate subnets.\<close>

definition stranger_air :: survey_air where
  "stranger_air =
     \<lparr>sv_frames = None, sv_upnp = deaf_upnp, sv_wan = (\<lambda>_. None), sv_routes = (\<lambda>_. None),
      sv_scan = (\<lambda>(net, p). sample_air
        \<lparr>sa_icmp := (\<lambda>_. None), sa_hosts := map (\<lambda>i. base_value net p + of_nat i) [0..<2 ^ host_bits p]\<rparr>),
      sv_ended = (\<lambda>cs. cs)\<rparr>"

lemma stranger_air_collected:
  "arp_collected (sv_scan stranger_air c) = {\<lparr>entry_ip = 9, entry_mac = alice_mac\<rparr>}"
  by (cases c) (simp add: stranger_air_def arp_collected_def sample_air_def receive_arp_responses_def)

lemma stranger_air_ok: "24 \<le> p \<Longrightarrow> p \<le> 30 \<Longrightarrow> probe_air_ok (sv_scan stranger_air (n, p)) n p"
proof -
  assume "24 \<le> p" "p \<le> 30"
  then have "good_prefix p" by (simp add: good_prefix_def word_le_nat_alt)
  then have "subnet_hosts n p \<subseteq> set (map (\<lambda>i. base_value n p + of_nat i) [0..<2 ^ host_bits p])"
    unfolding set_addresses [OF \<open>good_prefix p\<close>] by (auto simp: subnet_hosts_def)
  then show ?thesis
    unfolding probe_air_ok_def stranger_air_collected
    by (simp add: stranger_air_def) (simp add: sample_air_def)
qed

lemma stranger_pings: "live_hosts (sv_scan stranger_air c) src n p = {}"
proof -
  have "own_answers (sv_scan stranger_air c)"
    using sample_air_own by (cases c) (simp add: own_answers_def stranger_air_def)
  then show ?thesis
    by (cases c) (simp add: live_hosts_pinged pinged_hosts_def pinged_def stranger_air_def icmp_probe_def joined_def)
qed

lemma quiet_locals:
  assumes "find_interface (os_pnet sample_os) None = Some i"
  shows "local_subnet_of (Some i) = Inr (ipv4_new 192 168 1 0, 24)"
proof -
  have "ipv4_new 192 168 1 10 AND NOT (mask 8) = ipv4_new 192 168 1 0"
    by (simp add: ipv4_new_def mask_eq_exp_minus_1)
  with assms show ?thesis
    by (auto simp: local_subnet_of_def sample_os_def find_interface_def suitable_def
        is_ipv4_def network_base_def netmask_eq)
qed

theorem survey_counts_hosts_witness:
  "\<forall>verbose. \<exists>ds d. survey_wired sample_os None verbose stranger_air = Inr ds \<and> d \<in> set ds
     \<and> ds_network d = ipv4_new 192 168 0 0 \<and> ds_host_count d = Some (if verbose then 1 else 0)"
proof
  fix verbose
  obtain i where i: "find_interface (os_pnet sample_os) None = Some i"
    "first_ipv4 i = Some (ipv4_new 192 168 1 10)" "ni_mac i = Some (MacAddr6 2 0 0 0 0 1)"
    by (rule sample_interface_found)
  have local: "local_subnet_of (Some i) = Inr (ipv4_new 192 168 1 0, 24)" by (rule quiet_locals [OF i(1)])
  have "detect_gateways_passive (os_pnet sample_os) (ni_name i) None = Inr [] \<or>
      (\<exists>e. detect_gateways_passive (os_pnet sample_os) (ni_name i) None = Inl e)"
    by (cases "detect_gateways_passive (os_pnet sample_os) (ni_name i) None")
      (auto simp: detect_gateways_passive_def outcome_bind_Inr_iff split: option.splits)
  then obtain ds where ds: "survey_wired sample_os None verbose stranger_air = Inr ds"
    using i(1) local by (auto simp: survey_wired_def survey_def stranger_air_def Let_def)
  have ended: "mset (sv_ended stranger_air cs) = mset cs" for cs by (simp add: stranger_air_def)
  note facts = survey_counts_hosts [OF ds i stranger_air_ok ended local]
  have "(ipv4_new 192 168 0 0, 24, AdjacentSweep) \<in> set (adjacent_subnets_from (ipv4_new 192 168 1 0) 24)"
    by code_simp
  with facts [THEN conjunct2, THEN conjunct2, THEN conjunct2]
  obtain d where d: "d \<in> set ds" "ds_network d = ipv4_new 192 168 0 0" "ds_prefix d = 24" by blast
  then have "ds_host_count d = Some (if verbose then 1 else 0)"
    using facts [THEN conjunct1]
    by (simp add: stranger_pings stranger_air_collected counted_def)
  with ds d(1,2) show "\<exists>ds d. survey_wired sample_os None verbose stranger_air = Inr ds \<and> d \<in> set ds
     \<and> ds_network d = ipv4_new 192 168 0 0 \<and> ds_host_count d = Some (if verbose then 1 else 0)"
    by (intro exI [of _ ds] exI [of _ d] conjI)
qed

end
