(* ===== verification/Listen_Output.thy ===== *)
theory Listen_Output
  imports Listen_Ending
begin

text \<open>
  What \<open>listen\<close> in \<open>discovery/passive.rs\<close> prints to the standard output: the line of its
  capability, one line for each host when it is first heard, one for each event of services, and
  the number of devices when it returns.
\<close>

section \<open>The output\<close>

definition capability_name :: "capability \<Rightarrow> string" where
  "capability_name cap =
     (case cap of RawSocket \<Rightarrow> ''RawSocket'' | ArpTable \<Rightarrow> ''ArpTable'' | MdnsOnly \<Rightarrow> ''MdnsOnly'')"

definition listen_header :: "capability \<Rightarrow> listen_line list" where
  "listen_header cap =
     [Text_Line (''Listening (capability: '' @ capability_name cap @ ''). Press Ctrl-C to stop.''), Text_Line []]"

definition listen_footer :: "session \<Rightarrow> listen_line list" where
  "listen_footer s =
     [Text_Line [], Text_Line (''Listener stopped. '' @ show_nat (captured s) @ '' device(s) captured.'')]"

definition listen_output :: "capability \<Rightarrow> session \<Rightarrow> listen_line list" where
  "listen_output cap s =
     listen_header cap @ ls_lines (se_loop s) @ (if se_joined s then listen_footer s else [])"

section \<open>One line for each host\<close>

lemma list_all2_in_set1: "list_all2 P xs ys \<Longrightarrow> x \<in> set xs \<Longrightarrow> \<exists>y \<in> set ys. P x y"
  by (induction rule: list_all2_induct) auto

definition new_line_of :: "string \<Rightarrow> arp_entry \<Rightarrow> listen_line \<Rightarrow> bool" where
  "new_line_of oui e line \<longleftrightarrow>
     (\<exists>tag. line = new_line (entry_ip e) (entry_mac e) (oui_lookup oui (entry_mac e)) (Some tag))"

definition is_text :: "listen_line \<Rightarrow> bool" where
  "is_text line \<longleftrightarrow> (case line of Text_Line _ \<Rightarrow> True | Debug_Line _ _ \<Rightarrow> False)"

lemma is_text_simps [simp]: "is_text (new_line ip m vendor tag)" "\<not> is_text (svc_line ip services)"
  by (simp_all add: is_text_def new_line_def svc_line_def)

text \<open>\<open>es\<close> are the hosts in the order they were heard.\<close>

definition printed_hosts :: "string \<Rightarrow> arp_entry list \<Rightarrow> listener \<Rightarrow> bool" where
  "printed_hosts oui es l \<longleftrightarrow>
     distinct (map entry_ip es) \<and> ls_seen l = map_of (map entry_pair es)
     \<and> list_all2 (new_line_of oui) es (filter is_text (ls_lines l))"

text \<open>The line of an event of services comes after that of its host.\<close>

definition services_after_host :: "string \<Rightarrow> listen_line list \<Rightarrow> bool" where
  "services_after_host oui lines \<longleftrightarrow>
     (\<forall>before line after. lines = before @ line # after \<longrightarrow> \<not> is_text line \<longrightarrow>
        (\<exists>e services. line = svc_line (entry_ip e) services \<and> (\<exists>l \<in> set before. new_line_of oui e l)))"

lemma services_after_host_snoc:
  "services_after_host oui (lines @ [x]) \<longleftrightarrow> services_after_host oui lines
     \<and> (\<not> is_text x \<longrightarrow>
          (\<exists>e services. x = svc_line (entry_ip e) services \<and> (\<exists>l \<in> set lines. new_line_of oui e l)))"
  (is "_ \<longleftrightarrow> _ \<and> ?last")
proof
  assume all: "services_after_host oui (lines @ [x])"
  have "services_after_host oui lines"
    unfolding services_after_host_def
  proof (intro allI impI)
    fix before line after
    assume "lines = before @ line # after" "\<not> is_text line"
    then show "\<exists>e services. line = svc_line (entry_ip e) services \<and> (\<exists>l \<in> set before. new_line_of oui e l)"
      using all [unfolded services_after_host_def, rule_format, of before line "after @ [x]"] by simp
  qed
  with all [unfolded services_after_host_def, rule_format, of lines x "[]"]
  show "services_after_host oui lines \<and> ?last" by simp
next
  assume old: "services_after_host oui lines \<and> ?last"
  show "services_after_host oui (lines @ [x])"
    unfolding services_after_host_def
  proof (intro allI impI)
    fix before line after
    assume split: "lines @ [x] = before @ line # after" and line: "\<not> is_text line"
    show "\<exists>e services. line = svc_line (entry_ip e) services \<and> (\<exists>l \<in> set before. new_line_of oui e l)"
    proof (cases after rule: rev_cases)
      case Nil
      with split old line show ?thesis by simp
    next
      case (snoc ys y)
      with split have "lines = before @ line # ys" by simp
      with old line show ?thesis unfolding services_after_host_def by blast
    qed
  qed
qed

definition output_ok :: "string \<Rightarrow> listener \<Rightarrow> bool" where
  "output_ok oui l \<longleftrightarrow>
     store_inv (ls_store l) \<and> (\<exists>es. printed_hosts oui es l) \<and> services_after_host oui (ls_lines l)"

lemma map_of_snoc: "map_of xs k = None \<Longrightarrow> map_of (xs @ [(k, v)]) = (map_of xs)(k \<mapsto> v)"
  by (auto simp: map_add_def split: option.splits)

text \<open>A tag is never missing, and every address seen has its line.\<close>

lemma upsert_tag:
  assumes "store_inv s" "values_of vals s" "upsert vals now g d s = Inr (s', r)"
  obtains tag where "rec_tag r = Some tag"
proof -
  have "record_ok (rec_key r) r" using upsert_step [OF assms] store_invD by blast
  then show thesis using that by (auto simp: record_ok_def record_shape_def)
qed

lemma seen_has_line:
  assumes "printed_hosts oui es l" "ls_seen l ip = Some m"
  shows "\<exists>line \<in> set (ls_lines l). new_line_of oui \<lparr>entry_ip = ip, entry_mac = m\<rparr> line"
proof -
  have "(ip, m) \<in> entry_pair ` set es" using assms map_of_SomeD by (fastforce simp: printed_hosts_def)
  then obtain e where e: "e \<in> set es" "e = \<lparr>entry_ip = ip, entry_mac = m\<rparr>" by (auto simp: entry_pair_def)
  then obtain line where "line \<in> set (filter is_text (ls_lines l))" "new_line_of oui e line"
    using assms(1) list_all2_in_set1 unfolding printed_hosts_def by metis
  with e(2) show ?thesis by auto
qed

lemma printed_hosts_snoc:
  assumes "printed_hosts oui es l" "ls_seen l (entry_ip e) = None" "new_line_of oui e line" "is_text line"
    and "ls_seen l' = (ls_seen l)(entry_ip e \<mapsto> entry_mac e)" "ls_lines l' = ls_lines l @ [line]"
  shows "printed_hosts oui (es @ [e]) l'"
proof -
  have "map_of (map entry_pair es) (entry_ip e) = None" using assms(1,2) by (simp add: printed_hosts_def)
  then have "entry_ip e \<notin> set (map entry_ip es)" by (auto simp: map_of_eq_None_iff entry_pair_def image_iff)
  moreover have "map_of (map entry_pair (es @ [e])) = (map_of (map entry_pair es))(entry_ip e \<mapsto> entry_mac e)"
    using map_of_snoc [OF \<open>map_of (map entry_pair es) (entry_ip e) = None\<close>] by (simp add: entry_pair_def)
  ultimately show ?thesis
    using assms by (simp add: printed_hosts_def list_all2_appendI)
qed

lemma output_ok_step:
  assumes "output_ok oui l" "listen_step js oui l l'"
  shows "output_ok oui l'"
proof -
  from assms(1) obtain es where inv: "store_inv (ls_store l)" and es: "printed_hosts oui es l"
    and after: "services_after_host oui (ls_lines l)" by (auto simp: output_ok_def)
  from assms(2) show ?thesis
  proof (cases rule: listen_step.cases)
    case (entry vals now e)
    from entry(2) show ?thesis
    proof (cases rule: on_entry_cases)
      case (fresh store r)
      obtain tag where "rec_tag r = Some tag" using upsert_tag [OF inv entry(1) fresh(2)] .
      then have "new_line_of oui e (new_line (entry_ip e) (entry_mac e) (oui_lookup oui (entry_mac e)) (rec_tag r))"
        by (auto simp: new_line_of_def)
      from printed_hosts_snoc [OF es fresh(1) this, of l'] have "printed_hosts oui (es @ [e]) l'"
        by (simp add: fresh(3))
      moreover have "store_inv (ls_store l')" using upsert_step [OF inv entry(1) fresh(2)] by (simp add: fresh(3))
      ultimately show ?thesis
        using after by (auto simp: output_ok_def services_after_host_snoc fresh(3))
    qed (use assms(1) in simp)
  next
    case (services vals now ev)
    from services(2) show ?thesis
    proof (cases rule: on_services_cases)
      case (known m store r)
      have "\<exists>line \<in> set (ls_lines l). new_line_of oui \<lparr>entry_ip = sev_ip ev, entry_mac = m\<rparr> line"
        using seen_has_line [OF es known(1)] .
      then have "services_after_host oui (ls_lines l')"
        using after by (auto simp: known(3) services_after_host_snoc intro!: exI [of _ "\<lparr>entry_ip = sev_ip ev, entry_mac = m\<rparr>"])
      moreover have "printed_hosts oui es l'" using es by (simp add: printed_hosts_def known(3))
      moreover have "store_inv (ls_store l')" using upsert_step [OF inv services(1) known(2)] by (simp add: known(3))
      ultimately show ?thesis by (auto simp: output_ok_def)
    qed (use assms(1) in simp)
  qed
qed

interpretation listen_prints: invariant_system "\<lambda>l. \<exists>dk. store_inv (store_load js dk) \<and> l = listen_init js dk"
    "listen_step js oui" "output_ok oui" for js oui
proof
  show "\<exists>dk. store_inv (store_load js dk) \<and> l = listen_init js dk \<Longrightarrow> output_ok oui l" for l
    by (auto simp: output_ok_def printed_hosts_def services_after_host_def listen_init_def)
qed (rule output_ok_step)

text \<open>What one step of a session adds to the lines: nothing, or at the end the NEW line of the entry it
  takes from its channel, with the tag of the record that is now stored for the host, or the line
  of the event of services it takes.\<close>

definition step_lines :: "string \<Rightarrow> session \<Rightarrow> session \<Rightarrow> bool" where
  "step_lines oui s t \<longleftrightarrow>
     ls_lines (se_loop t) = ls_lines (se_loop s) \<and> ls_seen (se_loop t) = ls_seen (se_loop s)
     \<or> (\<exists>e es r tag. se_entries s = e # es \<and> se_entries t = es
          \<and> ls_seen (se_loop s) (entry_ip e) = None
          \<and> ls_seen (se_loop t) = (ls_seen (se_loop s))(entry_ip e \<mapsto> entry_mac e)
          \<and> ls_lines (se_loop t) = ls_lines (se_loop s)
              @ [new_line (entry_ip e) (entry_mac e) (oui_lookup oui (entry_mac e)) (Some tag)]
          \<and> ls_store (se_loop t) (rec_key r) = Some r \<and> rec_tag r = Some tag
          \<and> rec_last_ip r = show_ipv4 (entry_ip e))
     \<or> (\<exists>ev evs. se_services s = ev # evs \<and> se_services t = evs
          \<and> ls_seen (se_loop s) (sev_ip ev) \<noteq> None \<and> ls_seen (se_loop t) = ls_seen (se_loop s)
          \<and> ls_lines (se_loop t) = ls_lines (se_loop s) @ [svc_line (sev_ip ev) (sev_services ev)])"

lemma session_step_lines:
  assumes inv: "store_inv (ls_store (se_loop s))" and step: "session_step js oui s t"
  shows "step_lines oui s t"
  using step
proof (cases rule: session_step.cases)
  case (recv_entry e es vals now l)
  from recv_entry(5) show ?thesis
  proof (cases rule: on_entry_cases)
    case (fresh store r)
    obtain tag where tag: "rec_tag r = Some tag" using upsert_tag [OF inv recv_entry(4) fresh(2)] .
    have "store (rec_key r) = Some r" "rec_last_ip r = show_ipv4 (entry_ip e)"
      using upsert_step [OF inv recv_entry(4) fresh(2)] by (simp_all add: device_from_def)
    then have "\<exists>e es r tag. se_entries s = e # es \<and> se_entries t = es
          \<and> ls_seen (se_loop s) (entry_ip e) = None
          \<and> ls_seen (se_loop t) = (ls_seen (se_loop s))(entry_ip e \<mapsto> entry_mac e)
          \<and> ls_lines (se_loop t) = ls_lines (se_loop s)
              @ [new_line (entry_ip e) (entry_mac e) (oui_lookup oui (entry_mac e)) (Some tag)]
          \<and> ls_store (se_loop t) (rec_key r) = Some r \<and> rec_tag r = Some tag
          \<and> rec_last_ip r = show_ipv4 (entry_ip e)"
      using recv_entry(1,3) fresh(1,3) tag by (intro exI [of _ e] exI [of _ es] exI [of _ r] exI [of _ tag]) simp
    then show ?thesis unfolding step_lines_def by blast
  qed (simp add: step_lines_def recv_entry(1))
next
  case (recv_service ev evs vals now l)
  from recv_service(5) show ?thesis
    by (cases rule: on_services_cases) (simp_all add: step_lines_def recv_service(1,3))
qed (simp_all add: step_lines_def)

text \<open>C14: what a listening session prints. At any moment of a session over a consistent registry the
  hosts it knows have each been printed by one NEW line, with their address, the MAC noted for them,
  the vendor of that MAC and a tag, never a dash; each was sent by a thread; and the line of an event
  of services is for a host printed before it. The lines are in the order in which the loop takes
  entries and events from their channels: every step from here on leaves them as they are or adds
  one at the end, the NEW line of the entry taken, with the tag of the record now stored for the
  host, or the line of the services taken. When the listener returns, the last line counts the NEW
  lines.\<close>

theorem session_prints_hosts_once:
  assumes "store_inv (store_load js dk)" and "(session_step js oui)\<^sup>*\<^sup>* (session_init js dk threads) s"
  shows "(\<exists>es. distinct (map entry_ip es) \<and> set (map entry_ip es) = dom (ls_seen (se_loop s))
      \<and> (\<forall>e \<in> set es. Send_Entry e \<in> sent_of threads s)
      \<and> list_all2 (\<lambda>e line. \<exists>tag. line = new_line (entry_ip e) (entry_mac e)
             (oui_lookup oui (entry_mac e)) (Some tag))
          es (filter is_text (ls_lines (se_loop s))))
    \<and> services_after_host oui (ls_lines (se_loop s))
    \<and> (\<forall>t. session_step js oui s t \<longrightarrow> step_lines oui s t)
    \<and> (se_joined s \<longrightarrow> listen_output cap s = listen_header cap @ ls_lines (se_loop s)
        @ [Text_Line [], Text_Line (''Listener stopped. ''
             @ show_nat (length (filter is_text (ls_lines (se_loop s)))) @ '' device(s) captured.'')])"
proof -
  have "(listen_step js oui)\<^sup>*\<^sup>* (listen_init js dk) (se_loop s)"
    using session_loop.run_simulates [OF assms(2)] by (simp add: session_init_def)
  then have "output_ok oui (se_loop s)" using listen_prints.reachable_inv assms(1) by blast
  then obtain es where es: "printed_hosts oui es (se_loop s)" and inv: "store_inv (ls_store (se_loop s))"
    and after: "services_after_host oui (ls_lines (se_loop s))" by (auto simp: output_ok_def)
  have steps: "\<forall>t. session_step js oui s t \<longrightarrow> step_lines oui s t"
    using session_step_lines [OF inv] by blast
  have seen: "ls_seen (se_loop s) = map_of (map entry_pair es)" and dist: "distinct (map entry_ip es)"
    and lines: "list_all2 (new_line_of oui) es (filter is_text (ls_lines (se_loop s)))"
    using es by (simp_all add: printed_hosts_def)
  have keys: "map fst (map entry_pair es) = map entry_ip es" by (simp add: entry_pair_def)
  then have dom: "set (map entry_ip es) = dom (ls_seen (se_loop s))"
    by (simp add: seen dom_map_of_conv_image_fst image_image entry_pair_def)
  have "accounts threads s" using session_accounts.reachable_inv [OF _ assms(2)] by blast
  moreover have "ls_seen (se_loop s) (entry_ip e) = Some (entry_mac e)" if "e \<in> set es" for e
    unfolding seen
  proof (rule map_of_is_SomeI)
    show "distinct (map fst (map entry_pair es))" unfolding keys by (rule dist)
    show "(entry_ip e, entry_mac e) \<in> set (map entry_pair es)" using that by (auto simp: entry_pair_def)
  qed
  ultimately have sent: "\<forall>e \<in> set es. Send_Entry e \<in> sent_of threads s"
    unfolding accounts_def by (metis entry_of_fields)
  have "captured s = length es"
    unfolding captured_def dom [symmetric] using distinct_card [OF dist] by simp
  then have "captured s = length (filter is_text (ls_lines (se_loop s)))"
    using list_all2_lengthD [OF lines] by simp
  then have last: "se_joined s \<longrightarrow> listen_output cap s = listen_header cap @ ls_lines (se_loop s)
      @ [Text_Line [], Text_Line (''Listener stopped. ''
           @ show_nat (length (filter is_text (ls_lines (se_loop s)))) @ '' device(s) captured.'')]"
    by (simp add: listen_output_def listen_footer_def)
  show ?thesis
    using dist dom sent lines after steps last unfolding new_line_of_def by blast
qed

theorem session_prints_hosts_once_witness:
  "\<exists>s (e :: arp_entry) tag. (session_step no_json [])\<^sup>*\<^sup>* (session_init no_json blank_disk [[[Send_Entry (mdns_entry 5)]]]) s
     \<and> entry_ip e = 5 \<and> (\<forall>t. session_step no_json [] s t \<longrightarrow> step_lines [] s t)
     \<and> filter is_text (ls_lines (se_loop s)) = [new_line 5 (entry_mac e) (oui_lookup [] (entry_mac e)) (Some tag)]"
proof -
  obtain s t where run: "(session_step no_json [])\<^sup>*\<^sup>* (session_init no_json blank_disk [[[Send_Entry (mdns_entry 5)]]]) s"
      "session_step no_json [] s t" and seen: "ls_seen (se_loop t) = [5 \<mapsto> mac_broadcast]"
    using one_host_session by blast
  from run have run_t: "(session_step no_json [])\<^sup>*\<^sup>* (session_init no_json blank_disk [[[Send_Entry (mdns_entry 5)]]]) t"
    by simp
  have "store_inv (store_load no_json blank_disk)" by (simp add: store_inv_empty)
  note printed = session_prints_hosts_once [OF this run_t]
  have dom: "dom (ls_seen (se_loop t)) = {5}" by (simp add: seen)
  from printed [THEN conjunct1, unfolded dom]
  obtain es :: "arp_entry list" where es: "distinct (map entry_ip es)"
      "set (map entry_ip es) = {5}"
      "list_all2 (\<lambda>e line. \<exists>tag. line = new_line (entry_ip e) (entry_mac e) (oui_lookup [] (entry_mac e)) (Some tag))
        es (filter is_text (ls_lines (se_loop t)))"
    by blast
  from es(1,2) have "length es = 1" by (metis card.empty card_insert_disjoint distinct_card empty_iff finite.emptyI length_map One_nat_def)
  then obtain e where e: "es = [e]" by (auto simp: length_Suc_conv)
  have "\<forall>u. session_step no_json [] t u \<longrightarrow> step_lines [] t u"
    using printed by blast
  moreover obtain tag where
    "filter is_text (ls_lines (se_loop t)) = [new_line 5 (entry_mac e) (oui_lookup [] (entry_mac e)) (Some tag)]"
    "entry_ip e = 5"
    using e es(2,3) by (auto simp: list_all2_Cons1)
  ultimately show ?thesis
    using run_t by (intro exI [of _ t] exI [of _ e] exI [of _ tag] conjI)
qed

end
