(* ===== verification/Program.thy ===== *)
theory Program
  imports Survey_Wires Listen_Output
begin

text \<open>
  \<open>main.rs\<close> and the entries of \<open>cli/commands.rs\<close>: one run of the program over everything its
  sockets deliver, with all it prints to the standard output, and how a run can fail.
\<close>

section \<open>What is printed\<close>

text \<open>\<open>println!\<close> ends the lines; an empty line is \<open>[]\<close>.\<close>

definition backslash :: string where
  "backslash = [CHR 0x5C]"

definition banner :: "string list" where
  "banner =
     [[],
      ''  __ _  __ _ _ __  _ __   ___| |_'',
      '' / _'' @ [CHR 0x60] @ '' |/ _'' @ [CHR 0x60] @ '' | '' @ [CHR 0x27] @ ''_ '' @ backslash @ ''| '' @ [CHR 0x27] @ ''_ ''
        @ backslash @ '' / _ '' @ backslash @ '' __|'',
      ''| (_| | (_| | | | | | | |  __/ |_'',
      '' '' @ backslash @ ''__, |'' @ backslash @ ''__,_|_| |_|_| |_|'' @ backslash @ ''___|'' @ backslash @ ''__|'',
      '' |___/'',
      []]"

definition scan_stdout :: "scan_report \<Rightarrow> string list" where
  "scan_stdout rp =
     banner
     @ [''Scanning '' @ show_ipv4 (fst (sc_subnet rp)) @ ''/'' @ show_nat (unat (snd (sc_subnet rp))) @ ''...'', []]
     @ scan_output rp"

definition survey_stdout :: "discovered_subnet list \<Rightarrow> string list" where
  "survey_stdout subnets = banner @ [''Surveying networks...'', []] @ survey_output subnets"

definition listen_stdout :: "air \<Rightarrow> session \<Rightarrow> listen_line list" where
  "listen_stdout air s =
     map Text_Line banner
     @ listen_output (detect_capability (air_raw_socket air) (air_arp_table air)) s"

section \<open>The command line\<close>

datatype cli_command =
    Cmd_Scan "string option" "string option" bool
  | Cmd_Survey "string option" bool
  | Cmd_Listen "string option" bool
  | Cmd_Tag string string
  | Cmd_List

datatype effect = Printed "string list" | Listening session

text \<open>What the outside world is to one run of the program. The clock is read as the seconds since
  the epoch, \<open>None\<close> if it stands before it.\<close>

record world =
  wd_os :: os_view
  wd_oui :: string
  wd_unicode_upper :: "nat \<Rightarrow> bool"
  wd_scan :: scan_air
  wd_survey :: survey_air
  wd_air :: air
  wd_json :: json_codec
  wd_order :: "store \<Rightarrow> stored list"
  wd_clock :: "nat \<Rightarrow> nat option"

fun cli_main :: "world \<Rightarrow> cli_command \<Rightarrow> disk \<Rightarrow> (disk \<times> effect) outcome" where
  "cli_main w (Cmd_Scan subnet iface verbose) dk =
     outcome_bind
       (scan (wd_os w) (wd_oui w) (wired (wd_unicode_upper w) (wd_os w) iface (wd_scan w)) (wd_json w)
          (wd_order w) (now_secs \<circ> wd_clock w) subnet iface dk)
       (\<lambda>(dk', rp). Inr (dk', Printed (scan_stdout rp)))"
| "cli_main w (Cmd_Survey iface verbose) dk =
     outcome_bind
       (survey_command (wd_json w) (wd_order w) (now_secs \<circ> wd_clock w)
          (survey_wired (wd_os w) iface verbose (wd_survey w)) dk)
       (\<lambda>(dk', subnets). Inr (dk', Printed (survey_stdout subnets)))"
| "cli_main w (Cmd_Listen iface verbose) dk =
     Inr (dk, Listening (session_init (wd_json w) dk
       (session_threads (os_pnet (wd_os w)) iface (wd_air w))))"
| "cli_main w (Cmd_Tag ip tag) dk =
     outcome_bind (tag_command (wd_json w) ip tag dk)
       (\<lambda>(dk', tagged). Inr (dk', Printed [tag_output ip tag tagged]))"
| "cli_main w Cmd_List dk = Inr (dk, Printed (list_command (wd_json w) (wd_order w) dk))"

section \<open>How a run can fail\<close>

text \<open>The overflows of the subnet arithmetic: those of the mask of a prefix in a given set. A mask
  overflows for a prefix of 0 or above 32 alone.\<close>

definition mask_panics :: "byte set \<Rightarrow> panic set" where
  "mask_panics ps = {e. \<exists>p \<in> ps. netmask p = Inl e}"

lemma mask_panics_overflow: "mask_panics ps \<subseteq> {Shift_Overflow, Arithmetic_Overflow}"
  by (auto simp: mask_panics_def netmask_eq split: if_splits)

lemma netmask_fails: "p \<in> ps \<or> good_prefix p \<Longrightarrow> fails_with (mask_panics ps) (netmask p)"
  by (auto simp: mask_panics_def fails_with_def netmask_good)

lemma addresses_fails: "p \<in> ps \<or> good_prefix p \<Longrightarrow> fails_with (mask_panics ps) (addresses base p)"
proof (cases "good_prefix p")
  case False
  assume "p \<in> ps \<or> good_prefix p"
  then have "fails_with (mask_panics ps) (netmask p)" by (rule netmask_fails)
  with False show ?thesis
    by (cases "netmask p") (auto simp: addresses_def simp flip: netmask_returns)
qed (simp add: addresses_returns returns_fails_with)

lemma network_base_fails:
  assumes "p \<in> ps \<or> good_prefix p"
  shows "fails_with (mask_panics ps) (network_base ip p)"
    and "fails_with (mask_panics ps) (cli_network_base ip p)"
  unfolding network_base_def cli_network_base_def
  by (intro fails_with_bind netmask_fails [OF assms]; simp)+

lemma scan_found_fails:
  assumes "p \<in> ps \<or> good_prefix p"
  shows "fails_with (mask_panics ps) (scan_found os oui nw (base, p) iface)"
proof -
  have "fails_with (mask_panics ps) (sweep_subnet_start os base p known iface)" for known
    unfolding sweep_subnet_start_def sweep_hosts_def
    by (auto intro!: fails_with_bind addresses_fails [OF assms] split: option.splits)
  moreover have "fails_with (mask_panics ps) (scan_subnet os base p iface received)" for received
    unfolding scan_subnet_def sweep_targets_def subnet_iter_def
    by (auto intro!: fails_with_bind addresses_fails [OF assms] split: option.splits)
  ultimately show ?thesis
    unfolding scan_found_def by (auto intro!: fails_with_bind simp: Let_def split: prod.splits)
qed

text \<open>The prefix of the local network, as the scan without an argument looks it up.\<close>

definition auto_prefixes :: "os_view \<Rightarrow> string option \<Rightarrow> byte set" where
  "auto_prefixes os iface =
     {p. (\<exists>i ip. find_interface (os_pnet os) iface = Some i \<and> first_network (ni_ips i) = Some (ip, p))
       \<or> (\<exists>i ip rest. find_local_interface os iface = Some i \<and> li_ips i = (ip, p) # rest)}"

lemma good_24: "good_prefix 24"
  by (simp add: good_prefix_def)

lemma auto_subnet_prefix:
  "auto_subnet os iface = Inr (base, p) \<Longrightarrow> p \<in> auto_prefixes os iface \<or> good_prefix p"
  unfolding auto_subnet_def based_def auto_prefixes_def
  by (auto simp: good_24 outcome_bind_Inr_iff split: option.splits list.splits Option.bind_splits)

lemma auto_subnet_fails: "fails_with (mask_panics (auto_prefixes os iface)) (auto_subnet os iface)"
  unfolding auto_subnet_def based_def auto_prefixes_def
  by (auto intro!: fails_with_bind network_base_fails split: option.splits list.splits Option.bind_splits)

lemma parse_subnet_fails: "fails_with {Process_Exit 1} (parse_subnet input)"
  unfolding parse_subnet_def by (auto split: option.splits prod.splits)

text \<open>Every device recorded is one sighting: the counters overflow only if one of them is, before
  the first device, no further from its maximum than there are devices.\<close>

lemma upsert_all_fails:
  "store_inv s \<Longrightarrow> lists_values order \<Longrightarrow>
   fails_with {e. e = Arithmetic_Overflow \<and> \<not> room (length ds) s} (upsert_all order clock ds s)"
proof (induction ds arbitrary: s)
  case (Cons d ds)
  have vals: "values_of (order s) s" using Cons.prems by (intro lists_valuesD)
  note room = upsert_room [OF Cons.prems(1) vals, of "length ds" "clock (length ds)" tag_of d]
  show ?case
  proof (cases "upsert (order s) (clock (length ds)) tag_of d s")
    case (Inl e)
    then have "e = Arithmetic_Overflow"
      using upsert_total_lemma [OF Cons.prems(1) vals, of "clock (length ds)" tag_of d] by auto
    with Inl room show ?thesis by auto
  next
    case (Inr sr)
    then obtain s' r where step: "upsert (order s) (clock (length ds)) tag_of d s = Inr (s', r)" by (cases sr) simp
    then have "store_inv s'" using upsert_step [OF Cons.prems(1) vals] by blast
    from Cons.IH [OF this Cons.prems(2)] room show ?thesis
      by (auto simp: step fails_with_def split: sum.splits prod.splits)
  qed
qed simp

lemma survey_upserts_fails:
  "store_inv s \<Longrightarrow> lists_values order \<Longrightarrow>
   fails_with {e. e = Arithmetic_Overflow \<and> \<not> room (length ds) s} (survey_upserts order clock ds s)"
proof (induction ds arbitrary: s)
  case (Cons d ds)
  have vals: "values_of (order s) s" using Cons.prems by (intro lists_valuesD)
  let ?d = "from_sweep (ds_network d)"
  note room = upsert_room [OF Cons.prems(1) vals, of "length ds" "clock (length ds)" tag_of ?d]
  have skip: "fails_with {e. e = Arithmetic_Overflow \<and> \<not> room (Suc (length ds)) s} (survey_upserts order clock ds s)"
    using Cons.IH [OF Cons.prems] room_less [of "length ds" s] by (auto simp: fails_with_def)
  show ?case
  proof (cases "upsert (order s) (clock (length ds)) tag_of ?d s")
    case (Inl e)
    then have "e = Arithmetic_Overflow"
      using upsert_total_lemma [OF Cons.prems(1) vals, of "clock (length ds)" tag_of ?d] by auto
    with Inl skip room show ?thesis by auto
  next
    case (Inr sr)
    then obtain s' r where step: "upsert (order s) (clock (length ds)) tag_of ?d s = Inr (s', r)"
      by (cases sr) simp
    then have "store_inv s'" using upsert_step [OF Cons.prems(1) vals] by blast
    from Cons.IH [OF this Cons.prems(2)] room skip show ?thesis by (auto simp: step fails_with_def)
  qed
qed simp

section \<open>The answers of a gateway cannot break the parser\<close>

text \<open>A line whose lower case begins with the header name is long enough for the slice behind it.\<close>

lemma prefix_lower_length:
  "prefix p (to_lowercase s) \<Longrightarrow> CHR ''k'' \<notin> set p \<Longrightarrow> CHR 0xCC \<notin> set p \<Longrightarrow>
   p = [] \<or> last p \<noteq> CHR ''i'' \<Longrightarrow> length p \<le> length s"
proof (induction s arbitrary: p rule: to_lowercase.induct)
  case (2 c cs)
  show ?case
  proof (cases p)
    case (Cons x xs)
    have no: "CHR ''k'' \<notin> set xs" "CHR 0xCC \<notin> set xs" "xs = [] \<or> last xs \<noteq> CHR ''i''" "x \<noteq> CHR ''k''"
      using 2(5-7) Cons by auto
    have "\<not> prefix [CHR 0xE2, CHR 0x84, CHR 0xAA] (c # cs)"
      using 2(4) no Cons by auto
    moreover have "\<not> prefix [CHR 0xC4, CHR 0xB0] (c # cs)"
    proof
      assume "prefix [CHR 0xC4, CHR 0xB0] (c # cs)"
      then have "x = CHR ''i'' \<and> (xs = [] \<or> hd xs = CHR 0xCC)"
        using 2(4) calculation Cons by (cases xs) auto
      then show False using no 2(7) Cons by (cases xs) auto
    qed
    ultimately have "to_lowercase (c # cs) = ascii_lower c # to_lowercase cs"
      by (simp only: to_lowercase.simps if_False)
    then have "prefix xs (to_lowercase cs)" using 2(4) Cons by simp
    then show ?thesis
      using 2(3) [OF \<open>\<not> prefix [CHR 0xE2, CHR 0x84, CHR 0xAA] (c # cs)\<close>
          \<open>\<not> prefix [CHR 0xC4, CHR 0xB0] (c # cs)\<close> _ no(1-3)] Cons by simp
  qed simp
qed simp

lemma location_urls_returns: "returns (location_urls d)"
proof -
  have "9 \<le> length line" if "starts_with (to_lowercase line) ''location:''" for line
    using prefix_lower_length [of "''location:''" line] that by (simp add: starts_with_def)
  then have "map_outcome (\<lambda>line. slice line 9 (length line))
        (filter (\<lambda>line. starts_with (to_lowercase line) ''location:'') (str_lines d))
      = Inr (map (drop 9) (filter (\<lambda>line. starts_with (to_lowercase line) ''location:'') (str_lines d)))"
    by (intro map_outcome_Inr) (auto simp: slice_def)
  then show ?thesis by (simp add: location_urls_def)
qed

lemma ssdp_locations_returns: "returns (ssdp_locations gateway events)"
proof (induction gateway events rule: ssdp_locations.induct)
  case (3 gateway data src rest)
  then show ?case using location_urls_returns by (auto intro!: returns_bind)
qed simp_all

lemma discover_returns: "returns (discover_upnp_services env gateway socket)"
  unfolding discover_upnp_services_def
  by (auto intro!: returns_bind ssdp_locations_returns split: option.splits)

text \<open>The prefixes a survey makes masks for: that of the interface, and those a gateway's answers
  give as subnet masks. (The other answers get prefixes that are written in the code.)\<close>

definition answered_masks :: "upnp_env \<Rightarrow> byte set" where
  "answered_masks env =
     {mask_to_prefix m | m base service path action response.
        soap_call env base service path action = Some response
        \<and> Option.bind (extract_xml_value response ''NewSubnetMask'') parse_ipv4 = Some m}"

definition survey_prefixes :: "os_view \<Rightarrow> string option \<Rightarrow> survey_air \<Rightarrow> byte set" where
  "survey_prefixes os iface air =
     {p. \<exists>i ip. find_interface (os_pnet os) iface = Some i \<and> V4_Network ip p \<in> set (ni_ips i)}
     \<union> answered_masks (sv_upnp air)"

lemma wan_response_fails:
  assumes "soap_call env base service path action = Some response" and "answered_masks env \<subseteq> ps"
  shows "fails_with (mask_panics ps) (wan_response response)"
proof -
  have "mask_to_prefix m \<in> ps"
    if "Option.bind (extract_xml_value response ''NewSubnetMask'') parse_ipv4 = Some m" for m
    using assms that unfolding answered_masks_def by blast
  moreover have "good_prefix p" if "p \<in> set wan_prefixes" for p
    using that by (auto simp: wan_prefixes_def good_prefix_def)
  ultimately show ?thesis
    unfolding wan_response_def
    by (auto intro!: fails_with_bind fails_with_map network_base_fails split: option.splits)
qed

lemma concat_outcome_fails: "(\<And>m. m \<in> set ms \<Longrightarrow> fails_with E m) \<Longrightarrow> fails_with E (concat_outcome ms)"
  unfolding concat_outcome_def by (auto intro!: fails_intros)

lemma query_base_fails:
  "answered_masks env \<subseteq> ps \<Longrightarrow> fails_with (mask_panics ps) (query_base env base)"
  unfolding query_base_def
  by (intro fails_with_bind concat_outcome_fails) (auto intro: wan_response_fails split: option.splits)

lemma probe_gateway_fails:
  "answered_masks env \<subseteq> ps \<Longrightarrow> fails_with (mask_panics ps) (probe_gateway_upnp env gateway s1 s2)"
  unfolding probe_gateway_upnp_def query_upnp_wan_def query_upnp_routes_def
  by (auto intro!: fails_with_bind concat_outcome_fails query_base_fails returns_fails_with [OF discover_returns])

lemma local_subnet_fails:
  "fails_with (mask_panics (survey_prefixes os iface air)) (local_subnet_of (find_interface (os_pnet os) iface))"
proof -
  have "V4_Network ip p \<in> set ns" if "List.find is_ipv4 ns = Some n" "v4_of n = Some (ip, p)" for ns n ip p
    using that by (cases n) (auto simp: find_Some_iff)
  then show ?thesis
    unfolding local_subnet_of_def survey_prefixes_def
    by (fastforce intro!: fails_with_bind network_base_fails split: option.splits Option.bind_splits)
qed

lemma survey_wired_fails:
  "fails_with (mask_panics (survey_prefixes os iface air)) (survey_wired os iface verbose air)"
proof -
  have "answered_masks (sv_upnp air) \<subseteq> survey_prefixes os iface air"
    by (simp add: survey_prefixes_def)
  then show ?thesis
    using local_subnet_fails [of os iface air]
    unfolding survey_wired_def survey_def
    by (auto intro!: fails_with_bind fails_with_map probe_gateway_fails simp: Let_def split: option.splits)
qed

section \<open>The failures of the program\<close>

fun bad_argument :: "cli_command \<Rightarrow> bool" where
  "bad_argument (Cmd_Scan (Some input) iface verbose) \<longleftrightarrow> \<not> returns (parse_subnet input)"
| "bad_argument (Cmd_Tag ip tag) \<longleftrightarrow> parse_ipv4 ip = None"
| "bad_argument _ \<longleftrightarrow> False"

lemma bad_argument_exits: "bad_argument cmd \<Longrightarrow> cli_main w cmd dk = Inl (Process_Exit 1)"
  using parse_subnet_fails
  by (cases cmd rule: bad_argument.cases)
    (auto simp: scan_def scan_subnet_arg_def tag_command_def fails_with_def returns_def split: sum.splits)

text \<open>The prefixes a run makes masks for, and the devices or subnets it finds.\<close>

fun run_prefixes :: "world \<Rightarrow> cli_command \<Rightarrow> byte set" where
  "run_prefixes w (Cmd_Scan (Some input) iface verbose) = {p. \<exists>ip. parse_subnet input = Inr (ip, p)}"
| "run_prefixes w (Cmd_Scan None iface verbose) = auto_prefixes (wd_os w) iface"
| "run_prefixes w (Cmd_Survey iface verbose) = survey_prefixes (wd_os w) iface (wd_survey w)"
| "run_prefixes w _ = {}"

fun run_sightings :: "world \<Rightarrow> cli_command \<Rightarrow> nat outcome" where
  "run_sightings w (Cmd_Scan subnet iface verbose) =
     outcome_bind (scan_subnet_arg (wd_os w) subnet iface) (\<lambda>net.
     outcome_bind (scan_found (wd_os w) (wd_oui w)
         (wired (wd_unicode_upper w) (wd_os w) iface (wd_scan w)) net iface) (\<lambda>ds. Inr (length ds)))"
| "run_sightings w (Cmd_Survey iface verbose) =
     outcome_bind (survey_wired (wd_os w) iface verbose (wd_survey w)) (\<lambda>ds. Inr (length ds))"
| "run_sightings w _ = Inr 0"

text \<open>The overflows a run can end with.\<close>

definition run_panics :: "world \<Rightarrow> cli_command \<Rightarrow> disk \<Rightarrow> panic set" where
  "run_panics w cmd dk =
     mask_panics (run_prefixes w cmd)
     \<union> {e. e = Arithmetic_Overflow
          \<and> (\<exists>n. run_sightings w cmd = Inr n \<and> \<not> room n (store_load (wd_json w) dk))}"

lemma scan_subnet_arg_prefix:
  "scan_subnet_arg (wd_os w) subnet iface = Inr (base, p) \<Longrightarrow>
   p \<in> run_prefixes w (Cmd_Scan subnet iface verbose) \<or> good_prefix p"
  by (cases subnet) (auto simp: scan_subnet_arg_def dest: auto_subnet_prefix)

lemma scan_subnet_arg_fails:
  "\<not> bad_argument (Cmd_Scan subnet iface v) \<Longrightarrow>
   fails_with (mask_panics (run_prefixes w (Cmd_Scan subnet iface v))) (scan_subnet_arg (wd_os w) subnet iface)"
  by (cases subnet) (auto simp: scan_subnet_arg_def auto_subnet_fails returns_fails_with)

lemma good_argument_fails:
  assumes "\<not> bad_argument cmd" "store_inv (store_load (wd_json w) dk)" "lists_values (wd_order w)"
  shows "fails_with (run_panics w cmd dk) (cli_main w cmd dk)"
proof (cases cmd)
  case (Cmd_Scan subnet iface verbose)
  let ?E = "run_panics w cmd dk" and ?s = "store_load (wd_json w) dk" and ?os = "wd_os w"
  let ?nw = "wired (wd_unicode_upper w) ?os iface (wd_scan w)"
  have masks: "mask_panics (run_prefixes w cmd) \<subseteq> ?E" by (simp add: run_panics_def)
  have "fails_with ?E (scan_subnet_arg ?os subnet iface)"
    using scan_subnet_arg_fails [of subnet iface verbose w] assms(1) masks
    unfolding Cmd_Scan by (blast intro: fails_with_mono)
  moreover have "fails_with ?E (scan_found ?os (wd_oui w) ?nw net iface)"
    if "scan_subnet_arg ?os subnet iface = Inr net" for net
  proof (rule fails_with_mono)
    show "fails_with (mask_panics (run_prefixes w cmd)) (scan_found ?os (wd_oui w) ?nw net iface)"
      using scan_found_fails [OF scan_subnet_arg_prefix] that unfolding Cmd_Scan by (cases net) simp
  qed (rule masks)
  moreover have "fails_with ?E (upsert_all (wd_order w) clock ds ?s)"
    if "scan_subnet_arg ?os subnet iface = Inr net" "scan_found ?os (wd_oui w) ?nw net iface = Inr ds"
    for net ds clock
    using upsert_all_fails [OF assms(2,3), of ds clock] that
    by (rule_tac fails_with_mono) (auto simp: run_panics_def Cmd_Scan)
  ultimately show ?thesis
    unfolding Cmd_Scan by (auto simp: scan_def intro!: fails_with_bind split: prod.splits)
next
  case (Cmd_Survey iface verbose)
  let ?E = "run_panics w cmd dk" and ?s = "store_load (wd_json w) dk"
  have "fails_with ?E (survey_wired (wd_os w) iface verbose (wd_survey w))"
    using survey_wired_fails [of "wd_os w" iface "wd_survey w" verbose]
    by (rule fails_with_mono) (simp add: run_panics_def Cmd_Survey)
  moreover have "fails_with ?E (survey_upserts (wd_order w) clock ds ?s)"
    if "survey_wired (wd_os w) iface verbose (wd_survey w) = Inr ds" for ds clock
    using survey_upserts_fails [OF assms(2,3), of ds clock] that
    by (rule_tac fails_with_mono) (auto simp: run_panics_def Cmd_Survey)
  ultimately show ?thesis
    unfolding Cmd_Survey by (auto simp: survey_command_def intro!: fails_with_bind)
next
  case (Cmd_Tag ip tag)
  then show ?thesis
    using assms by (auto simp: tag_command_def split: option.splits prod.splits bool.splits)
qed simp_all

lemma run_panics_overflow: "run_panics w cmd dk \<subseteq> {Shift_Overflow, Arithmetic_Overflow}"
  using mask_panics_overflow by (auto simp: run_panics_def)

lemma command_failures:
  assumes "store_inv (store_load (wd_json w) dk)" and "lists_values (wd_order w)"
  shows "(cli_main w cmd dk = Inl (Process_Exit 1) \<longleftrightarrow> bad_argument cmd)
    \<and> (cli_main w cmd dk = Inl e \<and> \<not> bad_argument cmd \<longrightarrow>
        e \<in> run_panics w cmd dk \<and> e \<in> {Shift_Overflow, Arithmetic_Overflow} \<and>
        (\<exists>subnet iface verbose. cmd = Cmd_Scan subnet iface verbose \<or> cmd = Cmd_Survey iface verbose))"
proof (cases "bad_argument cmd")
  case True
  then show ?thesis by (simp add: bad_argument_exits)
next
  case False
  have fails: "fails_with (run_panics w cmd dk) (cli_main w cmd dk)"
    by (rule good_argument_fails [OF False assms])
  have "\<exists>subnet iface verbose. cmd = Cmd_Scan subnet iface verbose \<or> cmd = Cmd_Survey iface verbose"
    if "cli_main w cmd dk = Inl e"
    using that False by (cases cmd) (auto simp: tag_command_def split: option.splits prod.splits bool.splits)
  with fails False run_panics_overflow [of w cmd dk] show ?thesis by (auto simp: fails_with_def)
qed

lemma listening_start:
  assumes "cli_main w cmd dk = Inr (dk', Listening s)"
  shows "\<exists>threads. s = session_init (wd_json w) dk threads"
  using assms by (cases cmd) (auto simp: outcome_bind_Inr_iff split: prod.splits)

text \<open>C5: how a run of the program can fail. Whatever the network, the files of the system and the
  libraries answer, a run with a consistent registry ends with exit code 1 exactly if its argument
  is no subnet or no address. It can panic in two ways only, and only as a scan or a survey: the
  mask overflows of a prefix that is 0 or above 32 and that the argument, the interface or the
  subnet mask in a gateway's answer gave; or a sighting counter of the file is no further from its
  maximum than the run has found devices or subnets. No index, no slice and no text that the code
  reads out of packets can end it. In any state that a listener's session reaches, an event can end
  the loop only while a record of its registry has its sighting counter at the maximum.\<close>

theorem program_failures:
  assumes "store_inv (store_load (wd_json w) dk)" and "lists_values (wd_order w)"
  shows "(cli_main w cmd dk = Inl (Process_Exit 1) \<longleftrightarrow> bad_argument cmd)
    \<and> (cli_main w cmd dk = Inl e \<and> \<not> bad_argument cmd \<longrightarrow>
        e \<in> {Shift_Overflow, Arithmetic_Overflow} \<and>
        (\<exists>subnet iface verbose. cmd = Cmd_Scan subnet iface verbose \<or> cmd = Cmd_Survey iface verbose) \<and>
        ((\<exists>p \<in> run_prefixes w cmd. (p = 0 \<or> 32 < p) \<and> netmask p = Inl e)
         \<or> e = Arithmetic_Overflow \<and>
           (\<exists>n. run_sightings w cmd = Inr n \<and> \<not> room n (store_load (wd_json w) dk))))
    \<and> (\<forall>dk' s0 s vals now entry ev. cli_main w cmd dk = Inr (dk', Listening s0)
        \<and> (session_step (wd_json w) (wd_oui w))\<^sup>*\<^sup>* s0 s \<and> values_of vals (ls_store (se_loop s))
        \<and> (on_entry (wd_json w) (wd_oui w) vals now entry (se_loop s) = Inl e
           \<or> on_services (wd_json w) (wd_oui w) vals now ev (se_loop s) = Inl e) \<longrightarrow>
          e = Arithmetic_Overflow
          \<and> (\<exists>k r. ls_store (se_loop s) k = Some r \<and> rec_seen_count r = - 1))"
proof -
  have prefix: "p = 0 \<or> 32 < p" if "netmask p = Inl e" for p
    using that by (auto simp: netmask_eq word_less_nat_alt unat_eq_zero split: if_splits)
  have runs: "(cli_main w cmd dk = Inl (Process_Exit 1) \<longleftrightarrow> bad_argument cmd)
    \<and> (cli_main w cmd dk = Inl e \<and> \<not> bad_argument cmd \<longrightarrow>
        e \<in> run_panics w cmd dk \<and> e \<in> {Shift_Overflow, Arithmetic_Overflow} \<and>
        (\<exists>subnet iface verbose. cmd = Cmd_Scan subnet iface verbose \<or> cmd = Cmd_Survey iface verbose))"
    by (rule command_failures [OF assms])
  have event: "e = Arithmetic_Overflow \<and> (\<exists>k r. ls_store (se_loop s) k = Some r \<and> rec_seen_count r = - 1)"
    if start: "cli_main w cmd dk = Inr (dk', Listening s0)"
      and run: "(session_step (wd_json w) (wd_oui w))\<^sup>*\<^sup>* s0 s"
      and vals: "values_of vals (ls_store (se_loop s))"
      and fail: "on_entry (wd_json w) (wd_oui w) vals now entry (se_loop s) = Inl e
        \<or> on_services (wd_json w) (wd_oui w) vals now ev (se_loop s) = Inl e"
    for dk' s0 s vals now entry ev
  proof -
    have "\<exists>threads. s0 = session_init (wd_json w) dk threads" using listening_start [OF start] .
    then have inv: "store_inv (ls_store (se_loop s))" using run session_registry_inv [OF assms(1)] by blast
    show ?thesis using event_fails [OF inv vals] fail by (auto simp: fails_with_def)
  qed
  have listening: "\<forall>dk' s0 s vals now entry ev. cli_main w cmd dk = Inr (dk', Listening s0)
      \<and> (session_step (wd_json w) (wd_oui w))\<^sup>*\<^sup>* s0 s \<and> values_of vals (ls_store (se_loop s))
      \<and> (on_entry (wd_json w) (wd_oui w) vals now entry (se_loop s) = Inl e
         \<or> on_services (wd_json w) (wd_oui w) vals now ev (se_loop s) = Inl e) \<longrightarrow>
        e = Arithmetic_Overflow
        \<and> (\<exists>k r. ls_store (se_loop s) k = Some r \<and> rec_seen_count r = - 1)"
    by (intro allI impI, elim conjE) (rule event; assumption)
  have "(\<exists>p \<in> run_prefixes w cmd. (p = 0 \<or> 32 < p) \<and> netmask p = Inl e)
      \<or> e = Arithmetic_Overflow \<and> (\<exists>n. run_sightings w cmd = Inr n \<and> \<not> room n (store_load (wd_json w) dk))"
    if "e \<in> run_panics w cmd dk"
    using that prefix unfolding run_panics_def mask_panics_def by blast
  with runs show ?thesis using listening by (intro conjI impI) simp_all
qed

definition quiet_world :: "json_codec \<Rightarrow> world" where
  "quiet_world js =
     \<lparr>wd_os = sample_os, wd_oui = [], wd_unicode_upper = (\<lambda>_. False), wd_scan = sample_air,
      wd_survey = stranger_air, wd_air = quiet_air [] 9, wd_json = js, wd_order = canonical_order,
      wd_clock = (\<lambda>_. Some 7)\<rparr>"

text \<open>An address that is none, and a subnet the command line accepts but no mask can be made for.\<close>

theorem program_failures_witness:
  "cli_main (quiet_world no_json) (Cmd_Tag [] ''mine'') blank_disk = Inl (Process_Exit 1)
   \<and> (\<exists>e. cli_main (quiet_world no_json) (Cmd_Scan (Some ''10.0.0.0/0'') None False) blank_disk = Inl e
        \<and> (\<exists>p \<in> run_prefixes (quiet_world no_json) (Cmd_Scan (Some ''10.0.0.0/0'') None False).
              (p = 0 \<or> 32 < p) \<and> netmask p = Inl e))"
proof -
  let ?w = "quiet_world no_json" and ?cmd = "Cmd_Scan (Some ''10.0.0.0/0'') None False"
  have inv: "store_inv (store_load (wd_json ?w) blank_disk)"
    by (simp add: quiet_world_def store_inv_empty)
  have order: "lists_values (wd_order ?w)"
    by (simp add: quiet_world_def canonical_order)
  have "bad_argument (Cmd_Tag [] ''mine'')" by code_simp
  then have tag: "cli_main ?w (Cmd_Tag [] ''mine'') blank_disk = Inl (Process_Exit 1)"
    using program_failures [OF inv order] by blast
  have subnet: "parse_subnet ''10.0.0.0/0'' = Inr (ipv4_new 10 0 0 0, 0)" by code_simp
  have "scan_subnet sample_os (ipv4_new 10 0 0 0) 0 None received = Inl Shift_Overflow" for received
    by (simp add: scan_subnet_def sample_os_def find_interface_def suitable_def is_ipv4_def
        first_ipv4_def subnet_iter_def addresses_def netmask_eq)
  then have found: "scan_found sample_os [] nw (ipv4_new 10 0 0 0, 0) None = Inl Shift_Overflow" for nw
    by (simp add: scan_found_def)
  then have scan: "cli_main ?w ?cmd blank_disk = Inl Shift_Overflow"
    by (simp add: quiet_world_def scan_def scan_subnet_arg_def subnet)
  have "\<not> bad_argument ?cmd" by (simp add: subnet)
  moreover have "run_sightings ?w ?cmd \<noteq> Inr n" for n
    using found by (simp add: quiet_world_def scan_subnet_arg_def subnet)
  ultimately have "\<exists>p \<in> run_prefixes ?w ?cmd. (p = 0 \<or> 32 < p) \<and> netmask p = Inl Shift_Overflow"
    using program_failures [OF inv order, of ?cmd Shift_Overflow] scan by blast
  with tag scan show ?thesis by blast
qed

section \<open>What a command leaves in the file\<close>

text \<open>The old file, or what saving a consistent registry makes of it.\<close>

definition left_consistent :: "json_codec \<Rightarrow> disk \<Rightarrow> disk \<Rightarrow> bool" where
  "left_consistent js dk dk' \<longleftrightarrow> dk' = dk \<or> (\<exists>s. store_inv s \<and> dk' = fst (store_save js s dk))"

lemma left_consistent_inv: "left_consistent js dk dk' \<Longrightarrow> disk_inv js dk \<Longrightarrow> disk_inv js dk'"
  unfolding left_consistent_def by (metis prod.collapse store_save_inv)

lemma left_consistent_refl [simp]: "left_consistent js dk dk"
  by (simp add: left_consistent_def)

lemma scan_leaves:
  assumes "store_inv (store_load js dk)" "lists_values order"
    and "scan os oui nw js order clock subnet iface dk = Inr (dk', rp)"
  shows "left_consistent js dk dk'"
proof (cases "dk' = dk")
  case False
  with assms(3) obtain ds s tagged ok where
    "upsert_all order clock ds (store_load js dk) = Inr (s, tagged)" "store_save js s dk = (dk', ok)"
    by (simp add: scan_def outcome_bind_Inr_iff split: if_splits prod.splits) (metis surj_pair)
  with upsert_all_inv [OF assms(1,2)] show ?thesis unfolding left_consistent_def by (metis fst_conv)
qed simp

lemma survey_leaves:
  assumes "store_inv (store_load js dk)" "lists_values order"
    and "survey_command js order clock surveyed dk = Inr (dk', subnets)"
  shows "left_consistent js dk dk'"
  using assms survey_upserts_inv [OF assms(1,2)]
  by (fastforce simp: survey_command_def left_consistent_def outcome_bind_Inr_iff split: if_splits)

lemma tag_leaves:
  assumes "store_inv (store_load js dk)" and "tag_command js ip tag dk = Inr (dk', tagged)"
  shows "left_consistent js dk dk'"
proof (cases "dk' = dk")
  case False
  with assms(2) obtain addr s where
    "set_tag None addr tag (store_load js dk) = (s, True)" and "dk' = fst (store_save js s dk)"
    by (auto simp: tag_command_def split: option.splits prod.splits bool.splits)
  with set_tag_inv [OF assms(1)] show ?thesis unfolding left_consistent_def by (metis fst_conv)
qed simp

lemma cli_main_leaves:
  assumes "store_inv (store_load (wd_json w) dk)" "lists_values (wd_order w)"
    and "cli_main w cmd dk = Inr (dk', Printed out)"
  shows "left_consistent (wd_json w) dk dk'"
  using assms
  by (cases cmd) (auto simp: outcome_bind_Inr_iff intro: scan_leaves survey_leaves tag_leaves)

section \<open>From one run to the next\<close>

text \<open>A codec of a single registry.\<close>

definition one_store_json :: "store \<Rightarrow> json_codec" where
  "one_store_json s0 =
     \<lparr>js_parse = (\<lambda>_. Some s0), js_print = (\<lambda>s. if s = s0 then Some [] else None)\<rparr>"

lemma files_law_one_store: "files_law (one_store_json s0) blank_disk"
  by (simp add: files_law_def one_store_json_def blank_disk_def)

text \<open>A scan finds one host, which the next run knows.\<close>

definition scan_world :: "json_codec \<Rightarrow> world" where
  "scan_world js = (quiet_world js)\<lparr>wd_scan := sample_air\<lparr>sa_icmp := (\<lambda>_. None)\<rparr>\<rparr>"

lemma scan_world_found:
  "\<exists>d. scan_found sample_os [] (wired (wd_unicode_upper (scan_world js)) sample_os None (wd_scan (scan_world js)))
         (ipv4_new 192 168 1 0, 30) None = Inr [d]
     \<and> dev_mac d = Some alice_mac"
proof -
  let ?air = "sample_air\<lparr>sa_icmp := (\<lambda>_. None)\<rparr>"
  have "own_answers ?air" using sample_air_own by (simp add: own_answers_def)
  then have "alive_hosts sample_os None ?air = []"
    by (auto simp: alive_hosts_def host_alive_pinged pinged_def icmp_probe_def joined_def
        split: option.splits)
  moreover have "arp_received ?air = Some [\<lparr>entry_ip = 9, entry_mac = alice_mac\<rparr>]"
    by (simp add: arp_received_def sample_air_def)
  ultimately show ?thesis
    by (intro sample_scan_found) (simp_all add: wired_def scan_world_def)
qed

text \<open>C10: the registry file carries the tags from one scan to the next. After a scan of settled
  devices whose registry was saved, each device it reported is in the next listing under its tag
  and its last address; and a scan that starts from the very file the first one left, and whose
  devices are settled in it, prints the same tag for each of these devices that it finds again
  under the same key. (The devices found are settled if their keys and addresses are distinct, no
  other record holds the address of one that has a MAC, and no counter of theirs is full. A device
  that moved to the address of another, or that the sweep saw in between, is not covered, and may
  indeed get another tag.)\<close>

theorem tags_persist:
  assumes disk: "disk_inv js dk" and order: "lists_values order" "lists_values order'"
    and first: "scan_subnet_arg os subnet iface = Inr net" "scan_found os oui nw net iface = Inr ds" "ds \<noteq> []"
      "settled (store_load js dk) ds"
    and saved: "scan os oui nw js order clock subnet iface dk = Inr (dk1, rp)" "sc_saved rp"
    and second: "scan_subnet_arg os' subnet' iface' = Inr net'" "scan_found os' oui' nw' net' iface' = Inr ds'"
      "ds' \<noteq> []" "settled (store_load js dk1) ds'"
  shows "(\<forall>(d, tag) \<in> set (sc_tagged rp). \<exists>r \<in> set (list_records order (store_load js dk1)).
        rec_tag r = Some tag \<and> rec_last_ip r = show_ipv4 (dev_ip d))
    \<and> (\<exists>dk2 rp'. scan os' oui' nw' js order' clock' subnet' iface' dk1 = Inr (dk2, rp')
        \<and> map fst (sc_tagged rp') = ds'
        \<and> (\<forall>(d, tag) \<in> set (sc_tagged rp). \<forall>(d', tag') \<in> set (sc_tagged rp').
             own_key d' = own_key d \<longrightarrow> tag' = tag))"
proof -
  have inv: "store_inv (store_load js dk)" and law: "files_law js dk" using disk by (simp_all add: disk_inv_def)
  obtain s where s: "store_save js s dk = (dk1, sc_saved rp)" "store_inv s"
    and tagged: "\<forall>(d, tag) \<in> set (sc_tagged rp). \<exists>r. s (own_key d) = Some r \<and> rec_tag r = Some tag
         \<and> rec_last_ip r = show_ipv4 (dev_ip d)"
    using scan_records [OF first(1-3) inv order(1) first(4), of clock] saved(1) by fastforce
  have load: "store_load js dk1 = s" using store_save_load(1) [OF law s(1)] saved(2) by blast
  have "set (list_records order s) = ran s"
    using values_ofD [OF lists_valuesD [OF order(1) s(2)]] by (auto simp: list_records_def)
  then have listed: "\<forall>(d, tag) \<in> set (sc_tagged rp). \<exists>r \<in> set (list_records order s).
        rec_tag r = Some tag \<and> rec_last_ip r = show_ipv4 (dev_ip d)"
    using tagged by (fastforce intro: ranI)
  obtain dk2 rp' where again: "scan os' oui' nw' js order' clock' subnet' iface' dk1 = Inr (dk2, rp')"
    and found: "map fst (sc_tagged rp') = ds'"
    and tags: "\<forall>(d', tag') \<in> set (sc_tagged rp'). \<forall>old. s (own_key d') = Some old \<longrightarrow> rec_tag old = Some tag'"
    using scan_records [OF second(1-3) _ order(2) second(4), of clock'] s(2) load by fastforce
  have "\<forall>(d, tag) \<in> set (sc_tagged rp). \<forall>(d', tag') \<in> set (sc_tagged rp'). own_key d' = own_key d \<longrightarrow> tag' = tag"
    using tagged tags by fastforce
  with listed again found show ?thesis unfolding load by blast
qed

text \<open>The same scan twice.\<close>

lemma scan_world_registry:
  obtains d s0 where
    "\<forall>js. scan_found sample_os [] (wired (wd_unicode_upper (scan_world js)) sample_os None
       (wd_scan (scan_world js))) (ipv4_new 192 168 1 0, 30) None = Inr [d]"
    "upsert_all canonical_order (now_secs \<circ> (\<lambda>_. Some 7)) [d] Map.empty
       = Inr (s0, [(d, the (rec_tag (the (s0 (own_key d)))))])"
    "own_key d = mac_key alice_mac" "dom s0 = {mac_key alice_mac}" "settled s0 [d]"
proof -
  obtain d where d: "\<forall>js. scan_found sample_os [] (wired (wd_unicode_upper (scan_world js)) sample_os None
      (wd_scan (scan_world js))) (ipv4_new 192 168 1 0, 30) None = Inr [d]"
    and key: "own_key d = mac_key alice_mac"
    using scan_world_found by (auto simp: own_key_def scan_world_def quiet_world_def)
  obtain s0 where s0: "upsert_all canonical_order (now_secs \<circ> (\<lambda>_. Some 7)) [d] Map.empty
      = Inr (s0, [(d, the (rec_tag (the (s0 (own_key d)))))])"
    and dom: "dom s0 = {mac_key alice_mac}"
    and r: "\<exists>now. s0 (own_key d) = Some (next_record (own_key d) now d None)"
    using settled_upsert_all [OF store_inv_empty canonical_order settled_fresh, of "[d]"
        "now_secs \<circ> (\<lambda>_. Some 7)"] key by auto
  have "holders (dev_ip d) s0 \<subseteq> {own_key d}" using dom by (auto simp: holders_def key)
  with r have "settled s0 [d]" by (auto simp: settled_def)
  with that d s0 key dom show thesis by blast
qed

theorem tags_persist_witness:
  "\<exists>js dk1 dk2 rp rp' d tag. scan sample_os [] (wired (\<lambda>_. False) sample_os None (wd_scan (scan_world js))) js
       canonical_order (now_secs \<circ> (\<lambda>_. Some 7)) (Some ''192.168.1.0/30'') None blank_disk = Inr (dk1, rp)
     \<and> scan sample_os [] (wired (\<lambda>_. False) sample_os None (wd_scan (scan_world js))) js
       canonical_order (\<lambda>_. 8) (Some ''192.168.1.0/30'') None dk1 = Inr (dk2, rp')
     \<and> sc_tagged rp = [(d, tag)] \<and> sc_tagged rp' = [(d, tag)]"
proof -
  obtain d s0 where found: "\<forall>js. scan_found sample_os [] (wired (wd_unicode_upper (scan_world js)) sample_os None
       (wd_scan (scan_world js))) (ipv4_new 192 168 1 0, 30) None = Inr [d]"
    and ups: "upsert_all canonical_order (now_secs \<circ> (\<lambda>_. Some 7)) [d] Map.empty
       = Inr (s0, [(d, the (rec_tag (the (s0 (own_key d)))))])"
    and "own_key d = mac_key alice_mac" "dom s0 = {mac_key alice_mac}" and again: "settled s0 [d]"
    by (rule scan_world_registry)
  let ?js = "one_store_json s0" and ?tag = "the (rec_tag (the (s0 (own_key d))))"
  let ?dk = "blank_disk\<lparr>dk_contents := Some []\<rparr>"
  let ?nw = "wired (\<lambda>_. False) sample_os None (wd_scan (scan_world ?js))"
  let ?rp = "\<lparr>sc_subnet = (ipv4_new 192 168 1 0, 30), sc_tagged = [(d, ?tag)], sc_saved = True\<rparr>"
  have found': "scan_found sample_os [] ?nw (ipv4_new 192 168 1 0, 30) None = Inr [d]"
    using found by (simp add: scan_world_def quiet_world_def)
  have first: "scan sample_os [] ?nw ?js canonical_order (now_secs \<circ> (\<lambda>_. Some 7))
      (Some ''192.168.1.0/30'') None blank_disk = Inr (?dk, ?rp)"
    using found' ups
    by (simp add: scan_def sample_subnet_arg store_save_def one_store_json_def blank_disk_def store_load_def)
  have disk: "disk_inv ?js blank_disk" by (simp add: disk_inv_def store_inv_empty files_law_one_store)
  have load: "store_load ?js ?dk = s0" by (simp add: store_load_def one_store_json_def)
  have fresh: "settled (store_load ?js blank_disk) [d]" by (simp add: settled_fresh)
  have saved: "sc_saved ?rp" and some: "[d] \<noteq> []" by simp_all
  have second: "settled (store_load ?js ?dk) [d]" unfolding load by (rule again)
  note facts = tags_persist [where clock' = "\<lambda>_. 8", OF disk canonical_order canonical_order
      sample_subnet_arg found' some fresh first saved sample_subnet_arg found' some second, THEN conjunct2]
  obtain dk2 rp' where rp': "scan sample_os [] ?nw ?js canonical_order (\<lambda>_. 8)
      (Some ''192.168.1.0/30'') None ?dk = Inr (dk2, rp')"
    "map fst (sc_tagged rp') = [d]" "\<forall>(d', tag') \<in> set (sc_tagged rp'). own_key d' = own_key d \<longrightarrow> tag' = ?tag"
    using facts by auto
  from rp'(2) obtain tag' where tag': "sc_tagged rp' = [(d, tag')]" by auto
  with rp'(3) have "tag' = ?tag" by simp
  with first rp'(1) tag' show ?thesis
    by (intro exI [of _ ?js] exI [of _ ?dk] exI [of _ dk2] exI [of _ ?rp] exI [of _ rp'] exI [of _ d] exI [of _ ?tag]) simp
qed

section \<open>What becomes of the file\<close>

text \<open>C20: the registry file under a scan that found settled devices, when the file or its directory is
  not as it should be. The scan succeeds and reports the devices with their tags whether or not the
  registry can be saved; that it could not is said on the error output only. A file that is no registry counts as an
  empty one: if the save succeeds its text is gone and only the devices found are on record. If
  the directory cannot be made the file stays as it is; and a write that fails leaves the old
  registry, the new one or none.\<close>

theorem scan_overwrites_damaged_file:
  assumes "files_law js dk" and "store_inv (store_load js dk)" and "lists_values order"
    and "scan_subnet_arg os subnet iface = Inr net" and "scan_found os oui nw net iface = Inr ds"
    and "ds \<noteq> []" and "settled (store_load js dk) ds"
  shows "\<exists>dk' rp s. scan os oui nw js order clock subnet iface dk = Inr (dk', rp)
    \<and> map fst (sc_tagged rp) = ds
    \<and> (\<forall>(d, tag) \<in> set (sc_tagged rp). \<exists>r. s (own_key d) = Some r \<and> rec_tag r = Some tag)
    \<and> (sc_saved rp \<longrightarrow> store_load js dk' = s)
    \<and> (Option.bind (dk_contents dk) (js_parse js) = None \<longrightarrow> dom s = own_key ` set ds
        \<and> (sc_saved rp \<longrightarrow> dk_contents dk' \<noteq> dk_contents dk))
    \<and> (\<not> dk_dirs_ok dk \<longrightarrow> \<not> sc_saved rp \<and> dk' = dk)
    \<and> store_load js dk' \<in> {s, store_load js dk, Map.empty}"
proof -
  obtain dk' rp s where run: "scan os oui nw js order clock subnet iface dk = Inr (dk', rp)"
    and save: "store_save js s dk = (dk', sc_saved rp)" and dom: "dom s = dom (store_load js dk) \<union> own_key ` set ds"
    and found: "map fst (sc_tagged rp) = ds"
    and tagged: "\<forall>(d, tag) \<in> set (sc_tagged rp). \<exists>r. s (own_key d) = Some r \<and> rec_tag r = Some tag"
    using scan_records [OF assms(4-6,2,3,7), of clock] by fastforce
  have load: "store_load js dk' \<in> {s, store_load js dk, Map.empty}" "sc_saved rp \<Longrightarrow> store_load js dk' = s"
    using store_save_load [OF assms(1) save] by blast+
  have damaged: "dom s = own_key ` set ds \<and> (sc_saved rp \<longrightarrow> dk_contents dk' \<noteq> dk_contents dk)"
    if damaged: "Option.bind (dk_contents dk) (js_parse js) = None"
  proof -
    have keys: "dom s = own_key ` set ds" using dom damaged by (simp add: store_load_def)
    then have "s \<noteq> Map.empty" using assms(6) by auto
    then have "dk_contents dk' \<noteq> dk_contents dk" if "sc_saved rp"
      using load(2) [OF that] damaged by (auto simp: store_load_def)
    with keys show ?thesis by blast
  qed
  have closed: "\<not> dk_dirs_ok dk \<longrightarrow> \<not> sc_saved rp \<and> dk' = dk"
    using save by (auto simp: store_save_def)
  show ?thesis
    by (intro exI [of _ dk'] exI [of _ rp] exI [of _ s] conjI impI run found tagged load)
      (use damaged closed in simp_all)
qed

text \<open>The file holds a text that is no registry, and a scan finds one host.\<close>

theorem scan_overwrites_damaged_file_witness:
  "\<exists>js dk dk' rp. dk_contents dk = Some ''from another version''
     \<and> scan sample_os [] (wired (\<lambda>_. False) sample_os None (wd_scan (scan_world js))) js canonical_order
         (now_secs \<circ> (\<lambda>_. Some 7)) (Some ''192.168.1.0/30'') None dk = Inr (dk', rp)
     \<and> sc_saved rp \<and> dom (store_load js dk') = {mac_key alice_mac}"
proof -
  obtain d s0 where found: "\<forall>js. scan_found sample_os [] (wired (wd_unicode_upper (scan_world js)) sample_os None
       (wd_scan (scan_world js))) (ipv4_new 192 168 1 0, 30) None = Inr [d]"
    and ups: "upsert_all canonical_order (now_secs \<circ> (\<lambda>_. Some 7)) [d] Map.empty
       = Inr (s0, [(d, the (rec_tag (the (s0 (own_key d)))))])"
    and key: "own_key d = mac_key alice_mac" and "dom s0 = {mac_key alice_mac}" and "settled s0 [d]"
    by (rule scan_world_registry)
  let ?js = "\<lparr>js_parse = (\<lambda>json. if json = [] then Some s0 else None),
    js_print = (\<lambda>s. if s = s0 then Some [] else None)\<rparr>"
  let ?dk = "blank_disk\<lparr>dk_contents := Some ''from another version''\<rparr>"
  let ?nw = "wired (\<lambda>_. False) sample_os None (wd_scan (scan_world ?js))"
  have law: "files_law ?js ?dk" by (auto simp: files_law_def blank_disk_def)
  have empty: "store_load ?js ?dk = Map.empty" by (simp add: store_load_def)
  have found': "scan_found sample_os [] ?nw (ipv4_new 192 168 1 0, 30) None = Inr [d]"
    using found by (simp add: scan_world_def quiet_world_def)
  have settled: "settled (store_load ?js ?dk) [d]" unfolding empty by (rule settled_fresh) simp_all
  have saves: "scan sample_os [] ?nw ?js canonical_order (now_secs \<circ> (\<lambda>_. Some 7)) (Some ''192.168.1.0/30'') None ?dk
      = Inr (blank_disk\<lparr>dk_contents := Some []\<rparr>,
          \<lparr>sc_subnet = (ipv4_new 192 168 1 0, 30), sc_tagged = [(d, the (rec_tag (the (s0 (own_key d)))))], sc_saved = True\<rparr>)"
    using found' ups
    by (simp add: scan_def sample_subnet_arg store_save_def blank_disk_def store_load_def)
  have some: "[d] \<noteq> []" by simp
  have inv: "store_inv (store_load ?js ?dk)" unfolding empty by (rule store_inv_empty)
  from scan_overwrites_damaged_file [OF law inv canonical_order sample_subnet_arg found' some settled,
      of "now_secs \<circ> (\<lambda>_. Some 7)"]
  obtain dk' rp s where "scan sample_os [] ?nw ?js canonical_order (now_secs \<circ> (\<lambda>_. Some 7))
        (Some ''192.168.1.0/30'') None ?dk = Inr (dk', rp)" "sc_saved rp \<longrightarrow> store_load ?js dk' = s"
      "Option.bind (dk_contents ?dk) (js_parse ?js) = None \<longrightarrow> dom s = own_key ` set [d]
        \<and> (sc_saved rp \<longrightarrow> dk_contents dk' \<noteq> dk_contents ?dk)"
    by (elim exE conjE) (rule that, assumption+)
  then show ?thesis
    using saves key by (intro exI [of _ ?js] exI [of _ ?dk] exI [of _ dk'] exI [of _ rp]) auto
qed

end
