(* ===== verification/Shared_File.thy ===== *)
theory Shared_File
  imports Program
begin

text \<open>
  Several runs of the program over one registry file at the same time: listeners keep running while
  scans, surveys and taggings come and go. A listener loads the registry once, when it starts, and
  saves it whole after each event; the other commands load and save in one go, which is taken as
  one step. A run may be killed at any moment; a write is not atomic, so that others may find, or
  a killed run leave, a file that is no registry (\<open>torn\<close>).
\<close>

section \<open>The machine\<close>

record machine =
  mc_disk :: disk
  mc_listeners :: "session list"

text \<open>What a listener sees when others have changed the file since.\<close>

definition at_disk :: "disk \<Rightarrow> session \<Rightarrow> session" where
  "at_disk dk s = s\<lparr>se_loop := (se_loop s)\<lparr>ls_disk := dk\<rparr>\<rparr>"

inductive machine_step :: "json_codec \<Rightarrow> string \<Rightarrow> machine \<Rightarrow> machine \<Rightarrow> bool" for js oui where
  command: "wd_json w = js \<Longrightarrow> wd_oui w = oui \<Longrightarrow> lists_values (wd_order w) \<Longrightarrow>
    cli_main w cmd (mc_disk m) = Inr (dk, Printed out) \<Longrightarrow>
    machine_step js oui m (m\<lparr>mc_disk := dk\<rparr>)"
| start: "wd_json w = js \<Longrightarrow> wd_oui w = oui \<Longrightarrow> cli_main w cmd (mc_disk m) = Inr (dk, Listening s) \<Longrightarrow>
    machine_step js oui m (m\<lparr>mc_listeners := mc_listeners m @ [s]\<rparr>)"
| listener: "i < length (mc_listeners m) \<Longrightarrow>
    session_step js oui (at_disk (mc_disk m) (mc_listeners m ! i)) s \<Longrightarrow>
    machine_step js oui m
      (m\<lparr>mc_disk := ls_disk (se_loop s), mc_listeners := (mc_listeners m)[i := s]\<rparr>)"
| torn: "Option.bind contents (js_parse js) = None \<Longrightarrow>
    machine_step js oui m (m\<lparr>mc_disk := (mc_disk m)\<lparr>dk_contents := contents\<rparr>\<rparr>)"
| gone: "mc_listeners m = before @ s # after \<Longrightarrow>
    machine_step js oui m (m\<lparr>mc_listeners := before @ after\<rparr>)"

inductive_cases machine_stepE: "machine_step js oui m m'"

lemma at_disk_simps [simp]:
  "ls_store (se_loop (at_disk dk s)) = ls_store (se_loop s)"
  "ls_seen (se_loop (at_disk dk s)) = ls_seen (se_loop s)"
  "ls_disk (se_loop (at_disk dk s)) = dk"
  "se_entries (at_disk dk s) = se_entries s" "se_services (at_disk dk s) = se_services s"
  by (simp_all add: at_disk_def)

section \<open>The file stays consistent\<close>

text \<open>Unlike in \<open>files_ok\<close>, memory and file may differ; each is consistent.\<close>

definition machine_inv :: "json_codec \<Rightarrow> machine \<Rightarrow> bool" where
  "machine_inv js m \<longleftrightarrow>
     disk_inv js (mc_disk m) \<and> (\<forall>s \<in> set (mc_listeners m). store_inv (ls_store (se_loop s)))"

text \<open>A listener's step takes nothing from the file. It leaves it alone, or overwrites it with the
  registry in memory after an update by one device.\<close>

lemma session_step_writes:
  assumes "store_inv (ls_store (se_loop s))" "session_step js oui s t"
  obtains (idle) "ls_store (se_loop t) = ls_store (se_loop s)" "ls_disk (se_loop t) = ls_disk (se_loop s)"
  | (saves) vals now d store r where "values_of vals (ls_store (se_loop s))"
      "upsert vals now tag_of d (ls_store (se_loop s)) = Inr (store, r)" "ls_store (se_loop t) = store"
      "store_save js store (ls_disk (se_loop s)) = (ls_disk (se_loop t), ls_saved (se_loop t))"
  using assms(2)
proof (cases rule: session_step.cases)
  case (recv_entry e es vals now l)
  from recv_entry(5) show ?thesis
  proof (cases rule: on_entry_cases)
    case (fresh store r)
    then show ?thesis using recv_entry(1,4) by (intro saves) (auto simp: write_back_def split: prod.split)
  qed (use recv_entry(1) idle in simp)
next
  case (recv_service ev evs vals now l)
  from recv_service(5) show ?thesis
  proof (cases rule: on_services_cases)
    case (known m store r)
    then show ?thesis using recv_service(1,4) by (intro saves) (auto simp: write_back_def split: prod.split)
  qed (use recv_service(1) idle in simp)
qed (auto intro: idle)

lemma session_step_inv:
  assumes "store_inv (ls_store (se_loop s))" "disk_inv js (ls_disk (se_loop s))" "session_step js oui s t"
  shows "store_inv (ls_store (se_loop t)) \<and> disk_inv js (ls_disk (se_loop t))"
  using assms(1,3)
proof (cases rule: session_step_writes)
  case (saves vals now d store r)
  with upsert_step [OF assms(1) saves(1,2)] store_save_inv [OF assms(2)] show ?thesis by metis
qed (use assms in simp)

lemma machine_step_inv: "machine_inv js m \<Longrightarrow> machine_step js oui m m' \<Longrightarrow> machine_inv js m'"
proof (erule machine_stepE)
  fix w cmd dk out
  assume "machine_inv js m" "wd_json w = js" "lists_values (wd_order w)"
    "cli_main w cmd (mc_disk m) = Inr (dk, Printed out)" "m' = m\<lparr>mc_disk := dk\<rparr>"
  then show ?thesis using cli_main_leaves left_consistent_inv
    by (fastforce simp: machine_inv_def disk_inv_def)
next
  fix w cmd dk s
  assume inv: "machine_inv js m" and "wd_json w = js" "cli_main w cmd (mc_disk m) = Inr (dk, Listening s)"
    and m': "m' = m\<lparr>mc_listeners := mc_listeners m @ [s]\<rparr>"
  then have "se_loop s = listen_init js (mc_disk m)"
    using listening_start [of w cmd "mc_disk m" dk s] by (auto simp: session_init_def)
  then show ?thesis using inv by (auto simp: machine_inv_def m' disk_inv_def listen_init_def)
next
  fix i s
  assume "machine_inv js m" "i < length (mc_listeners m)"
    "session_step js oui (at_disk (mc_disk m) (mc_listeners m ! i)) s"
    and m': "m' = m\<lparr>mc_disk := ls_disk (se_loop s), mc_listeners := (mc_listeners m)[i := s]\<rparr>"
  then show ?thesis using session_step_inv [of "at_disk (mc_disk m) (mc_listeners m ! i)" js oui s]
    by (auto simp: machine_inv_def dest!: subsetD [OF set_update_subset_insert])
qed (auto simp: machine_inv_def disk_inv_def files_law_def store_load_def store_inv_empty)

text \<open>A machine on which the program has never run.\<close>

definition new_machine :: "json_codec \<Rightarrow> machine \<Rightarrow> bool" where
  "new_machine js m \<longleftrightarrow>
     files_law js (mc_disk m) \<and> dk_contents (mc_disk m) = None \<and> mc_listeners m = []"

interpretation machine: invariant_system "new_machine js" "machine_step js oui" "machine_inv js" for js oui
proof
  show "new_machine js m \<Longrightarrow> machine_inv js m" for m
    by (simp add: new_machine_def machine_inv_def disk_inv_def store_load_def store_inv_empty)
qed (rule machine_step_inv)

section \<open>Lost updates\<close>

lemma upsert_frame:
  assumes "store_inv s" "values_of vals s" "upsert vals now g d s = Inr (s', r)"
  shows "\<exists>k1 k2. \<forall>k. k \<notin> {k1, k2} \<longrightarrow> s' k = s k"
  using assms
proof (cases rule: upsert_cases)
  case (take_over m k old r1)
  then show ?thesis by (intro exI [of _ k] exI [of _ "rec_key r"]) simp
next
  case (entry key)
  from upsert_entry_result [OF entry(2)] show ?thesis by (intro exI [of _ key]) simp
qed

text \<open>C11: a running listener undoes what other runs save. From a moment at which the registry in its
  memory is the one in the file, as when it has just started or saved, let other runs of the
  program scan, survey and tag as they like: the next event that makes the listener write, and
  whose write succeeds, puts the file back to what it was at that moment, apart from the records
  of the one device heard, which are two at most.\<close>

theorem listener_undoes_other_runs:
  assumes "new_machine js m0" and "(machine_step js oui)\<^sup>*\<^sup>* m0 m1" and "i < length (mc_listeners m1)"
    and "ls_store (se_loop (mc_listeners m1 ! i)) = store_load js (mc_disk m1)"
    and "(machine_step js oui)\<^sup>*\<^sup>* m1 m" and "mc_listeners m = mc_listeners m1"
    and "session_step js oui (at_disk (mc_disk m) (mc_listeners m ! i)) s"
    and "ls_disk (se_loop s) \<noteq> mc_disk m" and "ls_saved (se_loop s)"
  shows "machine_step js oui m
      (m\<lparr>mc_disk := ls_disk (se_loop s), mc_listeners := (mc_listeners m)[i := s]\<rparr>)
    \<and> (\<exists>k1 k2. \<forall>k. k \<notin> {k1, k2} \<longrightarrow>
        store_load js (ls_disk (se_loop s)) k = store_load js (mc_disk m1) k)"
proof -
  let ?s = "at_disk (mc_disk m) (mc_listeners m ! i)"
  have "machine_inv js m1" using machine.reachable_inv [OF assms(1,2)] .
  then have inv: "machine_inv js m" by (rule machine.run_inv [OF assms(5)])
  have i: "i < length (mc_listeners m)" using assms(3,6) by simp
  have mem: "store_inv (ls_store (se_loop ?s))" using inv i by (simp add: machine_inv_def)
  have "files_law js (mc_disk m)" using inv by (simp add: machine_inv_def disk_inv_def)
  have "\<exists>k1 k2. \<forall>k. k \<notin> {k1, k2} \<longrightarrow>
      store_load js (ls_disk (se_loop s)) k = ls_store (se_loop (mc_listeners m ! i)) k"
    using mem assms(7)
  proof (cases rule: session_step_writes)
    case idle
    then show ?thesis using assms(8) by simp
  next
    case (saves vals now d store r)
    have "store_load js (ls_disk (se_loop s)) = store"
      using store_save_load(1) [OF \<open>files_law js (mc_disk m)\<close>] saves(4) assms(9) by simp
    with upsert_frame [OF mem saves(1,2)] show ?thesis by simp
  qed
  then show ?thesis
    using assms(4,6) machine_step.listener [OF i assms(7)] by simp
qed

text \<open>A codec of finitely many registries: each is printed as its place in the list.\<close>

fun print_place :: "store list \<Rightarrow> store \<Rightarrow> string option" where
  "print_place [] s = None"
| "print_place (x # xs) s = (if s = x then Some [] else map_option (Cons CHR ''x'') (print_place xs s))"

fun parse_place :: "store list \<Rightarrow> string \<Rightarrow> store option" where
  "parse_place [] json = None"
| "parse_place (x # xs) [] = Some x"
| "parse_place (x # xs) (c # cs) = parse_place xs cs"

definition places_json :: "store list \<Rightarrow> json_codec" where
  "places_json stores = \<lparr>js_parse = parse_place stores, js_print = print_place stores\<rparr>"

lemma parse_print_place: "print_place stores s = Some json \<Longrightarrow> parse_place stores json = Some s"
  by (induction stores arbitrary: json) (auto split: if_splits)

lemma files_law_places: "files_law (places_json stores) blank_disk"
  by (auto simp: files_law_def places_json_def blank_disk_def parse_print_place)

text \<open>A listener hears its first host while a scan comes and goes.\<close>

lemma first_host_store:
  obtains st r where
    "upsert [] 7 tag_of ((device_from \<lparr>entry_ip = 9, entry_mac = mac_broadcast\<rparr>)
       \<lparr>dev_vendor := oui_lookup oui mac_broadcast\<rparr>) Map.empty = Inr (st, r)"
    "dom st = {mac_key mac_broadcast}"
  by (simp add: upsert_def existing_by_ip_def upsert_entry_def record_sighting_eq fresh_record_def Let_def)

definition other_runs :: "store list \<Rightarrow> world" where
  "other_runs stores = scan_world (places_json stores)"

lemma other_runs_simps:
  "wd_json (other_runs stores) = places_json stores" "wd_oui (other_runs stores) = []"
  "wd_order (other_runs stores) = canonical_order"
  "session_threads (os_pnet (wd_os (other_runs stores))) None (wd_air (other_runs stores))
     = [[[Send_Entry \<lparr>entry_ip = 9, entry_mac = mac_broadcast\<rparr>]]]"
  by (simp_all add: other_runs_def scan_world_def quiet_world_def session_threads_def quiet_air_def
      detect_capability_def mdns_any_datagram datagram_sends_def)

lemma scan_beside_listener:
  obtains js m0 m1 m l s where "new_machine js m0" "(machine_step js [])\<^sup>*\<^sup>* m0 m1"
    "(machine_step js [])\<^sup>*\<^sup>* m1 m" "mc_listeners m1 = [l]" "mc_listeners m = [l]"
    "ls_store (se_loop l) = store_load js (mc_disk m1)"
    "session_step js [] (at_disk (mc_disk m) l) s" "ls_disk (se_loop s) \<noteq> mc_disk m" "ls_saved (se_loop s)"
    "dom (store_load js (mc_disk m)) = {mac_key alice_mac}"
    "store_load js (ls_disk (se_loop s)) (mac_key alice_mac) = None"
proof -
  obtain d s0 where found: "\<forall>js. scan_found sample_os [] (wired (wd_unicode_upper (scan_world js)) sample_os None
      (wd_scan (scan_world js))) (ipv4_new 192 168 1 0, 30) None = Inr [d]"
    and s0: "upsert_all canonical_order (now_secs \<circ> (\<lambda>_. Some 7)) [d] Map.empty
      = Inr (s0, [(d, the (rec_tag (the (s0 (own_key d)))))])"
    and "own_key d = mac_key alice_mac" and dom: "dom s0 = {mac_key alice_mac}" and "settled s0 [d]"
    by (rule scan_world_registry)
  let ?e = "\<lparr>entry_ip = 9, entry_mac = mac_broadcast\<rparr>"
  obtain st r where st: "upsert [] 7 tag_of ((device_from ?e)\<lparr>dev_vendor := oui_lookup [] mac_broadcast\<rparr>) Map.empty
      = Inr (st, r)" "dom st = {mac_key mac_broadcast}" by (rule first_host_store)
  have "mac_key alice_mac \<noteq> mac_key mac_broadcast"
    by (simp add: mac_key_def) code_simp
  with dom st(2) have ne: "st \<noteq> s0" "st (mac_key alice_mac) = None" by auto
  let ?js = "places_json [s0, st]" and ?w = "other_runs [s0, st]"
  let ?saved = "blank_disk\<lparr>dk_contents := Some []\<rparr>" and ?lost = "blank_disk\<lparr>dk_contents := Some ''x''\<rparr>"
  let ?fresh = "session_init ?js blank_disk [[[Send_Entry ?e]]]"
  let ?read = "?fresh\<lparr>se_threads := [sending [Send_Entry ?e]]\<rparr>"
  let ?heard = "?fresh\<lparr>se_threads := [idle], se_entries := [?e]\<rparr>"
  let ?s = "?heard\<lparr>se_entries := [], se_loop := \<lparr>ls_store = st, ls_disk = ?lost, ls_saved = True, ls_seen = [9 \<mapsto> mac_broadcast],
      ls_lines = [new_line 9 mac_broadcast (oui_lookup [] mac_broadcast) (rec_tag r)]\<rparr>\<rparr>"
  let ?new = "\<lparr>mc_disk = blank_disk, mc_listeners = []\<rparr>"
  let ?both = "\<lparr>mc_disk = blank_disk, mc_listeners = [?heard]\<rparr>"
  let ?scanned = "\<lparr>mc_disk = ?saved, mc_listeners = [?heard]\<rparr>"
  have "machine_step ?js [] ?new (?new\<lparr>mc_listeners := mc_listeners ?new @ [?fresh]\<rparr>)"
    by (rule machine_step.start [of ?w _ _ "Cmd_Listen None False" _ blank_disk]) (simp_all add: other_runs_simps)
  moreover have "session_step ?js [] ?fresh ?read"
    using begin_round [of ?fresh "[Send_Entry ?e]" "[]" ?js "[]"] by (simp add: session_init_def thread_init_def)
  then have "machine_step ?js [] \<lparr>mc_disk = blank_disk, mc_listeners = [?fresh]\<rparr>
      \<lparr>mc_disk = blank_disk, mc_listeners = [?read]\<rparr>"
    using machine_step.listener [of 0 "\<lparr>mc_disk = blank_disk, mc_listeners = [?fresh]\<rparr>" ?js "[]" ?read]
    by (simp add: at_disk_def session_init_def listen_init_def)
  moreover have "session_step ?js [] ?read ?heard"
    using send_first [of ?read "Send_Entry ?e" "[]" "[]" ?js "[]"] by (simp add: session_init_def)
  then have "machine_step ?js [] \<lparr>mc_disk = blank_disk, mc_listeners = [?read]\<rparr> ?both"
    using machine_step.listener [of 0 "\<lparr>mc_disk = blank_disk, mc_listeners = [?read]\<rparr>" ?js "[]" ?heard]
    by (simp add: at_disk_def session_init_def listen_init_def)
  ultimately have run: "(machine_step ?js [])\<^sup>*\<^sup>* ?new ?both"
    by (auto intro: converse_rtranclp_into_rtranclp)
  have "\<exists>out. cli_main ?w (Cmd_Scan (Some ''192.168.1.0/30'') None False) blank_disk = Inr (?saved, Printed out)"
    using found [rule_format, of ?js] s0
    by (simp add: scan_def sample_subnet_arg other_runs_def scan_world_def quiet_world_def store_save_def
        places_json_def blank_disk_def store_load_def)
  then have scan: "machine_step ?js [] ?both ?scanned"
    using machine_step.command [of ?w ?js "[]" _ ?both ?saved]
    by (auto simp: other_runs_simps canonical_order simp del: cli_main.simps)
  have "on_entry ?js [] [] 7 ?e (se_loop (at_disk ?saved ?heard)) = Inr (se_loop ?s)"
    using st(1) ne(1)
    by (simp add: at_disk_def session_init_def listen_init_def on_entry_def write_back_def
        store_save_def store_load_def places_json_def blank_disk_def is_broadcast_mac_iff)
  then have "session_step ?js [] (at_disk ?saved ?heard)
      ((at_disk ?saved ?heard)\<lparr>se_entries := [], se_loop := se_loop ?s\<rparr>)"
    by (intro session_step.recv_entry [where vals = "[]"])
      (simp_all add: at_disk_def session_init_def listen_init_def values_of_def)
  then have hear: "session_step ?js [] (at_disk (mc_disk ?scanned) ?heard) ?s"
    by (simp add: at_disk_def)
  have scans: "(machine_step ?js [])\<^sup>*\<^sup>* ?both ?scanned" using scan by (rule r_into_rtranclp)
  have new: "new_machine ?js ?new"
    by (simp add: new_machine_def files_law_places) (simp add: blank_disk_def)
  have "store_load ?js (mc_disk ?scanned) = s0" "store_load ?js ?lost = st"
    by (simp_all add: store_load_def places_json_def)
  then show thesis
    using dom ne(2) by (intro that [OF new run scans _ _ _ hear])
      (simp_all add: session_init_def listen_init_def blank_disk_def)
qed

theorem listener_undoes_other_runs_witness:
  "\<exists>js m0 m m'. (machine_step js [])\<^sup>*\<^sup>* m0 m \<and> machine_step js [] m m'
     \<and> dom (store_load js (mc_disk m)) = {mac_key alice_mac}
     \<and> store_load js (mc_disk m') (mac_key alice_mac) = None"
proof -
  obtain js m0 m1 m l s where run: "new_machine js m0" "(machine_step js [])\<^sup>*\<^sup>* m0 m1"
      "(machine_step js [])\<^sup>*\<^sup>* m1 m"
    and l: "mc_listeners m1 = [l]" "mc_listeners m = [l]" "ls_store (se_loop l) = store_load js (mc_disk m1)"
    and s: "session_step js [] (at_disk (mc_disk m) l) s" "ls_disk (se_loop s) \<noteq> mc_disk m" "ls_saved (se_loop s)"
      "dom (store_load js (mc_disk m)) = {mac_key alice_mac}"
      "store_load js (ls_disk (se_loop s)) (mac_key alice_mac) = None"
    by (rule scan_beside_listener)
  have "machine_step js [] m (m\<lparr>mc_disk := ls_disk (se_loop s), mc_listeners := (mc_listeners m)[0 := s]\<rparr>)"
    using listener_undoes_other_runs [OF run(1,2) _ _ run(3), of 0 s] l s by simp
  with run s(4,5) show ?thesis
    by (intro exI [of _ js] exI [of _ m0] exI [of _ m]
        exI [of _ "m\<lparr>mc_disk := ls_disk (se_loop s), mc_listeners := (mc_listeners m)[0 := s]\<rparr>"])
      (auto intro: rtranclp_trans)
qed

end
