(* ===== verification/Listen_Wires.thy ===== *)
theory Listen_Wires
  imports Listen_Output
begin

text \<open>
  A session of the listener composed down to what its sources deliver: no thread of it dies on what
  it reads, and the hosts it knows are those the datagrams, the frames and the ARP table name.
\<close>

section \<open>No datagram ends the mDNS thread\<close>

lemma passive_questions_returns: "returns (passive_questions data n pos services)"
proof (induction data n pos services rule: passive_questions.induct)
  case (2 data n pos services)
  obtain r where "decode_label data pos = Inr r" using decode_label_returns by blast
  with 2 show ?case by (auto simp: passive_decode_label_eq split: option.split)
qed simp

lemma passive_rdata_returns: "returns (passive_rdata data pos rtype services)"
proof -
  obtain r where "decode_label data pos = Inr r" using decode_label_returns by blast
  then show ?thesis by (auto simp: passive_rdata_def passive_decode_label_eq split: option.split)
qed

lemma passive_records_returns: "returns (passive_records data n pos services)"
proof (induction n arbitrary: pos services)
  case (Suc n)
  obtain r where r: "decode_label data pos = Inr r" using decode_label_returns by blast
  show ?case
  proof (cases r)
    case (Some np)
    obtain services2 where "passive_rdata data (snd np + 10) (u16_be (data ! snd np) (data ! Suc (snd np)))
        (note_service (fst np) services) = Inr services2"
      using passive_rdata_returns by (rule returnsE)
    with r Some Suc show ?thesis
      by (auto simp: passive_decode_label_eq Let_def read_u16_Inr split: prod.split)
  qed (use r in \<open>simp add: passive_decode_label_eq\<close>)
qed simp

lemma parse_mdns_for_services_returns: "returns (parse_mdns_for_services data)"
proof (cases "length data < 12")
  case False
  obtain q where "passive_questions data (unat (u16_be (data ! 4) (data ! 5))) 12 [] = Inr q"
    using passive_questions_returns by (rule returnsE)
  with False show ?thesis
    using passive_records_returns
    by (auto simp: parse_mdns_for_services_def read_u16_Inr Let_def intro!: returns_bind split: sum.split)
qed (simp add: parse_mdns_for_services_def)


lemma mdns_datagram_entry:
  obtains ev where "mdns_datagram data ip = Inr (ev, \<lparr>entry_ip = ip, entry_mac = mac_broadcast\<rparr>)"
proof -
  obtain services where "parse_mdns_for_services data = Inr services"
    using parse_mdns_for_services_returns by (rule returnsE)
  then show thesis using that by (simp add: mdns_datagram_def)
qed

definition mdns_senders :: "(recv \<times> bool) list \<Rightarrow> ipv4 set" where
  "mdns_senders iterations = {ip. \<exists>data due. (Datagram data (Some ip), due) \<in> set iterations}"

lemma mdns_rounds_hear:
  "length (mdns_rounds iterations) = length iterations
   \<and> {e. Send_Entry e \<in> set (concat (mdns_rounds iterations))}
     = (\<lambda>ip. \<lparr>entry_ip = ip, entry_mac = mac_broadcast\<rparr>) ` mdns_senders iterations"
proof (induction iterations rule: mdns_rounds.induct)
  case (2 data ip due rest)
  obtain ev where ev: "mdns_datagram data ip = Inr (ev, \<lparr>entry_ip = ip, entry_mac = mac_broadcast\<rparr>)"
    by (rule mdns_datagram_entry)
  have "mdns_senders ((Datagram data (Some ip), due) # rest) = insert ip (mdns_senders rest)"
    by (auto simp: mdns_senders_def)
  moreover have "{e. Send_Entry e \<in> set (datagram_sends (ev, \<lparr>entry_ip = ip, entry_mac = mac_broadcast\<rparr>))}
      = {\<lparr>entry_ip = ip, entry_mac = mac_broadcast\<rparr>}"
    by (auto simp: datagram_sends_def split: option.splits)
  ultimately show ?case using 2 [OF ev] by (simp add: ev Collect_disj_eq)
qed (auto simp: mdns_senders_def)

section \<open>Nor any frame the sniffer\<close>

text \<open>What a frame names: the sender and the target of an ARP packet, the sender of an IPv4 packet, or
  just the MAC of another; addresses count if they are those of a host of the subnet.\<close>

definition in_net :: "(ipv4 \<times> byte) option \<Rightarrow> ipv4 \<Rightarrow> bool" where
  "in_net net ip \<longleftrightarrow>
     (case net of None \<Rightarrow> True | Some (b, p) \<Rightarrow> drop_bit (32 - unat p) ip = drop_bit (32 - unat p) b)"

definition named :: "bool \<Rightarrow> (ipv4 \<times> byte) option \<Rightarrow> ipv4 \<Rightarrow> mac \<Rightarrow> arp_entry set" where
  "named candidate net ip m =
     (if candidate \<and> in_net net ip then {\<lparr>entry_ip = ip, entry_mac = m\<rparr>} else {})"

definition arp_entries :: "(ipv4 \<times> byte) option \<Rightarrow> bytes \<Rightarrow> arp_entry set" where
  "arp_entries net arp =
     named (\<not> is_unspecified (arp_sender_ip arp) \<and> \<not> is_loopback (arp_sender_ip arp)
         \<and> \<not> is_nil_mac (arp_sender_mac arp)) net (arp_sender_ip arp) (arp_sender_mac arp)
     \<union> named (\<not> is_unspecified (arp_target_ip arp) \<and> \<not> is_loopback (arp_target_ip arp)
         \<and> \<not> is_nil_mac (arp_target_mac arp)) net (arp_target_ip arp) (arp_target_mac arp)"

definition frame_entries :: "(ipv4 \<times> byte) option \<Rightarrow> bytes \<Rightarrow> arp_entry set" where
  "frame_entries net packet =
     (case ethernet_new packet of None \<Rightarrow> {}
      | Some eth \<Rightarrow>
          (if is_nil_mac (mac_at eth 6) \<or> is_broadcast_mac (mac_at eth 6) then {}
           else if ethertype eth = ethertype_arp then
             (case arp_new (eth_payload eth) of None \<Rightarrow> {} | Some arp \<Rightarrow> arp_entries net arp)
           else if ethertype eth = ethertype_ipv4 then
             (case ipv4_packet_new (eth_payload eth) of None \<Rightarrow> {}
              | Some ipv4 \<Rightarrow>
                  named (\<not> is_unspecified (ip_source ipv4) \<and> \<not> is_loopback (ip_source ipv4)
                    \<and> \<not> is_multicast (ip_source ipv4)) net (ip_source ipv4) (mac_at eth 6))
           else {\<lparr>entry_ip = 0, entry_mac = mac_at eth 6\<rparr>}))"

text \<open>Whether an entry was seen before decides only whether it is sent again: a step of the sniffer
  adds the same entries to all that was reported.\<close>

definition adds :: "(sniffed \<Rightarrow> sniffed outcome) \<Rightarrow> arp_entry set \<Rightarrow> bool" where
  "adds f new \<longleftrightarrow>
     (\<forall>st. fst st = entry_pair ` set (snd st) \<longrightarrow>
        (\<exists>st'. f st = Inr st' \<and> fst st' = entry_pair ` set (snd st') \<and> set (snd st') = set (snd st) \<union> new))"

lemma adds_nothing: "adds Inr {}"
  by (simp add: adds_def)

lemma adds_emit: "adds (\<lambda>st. Inr (emit ip m st)) {\<lparr>entry_ip = ip, entry_mac = m\<rparr>}"
  by (auto simp: adds_def emit_def entry_pair_def image_iff)

lemma adds_report_if:
  assumes "good_subnet net"
  shows "adds (report_if candidate net ip m) (named candidate net ip m)"
proof -
  have "allowed_ip net ip = Inr (in_net net ip)"
    using allowed_ip_good [OF assms] assms
    by (auto simp: in_net_def good_subnet_def base_value_eq_iff split: option.splits)
  then have "report_if candidate net ip m =
      (if candidate \<and> in_net net ip then (\<lambda>st. Inr (emit ip m st)) else Inr)"
    by (auto simp: report_if_def fun_eq_iff)
  then show ?thesis using adds_nothing adds_emit by (simp add: named_def)
qed

lemma adds_bind:
  assumes "adds f new1" "adds g new2"
  shows "adds (\<lambda>st. outcome_bind (f st) g) (new1 \<union> new2)"
  unfolding adds_def
proof (intro allI impI)
  fix st :: sniffed
  assume "fst st = entry_pair ` set (snd st)"
  then obtain st1 where st1: "f st = Inr st1" "fst st1 = entry_pair ` set (snd st1)"
    "set (snd st1) = set (snd st) \<union> new1" using assms(1) unfolding adds_def by blast
  moreover from this(2) obtain st2 where "g st1 = Inr st2" "fst st2 = entry_pair ` set (snd st2)"
    "set (snd st2) = set (snd st1) \<union> new2" using assms(2) unfolding adds_def by blast
  ultimately show "\<exists>st'. outcome_bind (f st) g = Inr st' \<and> fst st' = entry_pair ` set (snd st')
      \<and> set (snd st') = set (snd st) \<union> (new1 \<union> new2)"
    by (intro exI [of _ st2]) (simp add: Un_assoc)
qed

lemma adds_sniff_frame:
  assumes "good_subnet net"
  shows "adds (sniff_frame net packet) (frame_entries net packet)"
proof (cases "ethernet_new packet")
  case None
  then show ?thesis using adds_nothing by (simp add: sniff_frame_def [abs_def] frame_entries_def)
next
  case (Some eth)
  note report = adds_report_if [OF assms]
  show ?thesis
    by (cases "is_nil_mac (mac_at eth 6) \<or> is_broadcast_mac (mac_at eth 6)"; cases "arp_new (eth_payload eth)";
        cases "ipv4_packet_new (eth_payload eth)"; cases "ethertype eth = ethertype_arp";
        cases "ethertype eth = ethertype_ipv4")
      (simp_all add: sniff_frame_def [abs_def] frame_entries_def arp_entries_def Some Let_def
        adds_nothing adds_emit report adds_bind [OF report report])
qed

lemma sniff_frame_adds:
  assumes "good_subnet net" "fst st = entry_pair ` set (snd st)"
  obtains st' where "sniff_frame net packet st = Inr st'" "fst st' = entry_pair ` set (snd st')"
    "set (snd st') = set (snd st) \<union> frame_entries net packet"
  using adds_sniff_frame [OF assms(1), of packet] assms(2) that unfolding adds_def by blast

lemma sniff_rounds_hear:
  "good_subnet net \<Longrightarrow> sniff_inv net st \<Longrightarrow>
   length (sniff_rounds net packets st) = length packets
   \<and> {e. Send_Entry e \<in> set (concat (sniff_rounds net packets st))} \<union> set (snd st)
     = (\<Union>packet \<in> {p. Some p \<in> set packets}. frame_entries net packet) \<union> set (snd st)"
proof (induction net packets st rule: sniff_rounds.induct)
  case (3 net packet rest st)
  obtain st1 where st1: "sniff_frame net packet st = Inr st1" "sniff_inv net st1" "prefix (snd st) (snd st1)"
    using sniff_frame_reports [OF 3(2,3), of packet] by (rule reportsE)
  have "fst st = entry_pair ` set (snd st)" using 3(3) by (simp add: sniff_inv_def)
  from sniff_frame_adds [OF 3(2) this, of packet] st1(1)
  have all: "set (snd st1) = set (snd st) \<union> frame_entries net packet" by auto
  obtain new where new: "snd st1 = snd st @ new" using st1(3) by (auto simp: prefix_def)
  have "{e. Send_Entry e \<in> set (concat (sniff_rounds net (Some packet # rest) st))} \<union> set (snd st)
      = {e. Send_Entry e \<in> set (concat (sniff_rounds net rest st1))} \<union> set (snd st1)"
    by (auto simp: st1(1) new)
  also have "\<dots> = (\<Union>p \<in> {p. Some p \<in> set rest}. frame_entries net p) \<union> set (snd st1)"
    using 3(1) [OF st1(1) 3(2) st1(2)] by blast
  also have "\<dots> = (\<Union>p \<in> {p. Some p \<in> set (Some packet # rest)}. frame_entries net p) \<union> set (snd st)"
    using all by auto
  finally show ?case using 3(1) [OF st1(1) 3(2) st1(2)] by (simp add: st1(1))
qed auto

section \<open>Who is heard\<close>

text \<open>The prefix of the interface the sniffer takes must be one that has a mask.\<close>

definition sniffable :: "network_interface list \<Rightarrow> string option \<Rightarrow> bool" where
  "sniffable pnet iface \<longleftrightarrow>
     (case sniff_interface pnet iface of None \<Rightarrow> True
      | Some i \<Rightarrow>
          (case List.map_filter v4_of (ni_ips i) of [] \<Rightarrow> True | (_, p) # _ \<Rightarrow> good_prefix p))"

text \<open>The subnet of the interface; \<open>None\<close> if it has no IPv4 address.\<close>

definition sniff_net :: "network_interface \<Rightarrow> (ipv4 \<times> byte) option" where
  "sniff_net i =
     (case List.map_filter v4_of (ni_ips i) of [] \<Rightarrow> None | (v4, p) # _ \<Rightarrow> Some (base_value v4 p, p))"

text \<open>The entries that the sources of the listener name.\<close>

definition source_entries :: "network_interface list \<Rightarrow> string option \<Rightarrow> air \<Rightarrow> source_thread \<Rightarrow> arp_entry set" where
  "source_entries pnet iface air src =
     (case src of
        Sniff_Raw \<Rightarrow>
          (case (sniff_interface pnet iface, air_frames air) of
             (Some i, Some packets) \<Rightarrow> (\<Union>p \<in> {p. Some p \<in> set packets}. frame_entries (sniff_net i) p)
           | _ \<Rightarrow> {})
      | Poll_Arp_Table \<Rightarrow> (\<Union>c \<in> set (air_polls air). set (parse_arp_table c))
      | Listen_Mdns \<Rightarrow>
          (case air_mdns air of None \<Rightarrow> {}
           | Some iterations \<Rightarrow> (\<lambda>ip. \<lparr>entry_ip = ip, entry_mac = mac_broadcast\<rparr>) ` mdns_senders iterations))"

lemma sniffable_subnet:
  assumes "sniffable pnet iface" "sniff_interface pnet iface = Some i"
  shows "subnet_from_pnet i = Inr (sniff_net i)" "good_subnet (sniff_net i)"
proof -
  have "subnet_from_pnet i = Inr (sniff_net i) \<and> good_subnet (sniff_net i)"
    using assms
    by (cases "List.map_filter v4_of (ni_ips i)")
      (auto simp: sniffable_def sniff_net_def subnet_from_pnet_def good_subnet_def netmask_good base_value_def)
  then show "subnet_from_pnet i = Inr (sniff_net i)" "good_subnet (sniff_net i)" by blast+
qed

lemma thread_hears:
  assumes "src = Sniff_Raw \<Longrightarrow> sniffable pnet iface"
  shows "{e. Send_Entry e \<in> set (concat (thread_rounds pnet iface air src))} = source_entries pnet iface air src"
proof (cases src)
  case Sniff_Raw
  show ?thesis
  proof (cases "sniff_interface pnet iface")
    case (Some i)
    have "sniff_inv (sniff_net i) ({}, [])" by (simp add: sniff_inv_def)
    from sniff_rounds_hear [OF sniffable_subnet(2) [OF assms [OF Sniff_Raw] Some] this] show ?thesis
      using sniffable_subnet(1) [OF assms [OF Sniff_Raw] Some]
      by (cases "air_frames air") (simp_all add: Sniff_Raw source_entries_def Some)
  qed (simp add: Sniff_Raw source_entries_def)
next
  case Poll_Arp_Table
  have "{e. Send_Entry e \<in> set (concat (poll_rounds (air_polls air) {}))} = set (poll_arp_table (air_polls air) {})"
    unfolding concat_poll_rounds by auto
  then show ?thesis using poll_arp_table_exact by (simp add: Poll_Arp_Table source_entries_def)
next
  case Listen_Mdns
  then show ?thesis
    using mdns_rounds_hear by (cases "air_mdns air") (simp_all add: source_entries_def)
qed

lemma sent_all:
  assumes "threads_of_session threads s" "\<forall>t \<in> set (se_threads s). unsent t = []"
  shows "sent_of threads s = (\<Union>rounds \<in> set threads. set (concat rounds))"
proof -
  note n = threads_of_sessionD(1) [OF assms(1)]
  have "sent_by (threads ! i) (se_threads s ! i) = set (concat (threads ! i))" if "i < length threads" for i
    using that n assms(2) nth_mem [of i "se_threads s"] by (simp add: sent_by_def)
  then have "sent_of threads s = (\<Union>i < length threads. set (concat (threads ! i)))"
    unfolding sent_of_def by (intro SUP_cong) auto
  also have "\<dots> = (\<Union>rounds \<in> set threads. set (concat rounds))"
    by (fastforce simp: set_conv_nth [of threads] simp del: set_concat)
  finally show ?thesis .
qed

text \<open>C8: who a listener knows. Whatever its sources deliver, none of its threads dies of it: if each
  thread has gone through all it was given by the time the loop ends, the addresses known are
  exactly those that the ARP packets, the IPv4 packets and the ARP table name, or the senders of
  the mDNS datagrams, as the capability has it, leaving out entries that name no address; that is
  the number printed. If the registry was empty, it now holds a record for each MAC noted for them
  and no other.\<close>

theorem listener_hears_every_sender:
  assumes "air_raw_socket air \<Longrightarrow> sniffable pnet iface"
    and "(session_step js oui)\<^sup>*\<^sup>* (session_init js dk (session_threads pnet iface air)) s"
    and "session_step js oui s t" "\<not> se_stopped s" "se_stopped t"
    and "\<forall>th \<in> set (se_threads t). unsent th = []"
  shows "dom (ls_seen (se_loop t)) =
      (\<Union>src \<in> set (threads_of (detect_capability (air_raw_socket air) (air_arp_table air))).
        entry_ip ` {e \<in> source_entries pnet iface air src. reportable e})
    \<and> captured t = card (dom (ls_seen (se_loop t)))
    \<and> (store_load js dk = Map.empty \<longrightarrow> dom (ls_store (se_loop t)) = mac_key ` ran (ls_seen (se_loop t)))"
proof -
  let ?threads = "session_threads pnet iface air"
  let ?srcs = "threads_of (detect_capability (air_raw_socket air) (air_arp_table air))"
  have run: "(session_step js oui)\<^sup>*\<^sup>* (session_init js dk ?threads) t"
    using assms(2,3) by (rule rtranclp.rtrancl_into_rtrancl)
  have "accounts ?threads t" using session_accounts.reachable_inv [OF _ run] by blast
  then have "threads_of_session ?threads t" by (simp add: accounts_def)
  from sent_all [OF this assms(6)]
  have sent: "sent_of ?threads t = (\<Union>src \<in> set ?srcs. set (concat (thread_rounds pnet iface air src)))"
    by (simp add: session_threads_def)
  have "sniffable pnet iface" if "src \<in> set ?srcs" "src = Sniff_Raw" for src
    using that assms(1) by (auto simp: detect_capability_def split: if_splits)
  then have "{e. Send_Entry e \<in> sent_of ?threads t} = (\<Union>src \<in> set ?srcs. source_entries pnet iface air src)"
    using thread_hears [of _ pnet iface air] unfolding sent by blast
  then have "{e. Send_Entry e \<in> sent_of ?threads t \<and> reportable e}
      = (\<Union>src \<in> set ?srcs. {e \<in> source_entries pnet iface air src. reportable e})" by blast
  then have dom: "dom (ls_seen (se_loop t)) =
      (\<Union>src \<in> set ?srcs. entry_ip ` {e \<in> source_entries pnet iface air src. reportable e})"
    unfolding stopped_seen [OF assms(2-5)] by (simp only: image_UN)
  have "dom (ls_store (se_loop t)) = mac_key ` ran (ls_seen (se_loop t))" if "store_load js dk = Map.empty"
  proof -
    have "(listen_step js oui)\<^sup>*\<^sup>* (listen_init js dk) (se_loop t)"
      using session_loop.run_simulates [OF run] by (simp add: session_init_def)
    then have "heard_only (se_loop t)" using listening_afresh.reachable_inv that by blast
    then show ?thesis unfolding heard_only_def ran_def by fast
  qed
  with dom show ?thesis by (simp add: captured_def)
qed

text \<open>A listener without privileges hears one datagram.\<close>

theorem listener_hears_every_sender_witness:
  "\<exists>t :: session. se_stopped t \<and> dom (ls_seen (se_loop t)) = {5} \<and> captured t = 1
     \<and> dom (ls_store (se_loop t)) = {mac_key mac_broadcast}"
proof -
  let ?air = "quiet_air [] 5"
  have threads: "session_threads [] None ?air = [[[Send_Entry (mdns_entry 5)]]]"
    by (simp add: session_threads_def quiet_air_def detect_capability_def mdns_any_datagram
        datagram_sends_def mdns_entry_def)
  obtain s t where run: "(session_step no_json [])\<^sup>*\<^sup>* (session_init no_json blank_disk (session_threads [] None ?air)) s"
      "session_step no_json [] s t" "\<not> se_stopped s" "se_stopped t" and idle: "se_threads t = [idle]"
    and seen: "ls_seen (se_loop t) = [5 \<mapsto> mac_broadcast]"
    unfolding threads using one_host_session by blast
  have raw: "air_raw_socket ?air \<Longrightarrow> sniffable [] None" by (simp add: quiet_air_def)
  have "\<forall>th \<in> set (se_threads t). unsent th = []" by (simp add: idle unsent_def)
  from listener_hears_every_sender [OF raw run this] seen run(4) show ?thesis
    by (intro exI [of _ t]) simp
qed

end
