(* ===== verification/Spec2Isabelle.thy ===== *)
theory Spec2Isabelle
  imports Gannet_Prelude Rust_Strings Rust_Text Rust_Utf8 Net_Types Device_Model Classify Store
    Dns_Packet Mdns Subnet Interface Packets Ports Fingerprint Sweep Arp_Scan Namer Oui Passive
    Survey Survey_Results Registry_File Listen_Session Listen_Ending Commands Scan_Wires Survey_Wires Program Shared_File
    Listen_Output Listen_Wires
begin

text \<open>
  \<^bold>\<open>Gannet\<close> is a command-line program that finds the devices of a local network, guesses what
  they are and remembers them in a JSON file. This development models the Rust program under
  \<open>src/src\<close> and proves what makes its parts correct, and where they are not.

  \<^bold>\<open>The parts and how they interact.\<close> \<open>main.rs\<close> dispatches to the five subcommands of
  \<open>cli/commands.rs\<close>. \<open>scan\<close> takes a subnet from its argument or an interface
  (\<open>net/interface.rs\<close>), asks every host by ARP (\<open>discovery/arp.rs\<close>), probes the silent ones by
  ICMP and TCP (\<open>discovery/sweep.rs\<close>), looks their names up (\<open>discovery/mdns.rs\<close>), fingerprints
  their TCP stacks (\<open>discovery/fingerprint.rs\<close>), classifies them (\<open>identity/classify.rs\<close>, with the
  vendor of \<open>identity/oui.rs\<close>) and files each in the registry (\<open>identity/store.rs\<close>), which gives a
  new device a tag (\<open>identity/namer.rs\<close>). \<open>listen\<close> (\<open>discovery/passive.rs\<close>) files what threads
  overhear; \<open>survey\<close> (\<open>discovery/survey.rs\<close>) looks for further subnets; \<open>tag\<close> and \<open>list\<close> work on
  the registry alone.

  \<^bold>\<open>The theories.\<close>
  \<^item> \<open>Gannet_Prelude\<close>: the result type \<open>outcome\<close>, in which every panic and process exit is a value,
    the checked operations of the development profile (overflow, shifts and indices panic), and the
    locale of invariants that every state machine here interprets. \<open>Rust_Strings\<close>, \<open>Rust_Text\<close>,
    \<open>Rust_Utf8\<close>: the string operations of the Rust library the sources use; a string is the list of
    its UTF-8 bytes. \<open>Net_Types\<close>: IPv4 and MAC addresses with their printers and parsers.
  \<^item> \<open>Device_Model\<close>, \<open>Classify\<close>, \<open>Namer\<close>, \<open>Oui\<close>, \<open>Store\<close>: the files of \<open>identity/\<close>. The registry
    is a partial function; its invariant, what each branch of \<open>upsert\<close> does, and the two ways it
    confuses devices are proved for every order in which the hash map may list its records.
  \<^item> \<open>Interface\<close>, \<open>Subnet\<close>: the choice of an interface, and the mask arithmetic of which five files
    carry a copy, stated once as locales that each copy interprets.
  \<^item> \<open>Packets\<close>, \<open>Ports\<close>: the views of the vendored \<open>pnet\<close> crates with the internet checksum, and the
    two port counters under any interleaving of threads.
  \<^item> \<open>Arp_Scan\<close>, \<open>Sweep\<close>, \<open>Fingerprint\<close>, \<open>Dns_Packet\<close>, \<open>Mdns\<close>, \<open>Passive\<close>, \<open>Survey\<close>: the files of
    \<open>discovery/\<close>: packets byte by byte, parsers that are shown never to panic, the waiting loops over
    whatever arrives, and the concurrent parts as step relations. \<open>Survey_Results\<close>: what a survey
    reports, in which order, and whom it takes for a gateway. \<open>Listen_Session\<close>: a session of the
    listener with its threads, round by round, its channels and Ctrl-C, as a refinement of the event
    loop of \<open>Passive\<close>; \<open>Listen_Ending\<close>: every schedule of it ends after Ctrl-C; \<open>Listen_Output\<close>:
    what it prints.
  \<^item> \<open>Registry_File\<close>: the JSON file between two runs, with writes that fail.
  \<^item> \<open>Commands\<close>: the subcommands over the answers of the network, and their tables.
  \<^item> \<open>Scan_Wires\<close>, \<open>Survey_Wires\<close>, \<open>Listen_Wires\<close>: a scan, a survey and a listening session composed
    down to what each socket delivers; who is found, counted and heard follows from the components'
    theorems. \<open>Program\<close>: \<open>main.rs\<close>, the
    standard output, the ways in which a run can fail, and what one run leaves to the next.
  \<^item> \<open>Shared_File\<close>: several runs at the same time over one registry file, and what a running
    listener undoes. This theory: the invariant of the registry over all such runs.

  \<^bold>\<open>Bounds.\<close> No definition has fuel: the label decoder ends because it never visits a position
  twice, the option parsers because each step advances, and the waiting loops run over the finite
  list of what the socket delivers before the deadline. Time enters as these lists, and as explicit
  instants in the ARP collecting loop, which has two deadlines. A session of the listener has no
  bound until Ctrl-C; from then on \<open>closing_work\<close> bounds every schedule of it.

  \<^bold>\<open>Parameters.\<close> What the operating system and libraries outside the sources answer is an argument:
  the list of interfaces, files under \<open>/proc\<close> and \<open>/sys\<close>, received packets, the clock, the order of
  hash maps and of completing tasks, the \<open>url\<close> crate and \<open>serde_json\<close>. Of the latter and of the
  file system the theorem below relies on \<open>files_law\<close>: what is printed is read back, and a write
  leaves the new text, the old one, or something that is no registry. The file part of a command
  other than \<open>listen\<close>, which loads and saves without waiting in between, is one step.

  \<^bold>\<open>Not modelled.\<close> The vendored crates apart from what \<open>Packets\<close> holds, the parsing of the command
  line by \<open>clap\<close>, the diagnostics of \<open>--verbose\<close>, sleeping, and the set-up of sockets, whose
  failure is a branch of the model. Overflow of \<open>usize\<close> counters of in-memory collections cannot
  occur and is left out.
\<close>

section \<open>Runs of the program\<close>

text \<open>C1: the whole program keeps its registry consistent. From a first run without a registry file,
  after any number of scans, surveys, taggings, listings and listeners, one after the other or at
  the same time, whatever the network answers, and even if writes fail and listeners are killed,
  the registry the next run loads, and that in the memory of every listener still running,
  satisfies the invariant: a record is filed under the key of its MAC or, without one, under its
  only address, with a tag and its last address among its addresses.\<close>

theorem program_keeps_registry:
  assumes "new_machine js m0" and "(machine_step js oui)\<^sup>*\<^sup>* m0 m"
    and "s = store_load js (mc_disk m) \<or> (\<exists>l \<in> set (mc_listeners m). s = ls_store (se_loop l))"
  shows "store_inv s
    \<and> (\<forall>r m. s (mac_key m) = Some r \<longrightarrow> rec_mac r = Some (show_mac m))
    \<and> (\<forall>r ip. s (show_ipv4 ip) = Some r \<longrightarrow> rec_mac r = None \<and> rec_ips r = [show_ipv4 ip])
    \<and> (\<forall>r k. s k = Some r \<longrightarrow> rec_key r = k \<and> rec_tag r \<noteq> None)"
proof -
  have "machine_inv js m" using machine.reachable_inv [OF assms(1,2)] .
  then have inv: "store_inv s" using assms(3) by (auto simp: machine_inv_def disk_inv_def)
  show ?thesis
  proof (intro conjI allI impI)
    fix k m ip r
    show "store_inv s" by (rule inv)
    show "rec_mac r = Some (show_mac m)" if "s (mac_key m) = Some r"
      using record_ok_mac_key [OF store_invD [OF inv that]] .
    show "rec_mac r = None" "rec_ips r = [show_ipv4 ip]" if "s (show_ipv4 ip) = Some r"
      using record_ok_ip_key [OF store_invD [OF inv that]] by simp_all
    show "rec_key r = k" "rec_tag r \<noteq> None" if "s k = Some r"
      using store_invD [OF inv that] by (simp_all add: record_ok_def record_shape_def)
  qed
qed

theorem program_keeps_registry_witness:
  "\<exists>js m0 m s0 l. (machine_step js [])\<^sup>*\<^sup>* m0 m \<and> store_load js (mc_disk m) = s0
     \<and> dom s0 = {mac_key alice_mac} \<and> store_inv s0 \<and> mc_listeners m = [l]"
proof -
  obtain js m0 m1 m l where "new_machine js m0" and "(machine_step js [])\<^sup>*\<^sup>* m0 m1" "(machine_step js [])\<^sup>*\<^sup>* m1 m"
    and "dom (store_load js (mc_disk m)) = {mac_key alice_mac}" and "mc_listeners m = [l]"
    by (rule scan_beside_listener)
  moreover from this(2,3) have run: "(machine_step js [])\<^sup>*\<^sup>* m0 m" by (rule rtranclp_trans)
  moreover have "store_inv (store_load js (mc_disk m))"
    using program_keeps_registry [OF \<open>new_machine js m0\<close> run, of "store_load js (mc_disk m)"] by simp
  ultimately show ?thesis by blast
qed

end
